(* ===== verification/Prelude.thy ===== *)
theory Prelude
  imports
    Main
    "HOL-Library.Word"
    "HOL-Library.Sublist"
    "HOL-Library.Char_ord"
    "HOL-Library.List_Lexorder"
begin

text \<open>
  Shared material of the development: the types that stand for Go's byte slices, strings and
  connection pointers, the error values of the package, sets of strings as Go's
  \<^verbatim>\<open>map[string]struct{}\<close>, and the list lemmas the components use.
\<close>

section \<open>Collections of rewrite rules\<close>

named_theorems conn_simps \<open>what an operation does to the fields of a connection\<close>
named_theorems pool_simps \<open>what an operation does to the members of a connection pool\<close>
named_theorems sock_simps \<open>what an operation does to the fields of a socket\<close>

section \<open>Bytes and strings\<close>

text \<open>
  A Go \<^verbatim>\<open>byte\<close> is an 8-bit word, a \<^verbatim>\<open>[]byte\<close> a list of them. A Go
  \<^verbatim>\<open>string\<close> is a sequence of bytes too, and is modelled by HOL's \<open>string\<close> (a list of
  8-bit characters), so that names and literals read as in the source; the two conversions
  \<^verbatim>\<open>string(b)\<close> and \<^verbatim>\<open>[]byte(s)\<close> copy the bytes and are inverse to each other.
\<close>

type_synonym byte = "8 word"
type_synonym bytes = "byte list"

text \<open>A \<^verbatim>\<open>*Conn\<close> is the number of a cell of the connection store.\<close>

type_synonym conn_id = nat

definition byte_of_char :: "char \<Rightarrow> byte" where
  "byte_of_char c = word_of_nat (of_char c)"

definition char_of_byte :: "byte \<Rightarrow> char" where
  "char_of_byte b = char_of (unat b)"

definition bytes_of_string :: "string \<Rightarrow> bytes" where
  "bytes_of_string s = map byte_of_char s"

definition string_of_bytes :: "bytes \<Rightarrow> string" where
  "string_of_bytes b = map char_of_byte b"

lemma byte_of_char_of_byte [simp]: "byte_of_char (char_of_byte b) = b"
proof -
  have "unat b < 256" using unsigned_less [of b] by simp
  then show ?thesis by (simp add: byte_of_char_def char_of_byte_def)
qed

lemma char_of_byte_of_char [simp]: "char_of_byte (byte_of_char c) = c"
proof -
  have "(of_char c :: nat) < 256" by simp
  then have "unat (word_of_nat (of_char c) :: byte) = of_char c"
    by (simp add: unat_of_nat take_bit_eq_mod)
  then show ?thesis by (simp add: byte_of_char_def char_of_byte_def)
qed

lemma string_of_bytes_inverse [simp]: "bytes_of_string (string_of_bytes b) = b"
  by (simp add: bytes_of_string_def string_of_bytes_def comp_def)

lemma bytes_of_string_inverse [simp]: "string_of_bytes (bytes_of_string s) = s"
  by (simp add: bytes_of_string_def string_of_bytes_def comp_def)

lemma length_bytes_of_string [simp]: "length (bytes_of_string s) = length s"
  by (simp add: bytes_of_string_def)

lemma length_string_of_bytes [simp]: "length (string_of_bytes b) = length b"
  by (simp add: string_of_bytes_def)

lemma bytes_of_string_Nil [simp]: "bytes_of_string [] = []"
  by (simp add: bytes_of_string_def)

lemma string_of_bytes_Nil [simp]: "string_of_bytes [] = []"
  by (simp add: string_of_bytes_def)

lemma string_of_bytes_eq_iff [simp]: "string_of_bytes a = string_of_bytes b \<longleftrightarrow> a = b"
  by (metis string_of_bytes_inverse)

lemma bytes_of_string_eq_iff [simp]: "bytes_of_string a = bytes_of_string b \<longleftrightarrow> a = b"
  by (metis bytes_of_string_inverse)

section \<open>Errors\<close>

text \<open>
  The \<^verbatim>\<open>error\<close> values of the package. The first group are the errors of the
  standard library and of the transport below the package, of which the package looks at
  nothing but the identity; then the package's own sentinels and error type;
  \<open>Errorf\<close> is \<^verbatim>\<open>fmt.Errorf\<close> with its literal format and arguments, \<open>Wrapf\<close> the same with
  the error that \<^verbatim>\<open>%w\<close> wraps.
\<close>

datatype fmt_arg = Str string | Num int

datatype go_error =
    EOF | UnexpectedEOF | ErrIO string
  | CtxCanceled | CtxDeadlineExceeded | Err0RTTRejected
  | ErrClosedConn | ErrBadProperty | UnknownTransportError string
  | Errorf string "fmt_arg list"
  | Wrapf string "fmt_arg list" go_error

text \<open>\<^verbatim>\<open>errors.Is(err, target)\<close>: the target is somewhere on the chain of \<^verbatim>\<open>%w\<close>s.\<close>

fun errors_Is :: "go_error \<Rightarrow> go_error \<Rightarrow> bool" where
  "errors_Is (Wrapf f as e) t = (Wrapf f as e = t \<or> errors_Is e t)"
| "errors_Is e t = (e = t)"

lemma errors_Is_refl [simp]: "errors_Is e e"
  by (cases e) simp_all

text \<open>
  \<^verbatim>\<open>if e != nil && err == nil { err = e }\<close>: the first error of a loop is the one returned.
\<close>

definition first_err :: "go_error option \<Rightarrow> go_error option \<Rightarrow> go_error option" where
  "first_err err e = (if e \<noteq> None \<and> err = None then e else err)"

lemma first_err_None [simp]: "first_err err None = err"
  by (simp add: first_err_def)

lemma first_err_Some [simp]: "first_err (Some x) e = Some x"
  by (simp add: first_err_def)

lemma first_err_fresh [simp]: "first_err None e = e"
  by (simp add: first_err_def)

section \<open>Go's sets of strings\<close>

text \<open>
  A \<^verbatim>\<open>map[string]struct{}\<close> is the list of its keys, without repetition. The order of the
  list is the order in which a \<^verbatim>\<open>range\<close> would visit them; Go leaves it open, so every
  statement below holds for every order.
\<close>

type_synonym strset = "string list"

definition strset_put :: "'a \<Rightarrow> 'a list \<Rightarrow> 'a list" where
  "strset_put k ks = (if k \<in> set ks then ks else ks @ [k])"

definition strset_del :: "'a \<Rightarrow> 'a list \<Rightarrow> 'a list" where
  "strset_del k ks = removeAll k ks"

lemma set_strset_put [simp]: "set (strset_put k ks) = insert k (set ks)"
  by (auto simp: strset_put_def)

lemma set_strset_del [simp]: "set (strset_del k ks) = set ks - {k}"
  by (auto simp: strset_del_def)

lemma distinct_strset_put [simp]: "distinct ks \<Longrightarrow> distinct (strset_put k ks)"
  by (simp add: strset_put_def)

lemma distinct_strset_del [simp]: "distinct ks \<Longrightarrow> distinct (strset_del k ks)"
  by (simp add: strset_del_def distinct_removeAll)

section \<open>Lists\<close>

lemma concat_eq_Nil_set: "concat xss = [] \<longleftrightarrow> (\<forall>xs \<in> set xss. xs = [])"
  by (induction xss) auto

lemma take_append_exact [simp]: "n = length xs \<Longrightarrow> take n (xs @ ys) = xs"
  by simp

lemma drop_append_exact [simp]: "n = length xs \<Longrightarrow> drop n (xs @ ys) = ys"
  by simp

lemma distinct_map_head: "distinct (map f (x # xs)) \<Longrightarrow> y \<in> set xs \<Longrightarrow> f y \<noteq> f x"
  by (metis distinct.simps(2) image_eqI list.set_map list.simps(9))

lemma upt_split_index:
  assumes "[0..<n] = xs @ i # ys"
  shows "i = length xs"
proof -
  have "length xs < n" using arg_cong [OF assms, of length] by simp
  then have "[0..<n] ! length xs = length xs" by simp
  with assms show ?thesis by simp
qed

lemma sort_eq_of_set: "distinct xs \<Longrightarrow> sort xs = sorted_list_of_set (set xs)"
  by (simp add: sorted_list_of_set_sort_remdups distinct_remdups_id)

end
