(* ===== verification/GoRuntime.thy ===== *)
theory GoRuntime
  imports Prelude
begin

unbundle bit_operations_syntax

text \<open>
  The parts of Go and of its standard library that the package is written in: byte readers and
  \<^verbatim>\<open>io.ReadFull\<close>, big-endian integers, writers whose every write may fail, channels with
  their non-blocking operations, and the state of a context. Nothing here models a line of the
  repository; the components below are written over it.
\<close>

section \<open>Readers\<close>

text \<open>
  What an \<^verbatim>\<open>io.Reader\<close> will still deliver: the pieces in which its bytes arrive, then the
  error it reports for ever. How bytes are cut into pieces is the network's choice.
\<close>

record reader =
  chunks :: "bytes list"
  rd_end :: go_error

definition content :: "reader \<Rightarrow> bytes" where
  "content r = concat (chunks r)"

text \<open>\<^verbatim>\<open>Read(b)\<close> for a buffer of \<open>n\<close> bytes: at most one piece, and never more than fits.\<close>

definition reader_Read :: "nat \<Rightarrow> reader \<Rightarrow> bytes \<times> go_error option \<times> reader" where
  "reader_Read n r =
     (case chunks r of
        [] \<Rightarrow> ([], Some (rd_end r), r)
      | ch # rest \<Rightarrow>
          if length ch \<le> n then (ch, None, r\<lparr>chunks := rest\<rparr>)
          else (take n ch, None, r\<lparr>chunks := drop n ch # rest\<rparr>))"

text \<open>\<^verbatim>\<open>bytes.NewReader(data)\<close>.\<close>

definition bytes_NewReader :: "bytes \<Rightarrow> reader" where
  "bytes_NewReader d = \<lparr>chunks = [d], rd_end = EOF\<rparr>"

lemma content_NewReader [simp]: "content (bytes_NewReader d) = d"
  by (simp add: content_def bytes_NewReader_def)

lemma rd_end_NewReader [simp]: "rd_end (bytes_NewReader d) = EOF"
  by (simp add: bytes_NewReader_def)

text \<open>
  \<^verbatim>\<open>io.ReadFull(r, buf)\<close> for a buffer of \<open>n\<close> bytes, of which \<open>acc\<close> is filled: read until it is
  full or the reader fails; a failure after some bytes that is \<^verbatim>\<open>EOF\<close> becomes
  \<^verbatim>\<open>ErrUnexpectedEOF\<close>.
\<close>

function ReadFull_loop :: "nat \<Rightarrow> bytes \<Rightarrow> reader \<Rightarrow> bytes \<times> go_error option \<times> reader" where
  "ReadFull_loop n acc r =
     (if length acc \<ge> n then (acc, None, r)
      else case chunks r of
          [] \<Rightarrow> (acc, Some (if acc \<noteq> [] \<and> rd_end r = EOF then UnexpectedEOF else rd_end r), r)
        | ch # rest \<Rightarrow>
            (case reader_Read (n - length acc) r of (got, _, r') \<Rightarrow> ReadFull_loop n (acc @ got) r'))"
  by pat_completeness auto
termination
  by (relation "measure (\<lambda>(n, acc, r). length (chunks r) + length (content r))")
    (auto simp: reader_Read_def content_def split: if_splits)

declare ReadFull_loop.simps [simp del]

definition io_ReadFull :: "nat \<Rightarrow> reader \<Rightarrow> bytes \<times> go_error option \<times> reader" where
  "io_ReadFull n r = ReadFull_loop n [] r"

text \<open>What one \<^verbatim>\<open>Read\<close> takes off the front of the remaining bytes.\<close>

lemma reader_Read_content:
  "chunks r \<noteq> [] \<Longrightarrow> reader_Read n r = (got, e, r') \<Longrightarrow>
     content r = got @ content r' \<and> length got \<le> n \<and> e = None \<and> rd_end r' = rd_end r"
  by (auto simp: reader_Read_def content_def split: list.splits if_splits)

text \<open>\<^verbatim>\<open>ReadFull\<close> in terms of the remaining bytes only: how they arrive does not matter.\<close>

definition short_read_error :: "bytes \<Rightarrow> go_error \<Rightarrow> go_error" where
  "short_read_error got e = (if got \<noteq> [] \<and> e = EOF then UnexpectedEOF else e)"

lemma ReadFull_loop_spec:
  assumes "length acc \<le> n" and "ReadFull_loop n acc r = (got, e, r')"
  shows "(if n \<le> length acc + length (content r)
          then e = None \<and> got = acc @ take (n - length acc) (content r) \<and>
               content r' = drop (n - length acc) (content r)
          else e = Some (short_read_error (acc @ content r) (rd_end r)) \<and>
               got = acc @ content r \<and> content r' = [])
         \<and> rd_end r' = rd_end r"
  using assms
proof (induction n acc r rule: ReadFull_loop.induct)
  case (1 n acc r)
  show ?case
  proof (cases "length acc \<ge> n \<or> chunks r = []")
    case True
    with "1.prems" show ?thesis
      by (subst (asm) ReadFull_loop.simps)
        (auto simp: content_def short_read_error_def split: if_splits)
  next
    case False
    then obtain ch rest where ch: "chunks r = ch # rest" and less: "\<not> n \<le> length acc"
      by (cases "chunks r") auto
    obtain g e1 r1 where rd: "reader_Read (n - length acc) r = (g, e1, r1)"
      by (cases "reader_Read (n - length acc) r") auto
    from reader_Read_content [OF _ rd] ch
    have g: "content r = g @ content r1" "length g \<le> n - length acc" "rd_end r1 = rd_end r"
      by auto
    from "1.prems" ch less rd have loop: "ReadFull_loop n (acc @ g) r1 = (got, e, r')"
      by (subst (asm) ReadFull_loop.simps) simp
    have le: "length (acc @ g) \<le> n" using g(2) less by simp
    from "1.IH" [OF less ch rd [symmetric] refl le loop] less g(2) show ?thesis
      by (auto simp: g(1,3) split: if_splits)
  qed
qed

lemma io_ReadFull_enough:
  "n \<le> length (content r) \<Longrightarrow>
     \<exists>r'. io_ReadFull n r = (take n (content r), None, r') \<and>
          content r' = drop n (content r) \<and> rd_end r' = rd_end r"
  using ReadFull_loop_spec [of "[]" n r]
  by (cases "io_ReadFull n r") (auto simp: io_ReadFull_def)

lemma io_ReadFull_short:
  "length (content r) < n \<Longrightarrow>
     \<exists>r'. io_ReadFull n r = (content r, Some (short_read_error (content r) (rd_end r)), r') \<and>
          content r' = [] \<and> rd_end r' = rd_end r"
  using ReadFull_loop_spec [of "[]" n r]
  by (cases "io_ReadFull n r") (auto simp: io_ReadFull_def)

lemma io_ReadFull_None:
  "io_ReadFull n r = (got, None, r') \<Longrightarrow>
     content r = got @ content r' \<and> length got = n \<and> rd_end r' = rd_end r"
  using ReadFull_loop_spec [of "[]" n r got None r']
  by (auto simp: io_ReadFull_def split: if_splits)

lemma io_ReadFull_shrinks:
  "(got, None, r') = io_ReadFull n r \<Longrightarrow> length (content r) = n + length (content r')"
  by (drule sym, drule io_ReadFull_None) simp

lemma io_ReadFull_Some:
  "io_ReadFull n r = (got, Some e, r') \<Longrightarrow>
     length (content r) < n \<and> e = short_read_error (content r) (rd_end r) \<and> content r' = []"
  using ReadFull_loop_spec [of "[]" n r got "Some e" r']
  by (auto simp: io_ReadFull_def split: if_splits)

section \<open>Big-endian integers\<close>

text \<open>\<^verbatim>\<open>binary.BigEndian.PutUint32\<close> and \<^verbatim>\<open>binary.BigEndian.Uint32\<close>, on four-byte slices.\<close>

definition PutUint32 :: "32 word \<Rightarrow> bytes" where
  "PutUint32 v = [ucast (drop_bit 24 v), ucast (drop_bit 16 v), ucast (drop_bit 8 v), ucast v]"

definition Uint32 :: "bytes \<Rightarrow> 32 word" where
  "Uint32 b = ucast (b ! 3) OR push_bit 8 (ucast (b ! 2)) OR push_bit 16 (ucast (b ! 1))
              OR push_bit 24 (ucast (b ! 0))"

lemma length_PutUint32 [simp]: "length (PutUint32 v) = 4"
  by (simp add: PutUint32_def)

lemma Uint32_PutUint32 [simp]: "Uint32 (PutUint32 v) = v"
proof (rule bit_word_eqI)
  fix n :: nat
  assume "n < LENGTH(32)"
  then have "n < 8 \<or> 8 \<le> n \<and> n < 16 \<or> 16 \<le> n \<and> n < 24 \<or> 24 \<le> n \<and> n < 32"
    by auto
  then show "bit (Uint32 (PutUint32 v)) n = bit v n"
    by (elim disjE conjE) (auto simp: Uint32_def PutUint32_def bit_simps)
qed

section \<open>Writers\<close>

text \<open>
  Each call of \<^verbatim>\<open>Write(p)\<close> either takes all of \<open>p\<close>, or takes a first part of it and fails.
  Which it is, is the peer's and the network's choice: a script of outcomes, one per call; past
  the end of the script writes succeed.
\<close>

datatype wr_outcome = WOk | WFail nat go_error

record writer =
  wr_script :: "wr_outcome list"
  written :: bytes

definition writer_Write :: "bytes \<Rightarrow> writer \<Rightarrow> go_error option \<times> writer" where
  "writer_Write p w =
     (case wr_script w of
        [] \<Rightarrow> (None, w\<lparr>written := written w @ p\<rparr>)
      | WOk # s \<Rightarrow> (None, w\<lparr>wr_script := s, written := written w @ p\<rparr>)
      | WFail n e # s \<Rightarrow> (Some e, w\<lparr>wr_script := s, written := written w @ take n p\<rparr>))"

text \<open>A writer none of whose pending outcomes is a failure.\<close>

definition healthy :: "writer \<Rightarrow> bool" where
  "healthy w = list_all (\<lambda>o1. o1 = WOk) (wr_script w)"

lemma writer_Write_healthy:
  "healthy w \<Longrightarrow> \<exists>w'. writer_Write p w = (None, w') \<and> healthy w' \<and> written w' = written w @ p"
  by (cases "wr_script w") (auto simp: writer_Write_def healthy_def)

lemma writer_Write_prefix: "writer_Write p w = (e, w') \<Longrightarrow> \<exists>n. written w' = written w @ take n p"
  by (auto simp: writer_Write_def intro: exI [of _ "length p"]
      split: list.splits wr_outcome.splits)

lemma writer_Write_ok:
  "writer_Write p w = (None, w') \<Longrightarrow> written w' = written w @ p"
  by (auto simp: writer_Write_def split: list.splits wr_outcome.splits)

section \<open>Channels\<close>

text \<open>A buffered channel: what is queued, its capacity, and whether it is closed.\<close>

record 'a chan =
  buf :: "'a list"
  cap :: nat
  chan_closed :: bool

definition make_chan :: "nat \<Rightarrow> 'a chan" where
  "make_chan n = \<lparr>buf = [], cap = n, chan_closed = False\<rparr>"

text \<open>
  A send is ready when there is room; on a closed channel it panics. A receive is ready when
  something is queued, or when the channel is closed (then it yields no value).
\<close>

datatype 'a send_result = Sent "'a chan" | SendBlocks | SendPanics
datatype 'a recv_result = Received 'a "'a chan" | ChanClosed | RecvBlocks

definition chan_send :: "'a \<Rightarrow> 'a chan \<Rightarrow> 'a send_result" where
  "chan_send x c =
     (if chan_closed c then SendPanics
      else if length (buf c) < cap c then Sent (c\<lparr>buf := buf c @ [x]\<rparr>)
      else SendBlocks)"

definition chan_recv :: "'a chan \<Rightarrow> 'a recv_result" where
  "chan_recv c =
     (case buf c of x # xs \<Rightarrow> Received x (c\<lparr>buf := xs\<rparr>)
      | [] \<Rightarrow> if chan_closed c then ChanClosed else RecvBlocks)"

definition chan_close :: "'a chan \<Rightarrow> 'a chan" where
  "chan_close c = c\<lparr>chan_closed := True\<rparr>"

text \<open>The capacity is never exceeded.\<close>

definition chan_ok :: "'a chan \<Rightarrow> bool" where
  "chan_ok c = (length (buf c) \<le> cap c)"

lemma chan_ok_make [simp]: "chan_ok (make_chan n)"
  by (simp add: chan_ok_def make_chan_def)

lemma chan_ok_send: "chan_send x c = Sent c' \<Longrightarrow> chan_ok c'"
  by (auto simp: chan_send_def chan_ok_def split: if_splits)

lemma chan_ok_recv: "chan_ok c \<Longrightarrow> chan_recv c = Received x c' \<Longrightarrow> chan_ok c'"
  by (auto simp: chan_recv_def chan_ok_def split: list.splits if_splits)

lemma chan_send_buf: "chan_send x c = Sent c' \<Longrightarrow> buf c' = buf c @ [x] \<and> cap c' = cap c"
  by (auto simp: chan_send_def split: if_splits)

lemma chan_recv_buf: "chan_recv c = Received x c' \<Longrightarrow> buf c = x # buf c' \<and> cap c' = cap c"
  by (auto simp: chan_recv_def split: list.splits if_splits)

section \<open>Calls that may wait\<close>

text \<open>
  What a call that may wait does: it waits, it returns a result, or it panics. A \<^verbatim>\<open>select\<close> has
  the outcomes of the cases that are ready; where there are several, Go chooses, here by \<open>pick\<close>.
\<close>

datatype 'a blocking = Waits | Returns 'a | Panics

fun is_ready :: "'a blocking \<Rightarrow> bool" where
  "is_ready Waits = False"
| "is_ready (Returns x) = True"
| "is_ready Panics = True"

lemma is_ready_iff [simp]: "is_ready c \<longleftrightarrow> c \<noteq> Waits"
  by (cases c) auto

definition go_select :: "nat \<Rightarrow> 'a blocking list \<Rightarrow> 'a blocking" where
  "go_select pick cases =
     (let ready = filter is_ready cases in
      if ready = [] then Waits else ready ! (pick mod length ready))"

lemma go_select_Returns:
  "go_select pick cases = Returns x \<Longrightarrow> Returns x \<in> set cases"
proof -
  assume a: "go_select pick cases = Returns x"
  let ?r = "filter is_ready cases"
  from a have "?r \<noteq> []" and eq: "?r ! (pick mod length ?r) = Returns x"
    by (auto simp: go_select_def Let_def split: if_splits)
  then have "?r ! (pick mod length ?r) \<in> set ?r" by (intro nth_mem) simp
  with eq show ?thesis by auto
qed

lemma go_select_single [simp]: "c \<noteq> Waits \<Longrightarrow> go_select pick [c, Waits] = c"
  "c \<noteq> Waits \<Longrightarrow> go_select pick [Waits, c] = c"
  "go_select pick [Waits, Waits] = Waits"
  by (simp_all add: go_select_def)

lemma go_select_two:
  "go_select pick [a, b] = (if a = Waits then b else if b = Waits then a else if even pick then a else b)"
  by (cases a; cases b) (auto simp: go_select_def Let_def numeral_2_eq_2 [symmetric] even_iff_mod_2_eq_zero
      odd_iff_mod_2_eq_one)

section \<open>Contexts\<close>

text \<open>
  Of a \<^verbatim>\<open>context.Context\<close> the code asks whether it is done, and with which error:
  \<open>None\<close> while it is live. Values that contexts carry are modelled with the transport.
\<close>

type_synonym ctx = "go_error option"

text \<open>The case \<^verbatim>\<open><-ctx.Done()\<close> of a \<^verbatim>\<open>select\<close>, with what the code does there.\<close>

definition case_done :: "ctx \<Rightarrow> (go_error \<Rightarrow> 'a) \<Rightarrow> 'a blocking" where
  "case_done c f = (case c of None \<Rightarrow> Waits | Some e \<Rightarrow> Returns (f e))"

lemma case_done_simps [simp]: "case_done None f = Waits" "case_done (Some e) f = Returns (f e)"
  by (simp_all add: case_done_def)

text \<open>The case \<^verbatim>\<open>x := <-ch\<close>, where the code never closes the channel.\<close>

definition case_recv :: "'b chan \<Rightarrow> ('b \<Rightarrow> 'b chan \<Rightarrow> 'a) \<Rightarrow> 'a blocking" where
  "case_recv ch f =
     (case chan_recv ch of Received x ch' \<Rightarrow> Returns (f x ch') | _ \<Rightarrow> Waits)"

end
