(* ===== verification/Message.thy ===== *)
theory Message
  imports GoRuntime
begin

text \<open>
  \<^verbatim>\<open>quicmq.go\<close>: the socket types and which of them may talk to each other, and messages of
  several frames with their constructors and accessors.
\<close>

section \<open>Socket types\<close>

type_synonym socket_type = string

definition Pub :: socket_type where "Pub = ''PUB''"
definition Sub :: socket_type where "Sub = ''SUB''"
definition XPub :: socket_type where "XPub = ''XPUB''"
definition XSub :: socket_type where "XSub = ''XSUB''"
definition Req :: socket_type where "Req = ''REQ''"
definition Rep :: socket_type where "Rep = ''REP''"
definition DatagramPub :: socket_type where "DatagramPub = ''DPUB''"
definition DatagramSub :: socket_type where "DatagramSub = ''DSUB''"

lemmas socket_type_defs =
  Pub_def Sub_def XPub_def XSub_def Req_def Rep_def DatagramPub_def DatagramSub_def

definition IsCompatible :: "socket_type \<Rightarrow> socket_type \<Rightarrow> bool" where
  "IsCompatible sck peer =
     (if sck = Pub then peer = Sub \<or> peer = XSub
      else if sck = Sub then peer = Pub \<or> peer = XPub
      else if sck = XPub then peer = Sub \<or> peer = XSub
      else if sck = XSub then peer = Pub \<or> peer = XPub
      else if sck = Req then peer = Rep
      else if sck = Rep then peer = Req
      else if sck = DatagramPub then peer = DatagramSub
      else if sck = DatagramSub then peer = DatagramPub
      else False)"

section \<open>Messages\<close>

record msg =
  Frames :: "bytes list"
  multipart :: bool
  msg_err :: "go_error option"

text \<open>The zero value \<^verbatim>\<open>Msg{}\<close>.\<close>

definition empty_msg :: msg where
  "empty_msg = \<lparr>Frames = [], multipart = False, msg_err = None\<rparr>"

definition NewMsg :: "bytes \<Rightarrow> msg" where
  "NewMsg frame = empty_msg\<lparr>Frames := [frame]\<rparr>"

definition NewMsgFrom :: "bytes list \<Rightarrow> msg" where
  "NewMsgFrom frames = empty_msg\<lparr>Frames := frames\<rparr>"

definition NewMsgString :: "string \<Rightarrow> msg" where
  "NewMsgString frame = NewMsg (bytes_of_string frame)"

text \<open>
  \<^verbatim>\<open>NewMsgFromString\<close> makes a slice of nil frames and appends each string to its own frame.
\<close>

fun NewMsgFromString_loop :: "nat \<Rightarrow> string list \<Rightarrow> bytes list \<Rightarrow> bytes list" where
  "NewMsgFromString_loop i [] fs = fs"
| "NewMsgFromString_loop i (frame # rest) fs =
     NewMsgFromString_loop (Suc i) rest (fs[i := fs ! i @ bytes_of_string frame])"

definition NewMsgFromString :: "string list \<Rightarrow> msg" where
  "NewMsgFromString frames =
     empty_msg\<lparr>Frames := NewMsgFromString_loop 0 frames (replicate (length frames) [])\<rparr>"

definition Err :: "msg \<Rightarrow> go_error option" where
  "Err m = msg_err m"

text \<open>\<^verbatim>\<open>size\<close> and \<^verbatim>\<open>Bytes\<close>: one loop over the frames each.\<close>

definition msg_size :: "msg \<Rightarrow> nat" where
  "msg_size m = foldl (\<lambda>n frame. n + length frame) 0 (Frames m)"

definition Bytes :: "msg \<Rightarrow> bytes" where
  "Bytes m = foldl (\<lambda>b frame. b @ frame) [] (Frames m)"

text \<open>
  \<^verbatim>\<open>Clone\<close> makes a slice of nil frames and fills each with a copy; the other fields are those
  of the zero value.
\<close>

fun Clone_loop :: "nat \<Rightarrow> bytes list \<Rightarrow> bytes list \<Rightarrow> bytes list" where
  "Clone_loop i [] o1 = o1"
| "Clone_loop i (frame # rest) o1 = Clone_loop (Suc i) rest (o1[i := frame])"

definition Clone :: "msg \<Rightarrow> msg" where
  "Clone m = empty_msg\<lparr>Frames := Clone_loop 0 (Frames m) (replicate (length (Frames m)) [])\<rparr>"

section \<open>Lemmas\<close>

lemma empty_msg_simps [simp]:
  "Frames empty_msg = []" "multipart empty_msg = False" "msg_err empty_msg = None"
  by (simp_all add: empty_msg_def)

lemma NewMsg_simps [simp]:
  "Frames (NewMsg f) = [f]" "msg_err (NewMsg f) = None" "multipart (NewMsg f) = False"
  by (simp_all add: NewMsg_def)

lemma NewMsgFrom_simps [simp]:
  "Frames (NewMsgFrom fs) = fs" "msg_err (NewMsgFrom fs) = None" "multipart (NewMsgFrom fs) = False"
  by (simp_all add: NewMsgFrom_def)

lemma foldl_add_length: "foldl (\<lambda>n frame. n + length frame) k fs = k + length (concat fs)"
  by (induction fs arbitrary: k) auto

lemma foldl_append: "foldl (\<lambda>b frame. b @ frame) k fs = k @ concat fs"
  by (induction fs arbitrary: k) auto

lemma Bytes_concat: "Bytes m = concat (Frames m)"
  by (simp add: Bytes_def foldl_append)

lemma msg_size_concat: "msg_size m = length (concat (Frames m))"
  by (simp add: msg_size_def foldl_add_length)

text \<open>Filling a slice by index from the left is mapping over the source.\<close>

lemma list_update_at_length:
  "(xs @ y # ys)[length xs := z] = xs @ z # ys"
  by (induction xs) auto

lemma NewMsgFromString_loop_map:
  "NewMsgFromString_loop (length done) frames (done @ replicate (length frames) []) =
     done @ map bytes_of_string frames"
proof (induction frames arbitrary: "done")
  case Nil
  then show ?case by simp
next
  case (Cons f fs)
  from Cons [of "done @ [bytes_of_string f]"] show ?case
    by (simp add: list_update_at_length nth_append)
qed

lemma Clone_loop_copy:
  "Clone_loop (length done) fs (done @ replicate (length fs) []) = done @ fs"
proof (induction fs arbitrary: "done")
  case Nil
  then show ?case by simp
next
  case (Cons f fs)
  from Cons [of "done @ [f]"] show ?case
    by (simp add: list_update_at_length)
qed

lemma Frames_NewMsgFromString [simp]: "Frames (NewMsgFromString ss) = map bytes_of_string ss"
  using NewMsgFromString_loop_map [of "[]" ss] by (simp add: NewMsgFromString_def)

lemma Frames_Clone [simp]: "Frames (Clone m) = Frames m"
  using Clone_loop_copy [of "[]" "Frames m"] by (simp add: Clone_def)

lemma Clone_zero [simp]: "msg_err (Clone m) = None" "multipart (Clone m) = False"
  by (simp_all add: Clone_def)

end
