(* ===== verification/GoStrings.thy ===== *)
theory GoStrings
  imports GoRuntime
begin

text \<open>
  The parts of Go's standard library on strings and numbers that the programs around the
  package use: \<^verbatim>\<open>fmt.Sprintf("%d")\<close>, \<^verbatim>\<open>strconv.ParseInt\<close> and \<^verbatim>\<open>Atoi\<close>, \<^verbatim>\<open>strings.SplitN\<close> with a separator
  of one character, and the \<^verbatim>\<open>copy\<close> of slices.
\<close>

section \<open>Decimal numbers\<close>

definition digit :: "nat \<Rightarrow> char" where
  "digit d = char_of (48 + d)"

definition is_digit :: "char \<Rightarrow> bool" where
  "is_digit c = (48 \<le> (of_char c :: nat) \<and> (of_char c :: nat) \<le> 57)"

definition digit_value :: "char \<Rightarrow> nat" where
  "digit_value c = of_char c - 48"

fun decimal :: "nat \<Rightarrow> string" where
  "decimal n = (if n < 10 then [digit n] else decimal (n div 10) @ [digit (n mod 10)])"

declare decimal.simps [simp del]

definition Sprint_d :: "int \<Rightarrow> string" where
  "Sprint_d i = (if i < 0 then CHR ''-'' # decimal (nat (- i)) else decimal (nat i))"

text \<open>
  \<^verbatim>\<open>strconv.ParseInt(s, 10, 64)\<close>: an optional sign, then digits; the loop fails at the first
  character that is none, and as soon as the number does not fit 64 bits. With a range error
  the value is the bound.
\<close>

fun parse_digits :: "nat \<Rightarrow> string \<Rightarrow> bool + nat" where
  "parse_digits acc [] = Inr acc"
| "parse_digits acc (c # cs) =
     (if \<not> is_digit c then Inl False
      else let n = 10 * acc + digit_value c in if 2 ^ 64 \<le> n then Inl True else parse_digits n cs)"

definition ErrSyntax :: go_error where "ErrSyntax = ErrIO ''invalid syntax''"
definition ErrRange :: go_error where "ErrRange = ErrIO ''value out of range''"

definition parse_magnitude :: "bool \<Rightarrow> string \<Rightarrow> int \<times> go_error option" where
  "parse_magnitude neg ds =
     (if ds = [] then (0, Some ErrSyntax)
      else case parse_digits 0 ds of
          Inl False \<Rightarrow> (0, Some ErrSyntax)
        | Inl True \<Rightarrow> (if neg then - (2 ^ 63) else 2 ^ 63 - 1, Some ErrRange)
        | Inr n \<Rightarrow>
            if \<not> neg \<and> 2 ^ 63 \<le> n then (2 ^ 63 - 1, Some ErrRange)
            else if neg \<and> 2 ^ 63 < n then (- (2 ^ 63), Some ErrRange)
            else (if neg then - int n else int n, None))"

definition ParseInt :: "string \<Rightarrow> int \<times> go_error option" where
  "ParseInt s =
     (case s of
        [] \<Rightarrow> (0, Some ErrSyntax)
      | c # cs \<Rightarrow>
          if c = CHR ''+'' then parse_magnitude False cs
          else if c = CHR ''-'' then parse_magnitude True cs
          else parse_magnitude False s)"

definition Atoi :: "string \<Rightarrow> int \<times> go_error option" where
  "Atoi s = ParseInt s"

lemma is_digit_digit [simp]: "d < 10 \<Longrightarrow> is_digit (digit d)"
  by (simp add: is_digit_def digit_def)

lemma digit_value_digit [simp]: "d < 10 \<Longrightarrow> digit_value (digit d) = d"
  by (simp add: digit_value_def digit_def)

lemma decimal_nonempty [simp]: "decimal n \<noteq> []"
  by (subst decimal.simps) simp

lemma decimal_digits: "c \<in> set (decimal n) \<Longrightarrow> is_digit c"
  by (induction n rule: decimal.induct) (subst (asm) (2) decimal.simps, auto split: if_splits)

lemma parse_digits_append:
  "parse_digits acc (ds @ es) = (case parse_digits acc ds of Inl e \<Rightarrow> Inl e | Inr n \<Rightarrow> parse_digits n es)"
  by (induction acc ds rule: parse_digits.induct) (auto simp: Let_def)

lemma parse_decimal: "n < 2 ^ 64 \<Longrightarrow> parse_digits 0 (decimal n) = Inr n"
proof (induction n rule: decimal.induct)
  case (1 n)
  have low: "parse_digits 0 (decimal n) = Inr n" if "n < 10"
    using that by (subst decimal.simps) (simp add: Let_def)
  have high: "parse_digits 0 (decimal n) = Inr n" if "\<not> n < 10"
  proof -
    from that 1 have "parse_digits 0 (decimal (n div 10)) = Inr (n div 10)" by simp
    with that 1(2) show ?thesis
      by (subst decimal.simps) (simp add: parse_digits_append Let_def)
  qed
  from low high show ?case by blast
qed

lemma parse_bad_digit: "\<not> is_digit c \<Longrightarrow> \<exists>e. parse_digits acc (ds @ c # es) = Inl e"
  by (induction acc ds rule: parse_digits.induct) (auto simp: Let_def)

lemma digit_no_sign: "is_digit c \<Longrightarrow> c \<noteq> CHR ''+'' \<and> c \<noteq> CHR ''-''"
  by (auto simp: is_digit_def)

lemma hd_decimal: "is_digit (hd (decimal n))"
  using decimal_digits [of "hd (decimal n)" n] by simp

lemma ParseInt_decimal:
  assumes "n < 2 ^ 63"
  shows "ParseInt (decimal n) = (int n, None)"
proof -
  obtain c cs where d: "decimal n = c # cs" by (cases "decimal n") auto
  with hd_decimal [of n] digit_no_sign [of c] have "c \<noteq> CHR ''+''" "c \<noteq> CHR ''-''" by auto
  with d have "ParseInt (decimal n) = parse_magnitude False (decimal n)" by (simp add: ParseInt_def)
  with assms parse_decimal [of n] show ?thesis by (simp add: parse_magnitude_def)
qed

lemma ParseInt_bad:
  assumes "\<not> is_digit c"
  shows "snd (ParseInt (d # ds @ c # es)) \<noteq> None"
proof -
  obtain e where "parse_digits 0 (ds @ c # es) = Inl e" using parse_bad_digit [OF assms] by blast
  moreover obtain e2 where "parse_digits 0 ((d # ds) @ c # es) = Inl e2" using parse_bad_digit [OF assms] by blast
  ultimately show ?thesis
    by (cases e; cases e2) (simp_all add: ParseInt_def parse_magnitude_def)
qed

lemma ParseInt_bad_last:
  assumes "s = [] \<or> \<not> is_digit (last s)"
  shows "snd (ParseInt s) \<noteq> None"
proof (cases s)
  case Nil
  then show ?thesis by (simp add: ParseInt_def)
next
  case (Cons c cs)
  show ?thesis
  proof (cases "cs = []")
    case True
    with Cons assms show ?thesis by (simp add: ParseInt_def parse_magnitude_def)
  next
    case False
    with Cons assms have "s = c # butlast cs @ last cs # []" "\<not> is_digit (last cs)" by auto
    with ParseInt_bad [of "last cs" c "butlast cs" "[]"] show ?thesis by simp
  qed
qed

lemma Sprint_d_digits: "0 \<le> i \<Longrightarrow> c \<in> set (Sprint_d i) \<Longrightarrow> is_digit c"
  by (simp add: Sprint_d_def decimal_digits)

lemma ParseInt_Sprint_d: "0 \<le> i \<Longrightarrow> i < 2 ^ 63 \<Longrightarrow> ParseInt (Sprint_d i) = (i, None)"
  by (simp add: Sprint_d_def ParseInt_decimal nat_less_iff)

lemma length_decimal: "n < 10 ^ k \<Longrightarrow> 0 < k \<Longrightarrow> length (decimal n) \<le> k"
proof (induction n arbitrary: k rule: decimal.induct)
  case (1 n)
  have low: "length (decimal n) \<le> k" if "n < 10"
    using that 1(3) by (subst decimal.simps) simp
  have high: "length (decimal n) \<le> k" if big: "\<not> n < 10"
  proof -
    from big 1(2,3) obtain j where k: "k = Suc j" "0 < j"
      by (cases k; cases "k - 1") auto
    with 1(2) have "n div 10 < 10 ^ j" by (simp add: div_less_iff_less_mult mult.commute)
    from 1(1) [OF big this k(2)] big k(1) show ?thesis by (subst decimal.simps) simp
  qed
  from low high show ?case by blast
qed

lemma length_Sprint_d:
  assumes "- (2 ^ 63) \<le> i" and "i < 2 ^ 63"
  shows "length (Sprint_d i) \<le> 20"
proof -
  have "nat \<bar>i\<bar> < 10 ^ 19" using assms by auto
  from length_decimal [OF this] show ?thesis by (auto simp: Sprint_d_def)
qed

section \<open>Splitting\<close>

text \<open>
  \<^verbatim>\<open>strings.SplitN(s, sep, n)\<close> for a separator of one character and \<open>n\<close> positive: at most \<open>n\<close>
  pieces, the last of which is not split.
\<close>

fun cut_at :: "char \<Rightarrow> string \<Rightarrow> (string \<times> string) option" where
  "cut_at sep [] = None"
| "cut_at sep (c # cs) =
     (if c = sep then Some ([], cs) else map_option (\<lambda>(a, b). (c # a, b)) (cut_at sep cs))"

fun SplitN :: "nat \<Rightarrow> char \<Rightarrow> string \<Rightarrow> string list" where
  "SplitN n sep s =
     (if n \<le> 1 then [s]
      else case cut_at sep s of None \<Rightarrow> [s] | Some (a, b) \<Rightarrow> a # SplitN (n - 1) sep b)"

declare SplitN.simps [simp del]

lemma cut_at_append: "sep \<notin> set a \<Longrightarrow> cut_at sep (a @ sep # b) = Some (a, b)"
  by (induction a) auto

lemma cut_at_Some: "cut_at sep s = Some (a, b) \<Longrightarrow> s = a @ sep # b \<and> sep \<notin> set a"
  by (induction s arbitrary: a) (auto split: if_splits)

lemma SplitN_three:
  "sep \<notin> set a \<Longrightarrow> sep \<notin> set b \<Longrightarrow> SplitN 3 sep (a @ sep # b @ sep # c) = [a, b, c]"
  by (simp add: SplitN.simps cut_at_append)

lemma SplitN_suffix: "suffix (last (SplitN n sep s)) s \<and> SplitN n sep s \<noteq> []"
proof (induction n sep s rule: SplitN.induct)
  case (1 n sep s)
  show ?case
  proof (cases "n \<le> 1 \<or> cut_at sep s = None")
    case True
    then show ?thesis by (subst SplitN.simps, subst SplitN.simps) auto
  next
    case False
    then obtain a b where c: "cut_at sep s = Some (a, b)" by auto
    from cut_at_Some [OF c] have "suffix b s" by (auto simp: suffix_def)
    with 1 [of "(a, b)" a b] False c show ?thesis
      by (subst SplitN.simps, subst SplitN.simps) (auto dest: suffix_order.trans)
  qed
qed

section \<open>Slices\<close>

text \<open>\<^verbatim>\<open>copy(dst, src)\<close>: the number of bytes copied, and the destination.\<close>

definition go_copy :: "bytes \<Rightarrow> bytes \<Rightarrow> nat \<times> bytes" where
  "go_copy dst src =
     (let n = min (length dst) (length src) in (n, take n src @ drop n dst))"

text \<open>A 64-bit integer wraps around.\<close>

definition wrap64 :: "int \<Rightarrow> int" where
  "wrap64 i = signed_take_bit 63 i"

lemma wrap64_small: "- (2 ^ 63) \<le> i \<Longrightarrow> i < 2 ^ 63 \<Longrightarrow> wrap64 i = i"
  by (simp add: wrap64_def signed_take_bit_int_eq_self)

end
