(* ===== verification/Scenarios.thy ===== *)
theory Scenarios
  imports Message GoStrings "HOL-Library.Multiset"
begin

text \<open>
  The measuring programs under \<^verbatim>\<open>benchmarks/scenarios/cmd\<close>: what \<^verbatim>\<open>pub\<close> and \<^verbatim>\<open>dpub\<close> put into a message,
  what \<^verbatim>\<open>sub\<close> and \<^verbatim>\<open>dsub\<close> compute from what they receive, the counters of \<^verbatim>\<open>req\<close> and \<^verbatim>\<open>rep\<close>, and the
  percentiles. A loop that runs until its deadline is a function of the list of its rounds:
  what the clock said and what the calls of the library returned in each.
\<close>

section \<open>Settings\<close>

text \<open>\<^verbatim>\<open>env(key, def)\<close>: the value of a variable unless it is empty or not set.\<close>

definition env_or :: "(string \<Rightarrow> string option) \<Rightarrow> string \<Rightarrow> string \<Rightarrow> string" where
  "env_or getenv key def =
     (let v = (case getenv key of None \<Rightarrow> [] | Some v \<Rightarrow> v) in if v \<noteq> [] then v else def)"

text \<open>\<^verbatim>\<open>strconv.Atoi\<close> with the error dropped, as all the programs call it.\<close>

definition env_int :: "(string \<Rightarrow> string option) \<Rightarrow> string \<Rightarrow> string \<Rightarrow> int" where
  "env_int getenv key def = fst (Atoi (env_or getenv key def))"

definition clamp_payload :: "int \<Rightarrow> int" where
  "clamp_payload msgSize = (if msgSize > 1200 then 1200 else msgSize)"

text \<open>
  \<^verbatim>\<open>time.Second / time.Duration(msgRate)\<close> and \<^verbatim>\<open>time.NewTicker\<close>: the division panics for 0, the
  ticker for an interval that is not positive. Go's division truncates towards 0.
\<close>

definition ticker_interval :: "int \<Rightarrow> int option" where
  "ticker_interval msgRate =
     (if msgRate = 0 then None
      else let interval = (if msgRate < 0 then - (1000000000 div (- msgRate)) else 1000000000 div msgRate) in
           if interval \<le> 0 then None else Some interval)"

section \<open>Publishing\<close>

definition max_int :: "int \<Rightarrow> int \<Rightarrow> int" where
  "max_int a b = (if a > b then a else b)"

lemma max_int_max [simp]: "max_int a b = max a b"
  by (simp add: max_int_def)

definition pub_padding_size :: "int \<Rightarrow> nat" where
  "pub_padding_size msgSize = nat (max_int 0 (msgSize - 64))"

definition pub_header :: "string \<Rightarrow> int \<Rightarrow> int \<Rightarrow> string" where
  "pub_header topic seq now = topic @ ''|'' @ Sprint_d seq @ ''|'' @ Sprint_d now"

text \<open>The frame of a message; \<^verbatim>\<open>make\<close> panics for a negative size.\<close>

definition pub_frame :: "string \<Rightarrow> int \<Rightarrow> bytes \<Rightarrow> int \<Rightarrow> int \<Rightarrow> bytes option" where
  "pub_frame topic msgSize padding seq now =
     (if msgSize < 0 then None
      else case go_copy (replicate (nat msgSize) 0) (bytes_of_string (pub_header topic seq now)) of
          (n, frame) \<Rightarrow> Some (take n frame @ snd (go_copy (drop n frame) padding)))"

record pub_stats =
  pst_seq :: int
  pst_sent :: int
  pst_errs :: int

datatype pub_turn = Tick int "go_error option" | PubCtxDone

fun pub_turns ::
    "string \<Rightarrow> int \<Rightarrow> bytes \<Rightarrow> pub_turn list \<Rightarrow> pub_stats \<Rightarrow> (msg list \<times> pub_stats) option" where
  "pub_turns topic msgSize padding [] s = Some ([], s)"
| "pub_turns topic msgSize padding (PubCtxDone # rest) s = Some ([], s)"
| "pub_turns topic msgSize padding (Tick now err # rest) s =
     (let s1 = s\<lparr>pst_seq := wrap64 (pst_seq s + 1)\<rparr> in
      case pub_frame topic msgSize padding (pst_seq s1) now of
        None \<Rightarrow> None
      | Some frame \<Rightarrow>
          map_option (\<lambda>(ms, s2). (NewMsg frame # ms, s2))
            (pub_turns topic msgSize padding rest
               (if err \<noteq> None then s1\<lparr>pst_errs := wrap64 (pst_errs s1 + 1)\<rparr>
                else s1\<lparr>pst_sent := wrap64 (pst_sent s1 + 1)\<rparr>)))"

section \<open>Subscribing\<close>

record sub_stats =
  received :: int
  latenciesNs :: "int list"
  seqGaps :: int
  lastSeq :: int

definition sub_start :: sub_stats where
  "sub_start = \<lparr>received = 0, latenciesNs = [], seqGaps = 0, lastSeq = -1\<rparr>"

definition sub_record :: "int \<Rightarrow> int \<Rightarrow> int \<Rightarrow> sub_stats \<Rightarrow> sub_stats" where
  "sub_record recvNs seq sendNs s =
     (let latNs = wrap64 (recvNs - sendNs);
          s1 = (if latNs > 0 \<and> latNs < 30 * 1000000000
                then s\<lparr>latenciesNs := latenciesNs s @ [latNs]\<rparr> else s);
          s2 = (if lastSeq s1 \<ge> 0 \<and> seq > wrap64 (lastSeq s1 + 1)
                then s1\<lparr>seqGaps := wrap64 (seqGaps s1 + wrap64 (seq - wrap64 (lastSeq s1 + 1)))\<rparr> else s1) in
      s2\<lparr>lastSeq := seq\<rparr>)"

definition sub_message :: "msg \<Rightarrow> int \<Rightarrow> sub_stats \<Rightarrow> sub_stats" where
  "sub_message m recvNs s =
     (let s1 = s\<lparr>received := wrap64 (received s + 1)\<rparr> in
      if length (Frames m) > 0
      then let header = SplitN 3 (CHR ''|'') (string_of_bytes (Frames m ! 0)) in
           if length header = 3
           then case (ParseInt (header ! 1), ParseInt (header ! 2)) of
               ((seq, errSeq), (sendNs, errTs)) \<Rightarrow>
                 if errSeq = None \<and> errTs = None then sub_record recvNs seq sendNs s1 else s1
           else s1
      else s1)"

text \<open>The rounds: what \<^verbatim>\<open>Recv\<close> returned, and the clock after it.\<close>

fun sub_turns :: "((msg \<times> go_error option) \<times> int) list \<Rightarrow> sub_stats \<Rightarrow> sub_stats" where
  "sub_turns [] s = s"
| "sub_turns (((m, err), recvNs) # rest) s =
     (if err \<noteq> None then sub_turns rest s else sub_turns rest (sub_message m recvNs s))"

section \<open>Requests and replies\<close>

text \<open>A round of a worker of \<^verbatim>\<open>req\<close>: the errors of \<^verbatim>\<open>Send\<close> and \<^verbatim>\<open>Recv\<close>, and the clock before and after.\<close>

fun req_turns ::
    "(go_error option \<times> go_error option \<times> int \<times> int) list \<Rightarrow> int \<times> int \<times> int list \<Rightarrow> int \<times> int \<times> int list" where
  "req_turns [] s = s"
| "req_turns ((sendErr, recvErr, sendNs, nowNs) # rest) (reqs, errors, lats) =
     (if sendErr \<noteq> None then req_turns rest (reqs, wrap64 (errors + 1), lats)
      else if recvErr \<noteq> None then req_turns rest (reqs, wrap64 (errors + 1), lats)
      else req_turns rest (wrap64 (reqs + 1), errors, lats @ [wrap64 (nowNs - sendNs)]))"

text \<open>The workers add their results under a lock, in the order in which they end.\<close>

fun req_totals :: "(int \<times> int \<times> int list) list \<Rightarrow> int \<times> int \<times> int list \<Rightarrow> int \<times> int \<times> int list" where
  "req_totals [] t = t"
| "req_totals ((reqs, errors, lats) # rest) (totalReqs, totalErrors, latencies) =
     req_totals rest (wrap64 (totalReqs + reqs), wrap64 (totalErrors + errors), latencies @ lats)"

text \<open>A round of \<^verbatim>\<open>rep\<close>: what \<^verbatim>\<open>Recv\<close> returned and the error of \<^verbatim>\<open>Send\<close>.\<close>

fun rep_turns :: "((msg \<times> go_error option) \<times> go_error option) list \<Rightarrow> int \<times> int \<Rightarrow> int \<times> int" where
  "rep_turns [] s = s"
| "rep_turns (((m, err), sendErr) # rest) (handled, errs) =
     (if err \<noteq> None then rep_turns rest (handled, errs)
      else if sendErr \<noteq> None then rep_turns rest (handled, wrap64 (errs + 1))
      else rep_turns rest (wrap64 (handled + 1), errs))"

section \<open>Percentiles\<close>

text \<open>
  \<^verbatim>\<open>pct\<close>. The index is computed in floating point, \<^verbatim>\<open>int(float64(len(sorted)) * p / 100.0)\<close>; the
  rounding cannot take it over an integer while there are fewer than \<open>2 ^ 45\<close> samples, since the
  exact quotient is an integer or at least a hundredth away from one.
\<close>

definition pct :: "int list \<Rightarrow> nat \<Rightarrow> int" where
  "pct sorted1 p =
     (if length sorted1 = 0 then 0
      else let idx = length sorted1 * p div 100 in
           sorted1 ! (if idx \<ge> length sorted1 then length sorted1 - 1 else idx))"

definition percentile_of :: "int list \<Rightarrow> nat \<Rightarrow> int" where
  "percentile_of latencies p = pct (sort latencies) p"

section \<open>Lemmas on headers\<close>

lemma wrap64_range: "- (2 ^ 63) \<le> wrap64 i \<and> wrap64 i < 2 ^ 63"
  unfolding wrap64_def using signed_take_bit_int_less_exp [of 63 i]
    signed_take_bit_int_greater_eq_minus_exp [of 63 i] by simp

lemma length_pub_header:
  assumes "length topic \<le> 20" and "- (2 ^ 63) \<le> now" and "now < 2 ^ 63"
  shows "length (pub_header topic (wrap64 q) now) < 64"
  using length_Sprint_d [of "wrap64 q"] wrap64_range [of q] length_Sprint_d [OF assms(2,3)] assms(1)
  by (simp add: pub_header_def)


lemma pub_frame_padded:
  assumes "length (pub_header topic seq now) < 64" and "64 \<le> msgSize"
    and "length padding = pub_padding_size msgSize"
  shows "pub_frame topic msgSize padding seq now = Some (bytes_of_string (pub_header topic seq now) @ padding @
           replicate (64 - length (pub_header topic seq now)) 0)"
proof -
  let ?h = "length (pub_header topic seq now)"
  have h: "?h \<le> nat msgSize" "length padding = nat msgSize - 64" "64 \<le> nat msgSize"
    using assms by (simp_all add: pub_padding_size_def nat_diff_distrib)
  then have "min (nat msgSize - ?h) (length padding) = length padding"
      "nat msgSize - ?h - length padding = 64 - ?h" using assms(1) by linarith+
  moreover have "min (nat msgSize) ?h = ?h" using h(1) by simp
  ultimately show ?thesis using assms(2) by (simp add: pub_frame_def go_copy_def Let_def)
qed

lemma zero_byte_char: "\<not> is_digit (char_of_byte 0)"
  by (simp add: is_digit_def char_of_byte_def)

text \<open>A frame whose last byte is no digit is counted, and nothing else.\<close>

lemma sub_message_unread:
  assumes "f = [] \<or> \<not> is_digit (char_of_byte (last f))"
  shows "sub_message (NewMsg f) t s = s\<lparr>received := wrap64 (received s + 1)\<rparr>"
proof -
  let ?h = "SplitN 3 (CHR ''|'') (string_of_bytes f)"
  from SplitN_suffix [of 3 "CHR ''|''" "string_of_bytes f"] obtain u where
    u: "string_of_bytes f = u @ last ?h" by (auto simp: suffix_def)
  have "last ?h = [] \<or> \<not> is_digit (last (last ?h))"
  proof (cases "last ?h = []")
    case False
    with u have "last (last ?h) = last (string_of_bytes f)" "f \<noteq> []"
      by (metis last_appendR, metis append_is_Nil_conv string_of_bytes_Nil)
    with assms show ?thesis by (simp add: string_of_bytes_def last_map)
  qed simp
  then have "snd (ParseInt (last ?h)) \<noteq> None" by (rule ParseInt_bad_last)
  moreover have "last ?h = ?h ! 2" if "length ?h = 3"
    using that SplitN_suffix [of 3 "CHR ''|''" "string_of_bytes f"] by (simp add: last_conv_nth)
  ultimately show ?thesis
    by (cases "ParseInt (?h ! 1)"; cases "ParseInt (?h ! 2)") (auto simp: sub_message_def Let_def)
qed

lemma pub_turns_unread:
  assumes "length topic \<le> 20" and "64 \<le> msgSize" and "length padding = pub_padding_size msgSize"
  shows "pub_turns topic msgSize padding ts s = Some (ms, s') \<Longrightarrow>
    \<forall>now err. Tick now err \<in> set ts \<longrightarrow> - (2 ^ 63) \<le> now \<and> now < 2 ^ 63 \<Longrightarrow> m \<in> set ms \<Longrightarrow>
      \<exists>f. m = NewMsg f \<and> \<not> is_digit (char_of_byte (last f))"
proof (induction ts arbitrary: s ms)
  case Nil
  then show ?case by simp
next
  case (Cons t rest)
  show ?case
  proof (cases t)
    case PubCtxDone
    with Cons.prems show ?thesis by simp
  next
    case (Tick now err)
    let ?q = "wrap64 (pst_seq s + 1)"
    have now: "- (2 ^ 63) \<le> now" "now < 2 ^ 63" using Cons.prems(2) Tick by auto
    note len = length_pub_header [OF assms(1) now, of "pst_seq s + 1"]
    from pub_frame_padded [OF len assms(2,3)] obtain f where
      f: "pub_frame topic msgSize padding ?q now = Some f" "last f = 0"
      using len by auto
    from Cons.prems(1) f(1) Tick obtain ms1 s1 where
      ms1: "ms = NewMsg f # ms1" "pub_turns topic msgSize padding rest s1 = Some (ms1, s')"
      by (auto simp: Let_def split: if_splits)
    from Cons.IH [OF ms1(2)] Cons.prems(2,3) ms1(1) f(2) zero_byte_char show ?thesis by auto
  qed
qed


lemma sub_turns_unread:
  "\<forall>m e t. ((m, e), t) \<in> set got \<and> e = None \<longrightarrow> (\<exists>f. m = NewMsg f \<and> \<not> is_digit (char_of_byte (last f))) \<Longrightarrow>
     latenciesNs (sub_turns got s) = latenciesNs s \<and> seqGaps (sub_turns got s) = seqGaps s \<and>
     lastSeq (sub_turns got s) = lastSeq s"
proof (induction got s rule: sub_turns.induct)
  case (1 s)
  then show ?case by simp
next
  case (2 m err recvNs rest s)
  show ?case
  proof (cases err)
    case None
    with 2(3) obtain f where "m = NewMsg f" "\<not> is_digit (char_of_byte (last f))" by auto
    with sub_message_unread [of f recvNs s]
    have "sub_message m recvNs s = s\<lparr>received := wrap64 (received s + 1)\<rparr>" by simp
    with 2(2,3) None show ?thesis by auto
  next
    case (Some e)
    with 2(1,3) show ?thesis by auto
  qed
qed

lemma pub_turns_total:
  "0 \<le> msgSize \<Longrightarrow> PubCtxDone \<notin> set ts \<Longrightarrow>
     \<exists>ms s'. pub_turns topic msgSize padding ts s = Some (ms, s') \<and> length ms = length ts"
proof (induction ts arbitrary: s)
  case Nil
  then show ?case by simp
next
  case (Cons t rest)
  then obtain now err where t: "t = Tick now err" by (cases t) auto
  let ?q = "wrap64 (pst_seq s + 1)"
  obtain f where f: "pub_frame topic msgSize padding ?q now = Some f"
    using Cons.prems(1) by (simp add: pub_frame_def split_beta)
  let ?s1 = "s\<lparr>pst_seq := ?q\<rparr>"
  from Cons.IH [of "if err \<noteq> None then ?s1\<lparr>pst_errs := wrap64 (pst_errs ?s1 + 1)\<rparr>
      else ?s1\<lparr>pst_sent := wrap64 (pst_sent ?s1 + 1)\<rparr>"] Cons.prems
  show ?case using f t by (auto simp: Let_def)
qed

section \<open>Lemmas on complete headers\<close>

lemma digit_no_bar: "is_digit c \<Longrightarrow> c \<noteq> CHR ''|''"
  by (auto simp: is_digit_def)

lemma sub_message_header:
  assumes "CHR ''|'' \<notin> set topic" and "0 \<le> q" "q < 2 ^ 63" and "0 \<le> now" "now < 2 ^ 63"
  shows "sub_message (NewMsg (bytes_of_string (pub_header topic q now))) t s =
    sub_record t q now (s\<lparr>received := wrap64 (received s + 1)\<rparr>)"
proof -
  have bar: "CHR ''|'' \<notin> set (Sprint_d q)"
    using Sprint_d_digits [OF assms(2)] digit_no_bar by blast
  have "SplitN 3 (CHR ''|'') (pub_header topic q now) = [topic, Sprint_d q, Sprint_d now]"
    using SplitN_three [OF assms(1) bar, of "Sprint_d now"] by (simp add: pub_header_def)
  then show ?thesis
    using ParseInt_Sprint_d [OF assms(2,3)] ParseInt_Sprint_d [OF assms(4,5)]
    by (simp add: sub_message_def Let_def)
qed

lemma sub_record_next:
  assumes "0 \<le> lastSeq s" and "lastSeq s < q" and "q < 2 ^ 63"
    and "0 \<le> seqGaps s" and "seqGaps s + (q - lastSeq s) < 2 ^ 63"
  shows "seqGaps (sub_record t q now s) = seqGaps s + (q - lastSeq s - 1) \<and> lastSeq (sub_record t q now s) = q"
proof -
  have "wrap64 (lastSeq s + 1) = lastSeq s + 1" using assms by (intro wrap64_small) auto
  moreover have "wrap64 (q - (lastSeq s + 1)) = q - (lastSeq s + 1)" using assms by (intro wrap64_small) auto
  moreover have "wrap64 (seqGaps s + (q - (lastSeq s + 1))) = seqGaps s + (q - (lastSeq s + 1))"
    using assms by (intro wrap64_small) auto
  ultimately show ?thesis using assms(1,2) by (auto simp: sub_record_def Let_def)
qed

lemma sub_record_first:
  "lastSeq s < 0 \<Longrightarrow> seqGaps (sub_record t q now s) = seqGaps s \<and> lastSeq (sub_record t q now s) = q"
  by (simp add: sub_record_def Let_def)

text \<open>Arrivals: the sequence number, the time it was sent at and the time it arrived at.\<close>

definition arrivals :: "string \<Rightarrow> (int \<times> int \<times> int) list \<Rightarrow> ((msg \<times> go_error option) \<times> int) list" where
  "arrivals topic as =
     map (\<lambda>(q, now, t). ((NewMsg (bytes_of_string (pub_header topic q now)), None), t)) as"

lemma sub_turns_gaps:
  assumes "CHR ''|'' \<notin> set topic"
  shows "sorted_wrt (<) (lastSeq s # map fst as) \<Longrightarrow> 0 \<le> lastSeq s \<Longrightarrow> last (lastSeq s # map fst as) < 2 ^ 63 \<Longrightarrow>
    \<forall>(q, now, t) \<in> set as. q < 2 ^ 63 \<and> 0 \<le> now \<and> now < 2 ^ 63 \<Longrightarrow> 0 \<le> seqGaps s \<Longrightarrow>
    seqGaps s + (last (lastSeq s # map fst as) - lastSeq s) < 2 ^ 63 \<Longrightarrow>
      seqGaps (sub_turns (arrivals topic as) s) =
        seqGaps s + (last (lastSeq s # map fst as) - lastSeq s) - int (length as)"
proof (induction as arbitrary: s)
  case Nil
  then show ?case by (simp add: arrivals_def)
next
  case (Cons a as)
  obtain q now t where a: "a = (q, now, t)" by (cases a)
  let ?r = "s\<lparr>received := wrap64 (received s + 1)\<rparr>"
  let ?s1 = "sub_record t q now ?r"
  have q: "lastSeq s < q" "q < 2 ^ 63" "0 \<le> now" "now < 2 ^ 63" using Cons.prems(1,4) a by auto
  have "\<forall>x \<in> set (map fst as). q < x" using Cons.prems(1) a by simp
  then have le: "q \<le> last (q # map fst as)"
    using last_in_set [of "map fst as"] by (cases "map fst as = []") (auto simp: less_imp_le simp del: set_map list.set_map)
  have ends: "last (lastSeq s # map fst (a # as)) = last (q # map fst as)" using a by simp
  have gaps: "seqGaps ?s1 = seqGaps s + (q - lastSeq s - 1)" "lastSeq ?s1 = q"
    using sub_record_next [of ?r q t now] Cons.prems(2,5,6) q le ends by auto
  have "sub_turns (arrivals topic (a # as)) s = sub_turns (arrivals topic as) ?s1"
    using sub_message_header [OF assms, of q now t s] Cons.prems(2) q a by (simp add: arrivals_def)
  with Cons.IH [of ?s1] Cons.prems gaps q ends a show ?case by auto
qed


section \<open>Lemmas on percentiles\<close>

lemma length_filter_sort: "length (filter P (sort xs)) = length (filter P xs)"
  by (metis mset_filter mset_sort size_mset)

lemma sorted_count_below:
  assumes "sorted xs" and "i < length xs"
  shows "length (filter (\<lambda>x. x < xs ! i) xs) \<le> i"
proof -
  have "\<forall>x \<in> set (drop i xs). xs ! i \<le> x"
    using assms by (auto simp: in_set_conv_nth sorted_iff_nth_mono)
  then have "filter (\<lambda>x. x < xs ! i) (drop i xs) = []" by (auto simp: filter_empty_conv leD)
  then have "filter (\<lambda>x. x < xs ! i) xs = filter (\<lambda>x. x < xs ! i) (take i xs)"
    by (metis append_Nil2 append_take_drop_id filter_append)
  then show ?thesis using length_filter_le [of "\<lambda>x. x < xs ! i" "take i xs"] by simp
qed

lemma sorted_count_upto:
  assumes "sorted xs" and "i < length xs"
  shows "Suc i \<le> length (filter (\<lambda>x. x \<le> xs ! i) xs)"
proof -
  have "\<forall>x \<in> set (take (Suc i) xs). x \<le> xs ! i"
    using assms by (auto simp: in_set_conv_nth sorted_iff_nth_mono)
  then have "filter (\<lambda>x. x \<le> xs ! i) (take (Suc i) xs) = take (Suc i) xs" by simp
  then have "filter (\<lambda>x. x \<le> xs ! i) xs = take (Suc i) xs @ filter (\<lambda>x. x \<le> xs ! i) (drop (Suc i) xs)"
    by (metis append_take_drop_id filter_append)
  then show ?thesis using assms(2) by simp
qed

section \<open>Properties\<close>

text \<open>
  The measuring subscribers never see a publisher's header: the publishers pad each frame
  behind the header, the subscribers parse the padding as part of the last number. So for
  messages of 64 bytes and more, whatever is lost, reordered or repeated, no latency is recorded
  and no gap is counted.
\<close>

theorem padded_headers_unread:
  assumes "pub_turns topic msgSize padding ts s = Some (ms, s')"
    and "length topic \<le> 20" and "64 \<le> msgSize" and "length padding = pub_padding_size msgSize"
    and "\<forall>now err. Tick now err \<in> set ts \<longrightarrow> - (2 ^ 63) \<le> now \<and> now < 2 ^ 63"
    and "\<forall>m e t. ((m, e), t) \<in> set got \<and> e = None \<longrightarrow> m \<in> set ms"
  shows "latenciesNs (sub_turns got sub_start) = [] \<and> seqGaps (sub_turns got sub_start) = 0"
proof -
  from pub_turns_unread [OF assms(2-4,1,5)] assms(6)
  have "\<forall>m e t. ((m, e), t) \<in> set got \<and> e = None \<longrightarrow> (\<exists>f. m = NewMsg f \<and> \<not> is_digit (char_of_byte (last f)))"
    by blast
  from sub_turns_unread [OF this] show ?thesis by (simp add: sub_start_def)
qed

definition demo_turns :: "pub_turn list" where
  "demo_turns = [Tick 1700000000000000000 None, Tick 1700000000001000000 None, Tick 1700000000002000000 None]"

definition demo_published :: "msg list" where
  "demo_published = fst (the (pub_turns ''data'' 70 (replicate 6 7) demo_turns \<lparr>pst_seq = 0, pst_sent = 0, pst_errs = 0\<rparr>))"

text \<open>The second of three messages is lost, and not missed.\<close>

theorem padded_headers_unread_witness:
  "seqGaps (sub_turns [((demo_published ! 0, None), 1700000000000500000), ((demo_published ! 2, None), 1700000000002500000)]
     sub_start) = 0"
proof -
  let ?r = "pub_turns ''data'' 70 (replicate 6 7) demo_turns \<lparr>pst_seq = 0, pst_sent = 0, pst_errs = 0\<rparr>"
  have r: "?r \<noteq> None" "length (fst (the ?r)) = 3"
  proof -
    obtain ms s' where "?r = Some (ms, s')" "length ms = length demo_turns"
      using pub_turns_total [of 70 demo_turns "''data''" "replicate 6 7"] by (fastforce simp: demo_turns_def)
    then show "?r \<noteq> None" "length (fst (the ?r)) = 3" by (simp_all add: demo_turns_def)
  qed
  then have some: "?r = Some (demo_published, snd (the ?r))"
    unfolding demo_published_def by (metis option.collapse prod.collapse)
  have len: "length demo_published = 3" unfolding demo_published_def by (rule r(2))
  let ?got = "[((demo_published ! 0, None :: go_error option), 1700000000000500000), ((demo_published ! 2, None), 1700000000002500000 :: int)]"
  have got: "\<forall>m e t. ((m, e), t) \<in> set ?got \<and> e = None \<longrightarrow> m \<in> set demo_published"
    using nth_mem [of 0 demo_published] nth_mem [of 2 demo_published] len by auto
  have times: "\<forall>now err. Tick now err \<in> set demo_turns \<longrightarrow> - (2 ^ 63) \<le> now \<and> now < 2 ^ 63"
    by (simp add: demo_turns_def)
  have sizes: "length (''data'' :: string) \<le> 20" "(64 :: int) \<le> 70"
      "length (replicate 6 7 :: bytes) = pub_padding_size 70"
    by (simp_all add: pub_padding_size_def)
  from padded_headers_unread [OF some sizes times got] show ?thesis by (rule conjunct2)
qed

text \<open>
  C39: The count of gaps is right where headers are read: for messages that carry the header alone
  and arrive in the order of their sequence numbers, it is the number of those between the
  first and the last that did not arrive.
\<close>

theorem sequence_gaps_exact:
  assumes "CHR ''|'' \<notin> set topic" and "as \<noteq> []" and "sorted_wrt (<) (map fst as)"
    and "\<forall>(q, now, t) \<in> set as. 0 \<le> q \<and> q < 2 ^ 63 \<and> 0 \<le> now \<and> now < 2 ^ 63"
  shows "seqGaps (sub_turns (arrivals topic as) sub_start) =
    int (card ({fst (hd as)..fst (last as)} - set (map fst as)))"
proof -
  obtain q now t bs where as: "as = (q, now, t) # bs" using assms(2) by (cases as) auto
  have q: "0 \<le> q" "q < 2 ^ 63" "0 \<le> now" "now < 2 ^ 63" using assms(4) as by auto
  let ?r = "sub_start\<lparr>received := wrap64 (received sub_start + 1)\<rparr>"
  let ?s = "sub_record t q now ?r"
  have s: "seqGaps ?s = 0" "lastSeq ?s = q"
    using sub_record_first [of ?r t q now] by (simp_all add: sub_start_def)
  let ?l = "last (q # map fst bs)"
  have "?l \<in> set (map fst as)" using as by (metis last_in_set list.distinct(1) list.simps(9) fst_conv)
  then have l: "0 \<le> ?l" "?l < 2 ^ 63" using assms(4) by auto
  have b: "\<forall>(q, now, t) \<in> set bs. q < 2 ^ 63 \<and> 0 \<le> now \<and> now < 2 ^ 63"
    using assms(4) as by auto
  have "sub_turns (arrivals topic as) sub_start = sub_turns (arrivals topic bs) ?s"
    using sub_message_header [OF assms(1) q, of t sub_start] as by (simp add: arrivals_def)
  also have "seqGaps \<dots> = ?l - q - int (length bs)"
    using sub_turns_gaps [OF assms(1), of ?s bs] s q l assms(3) as b by auto
  finally have gaps: "seqGaps (sub_turns (arrivals topic as) sub_start) = ?l - q - int (length bs)" .
  have ends: "fst (hd as) = q" "fst (last as) = ?l"
    using as by (auto simp: last_map)
  have mono: "x \<in> {q..?l}" if "x \<in> set (map fst as)" for x
    using that assms(3) as by (induction bs arbitrary: x rule: rev_induct) (auto simp: sorted_wrt_append)
  have "card (set (map fst as)) = length as"
    using assms(3) by (metis distinct_card length_map strict_sorted_iff)
  moreover have "set (map fst as) \<subseteq> {q..?l}" using mono by blast
  moreover from this have "q \<le> ?l" using as by auto
  moreover have "length as \<le> card {q..?l}"
    using calculation card_mono [of "{q..?l}" "set (map fst as)"] by simp
  ultimately have "int (card ({q..?l} - set (map fst as))) = ?l - q + 1 - int (length as)"
    by (subst card_Diff_subset) (simp_all add: of_nat_diff)
  with gaps ends as show ?thesis by simp
qed

theorem sequence_gaps_exact_witness:
  "seqGaps (sub_turns (arrivals ''data'' [(1, 100, 150), (3, 300, 350), (7, 700, 750)]) sub_start) = 4"
proof -
  have "{1..7} - {1, 3, 7} = {2, 4, 5, 6 :: int}" by auto
  with sequence_gaps_exact [of "''data''" "[(1, 100, 150), (3, 300, 350), (7, 700, 750)]"] show ?thesis
    by simp
qed

text \<open>
  A percentile is an order statistic of the samples: it is one of them, at most \<open>p\<close> percent of
  them are smaller, and more than \<open>p\<close> percent are not larger, unless it is the largest.
\<close>

theorem percentile_order:
  assumes "xs \<noteq> []" and "p \<le> 100" and "v = percentile_of xs p"
  shows "v \<in> set xs \<and> 100 * length (filter (\<lambda>x. x < v) xs) \<le> p * length xs \<and>
    (p * length xs < 100 * length (filter (\<lambda>x. x \<le> v) xs) \<or> (\<forall>x \<in> set xs. x \<le> v))"
proof -
  let ?s = "sort xs" and ?n = "length xs"
  define i where "i = (if ?n * p div 100 \<ge> ?n then ?n - 1 else ?n * p div 100)"
  have n: "0 < ?n" using assms(1) by simp
  have i: "i < ?n" "100 * i \<le> p * ?n" and v: "v = ?s ! i"
    using n assms(2,3) unfolding i_def percentile_of_def pct_def
    by (auto simp: Let_def mult.commute)
  have mem: "v \<in> set xs" using i(1) v by (metis length_sort nth_mem set_sort)
  have below: "100 * length (filter (\<lambda>x. x < v) xs) \<le> p * ?n"
    using sorted_count_below [of ?s i] i v length_filter_sort [of "\<lambda>x. x < v" xs] by simp
  have upto: "p * ?n < 100 * length (filter (\<lambda>x. x \<le> v) xs) \<or> (\<forall>x \<in> set xs. x \<le> v)"
  proof (cases "?n * p div 100 \<ge> ?n")
    case True
    then have "i = ?n - 1" by (simp add: i_def)
    have "x \<le> v" if "x \<in> set xs" for x
    proof -
      from that obtain k where "k < ?n" "x = ?s ! k" by (metis in_set_conv_nth length_sort set_sort)
      with \<open>i = ?n - 1\<close> v n show ?thesis by (auto intro: sorted_nth_mono)
    qed
    then show ?thesis by blast
  next
    case False
    then have "p * ?n < 100 * Suc i" by (simp add: i_def mult.commute dividend_less_times_div)
    also have "\<dots> \<le> 100 * length (filter (\<lambda>x. x \<le> v) xs)"
      using sorted_count_upto [of ?s i] i(1) v length_filter_sort [of "\<lambda>x. x \<le> v" xs] by simp
    finally show ?thesis by simp
  qed
  from mem below upto show ?thesis by blast
qed

theorem percentile_order_witness:
  "percentile_of [30, 10, 20, 40] 50 \<in> set [30, 10, 20, 40]"
  using percentile_order [of "[30, 10, 20, 40]" 50] by simp

end
