(* ===== verification/Wire.thy ===== *)
theory Wire
  imports Message
begin

text \<open>
  The wire formats. A message travels as its frames, each \<^verbatim>\<open>[flag][4-byte length][payload]\<close>
  with bit 0 of the flag set on all frames but the last: on a stream (\<^verbatim>\<open>conn.go\<close>, the
  loop of \<^verbatim>\<open>Conn.read\<close>) and in one datagram (\<^verbatim>\<open>datagram.go\<close>). The subscription commands of
  the datagram sockets are one such frame. The theory \<open>Codec\<close> states what the three formats
  promise, and draws its consequences once for all of them.
\<close>

section \<open>The format\<close>

definition frame_wire :: "byte \<Rightarrow> bytes \<Rightarrow> bytes" where
  "frame_wire flag frame = flag # PutUint32 (word_of_nat (length frame)) @ frame"

text \<open>The specification of the encoding: every frame but the last has the has-more flag.\<close>

fun frames_wire :: "bytes list \<Rightarrow> bytes" where
  "frames_wire [] = []"
| "frames_wire [f] = frame_wire 0 f"
| "frames_wire (f # g # fs) = frame_wire 1 f @ frames_wire (g # fs)"

text \<open>What can be encoded: at least one frame, and lengths that fit the 32-bit field.\<close>

definition encodable :: "bytes list \<Rightarrow> bool" where
  "encodable fs = (fs \<noteq> [] \<and> list_all (\<lambda>f. length f < 2 ^ 32) fs)"

section \<open>Reading a message from a stream\<close>

text \<open>
  The loop of \<^verbatim>\<open>Conn.read\<close>: the frames read so far, the error that ended the loop if one
  did, and what is left of the stream.
\<close>

function read_loop :: "bytes list \<Rightarrow> reader \<Rightarrow> bytes list \<times> go_error option \<times> reader" where
  "read_loop fs r =
     (case io_ReadFull 1 r of
        (_, Some e, r1) \<Rightarrow> (fs, Some e, r1)
      | (flagBuf, None, r1) \<Rightarrow>
          (case io_ReadFull 4 r1 of
             (_, Some e, r2) \<Rightarrow> (fs, Some e, r2)
           | (lenBuf, None, r2) \<Rightarrow>
               (case io_ReadFull (unat (Uint32 lenBuf)) r2 of
                  (_, Some e, r3) \<Rightarrow> (fs, Some e, r3)
                | (body, None, r3) \<Rightarrow>
                    if (flagBuf ! 0) AND 1 \<noteq> 0 then read_loop (fs @ [body]) r3
                    else (fs @ [body], None, r3))))"
  by pat_completeness auto
termination
  by (relation "measure (\<lambda>(fs, r). length (content r))") (auto dest!: io_ReadFull_shrinks)

declare read_loop.simps [simp del]

section \<open>Messages in one datagram\<close>

text \<open>The loop of \<^verbatim>\<open>serializeMsgDatagram\<close>, over the frames from index \<open>i\<close> of \<open>n\<close>.\<close>

fun serialize_loop :: "nat \<Rightarrow> nat \<Rightarrow> bytes list \<Rightarrow> bytes \<Rightarrow> bytes" where
  "serialize_loop n i [] out = out"
| "serialize_loop n i (frame # rest) out =
     (let flag = (if int i < int n - 1 then 1 else 0) in
      serialize_loop n (Suc i) rest
        (out @ [flag] @ PutUint32 (word_of_nat (length frame)) @ frame))"

definition serializeMsgDatagram :: "msg \<Rightarrow> bytes" where
  "serializeMsgDatagram m = serialize_loop (length (Frames m)) 0 (Frames m) []"

function deserialize_loop :: "bytes list \<Rightarrow> reader \<Rightarrow> bytes list \<times> go_error option \<times> reader" where
  "deserialize_loop fs r =
     (case io_ReadFull 5 r of
        (_, Some e, r1) \<Rightarrow> (fs, Some e, r1)
      | (hdr, None, r1) \<Rightarrow>
          (case io_ReadFull (unat (Uint32 (drop 1 hdr))) r1 of
             (_, Some e, r2) \<Rightarrow> (fs, Some e, r2)
           | (frame, None, r2) \<Rightarrow>
               if (hdr ! 0) AND 1 \<noteq> 0 then deserialize_loop (fs @ [frame]) r2
               else (fs @ [frame], None, r2)))"
  by pat_completeness auto
termination
  by (relation "measure (\<lambda>(fs, r). length (content r))") (auto dest!: io_ReadFull_shrinks)

declare deserialize_loop.simps [simp del]

definition deserializeMsgDatagram :: "bytes \<Rightarrow> msg \<times> go_error option" where
  "deserializeMsgDatagram data =
     (case deserialize_loop [] (bytes_NewReader data) of
        (fs, e, _) \<Rightarrow> (empty_msg\<lparr>Frames := fs\<rparr>, e))"

section \<open>Subscription commands\<close>

definition subcmd_payload :: "bool \<Rightarrow> string \<Rightarrow> bytes" where
  "subcmd_payload subscribe topic = (if subscribe then 1 else 0) # bytes_of_string topic"

definition subcmd_frame :: "bool \<Rightarrow> string \<Rightarrow> bytes" where
  "subcmd_frame subscribe topic =
     (let payload = subcmd_payload subscribe topic in
      0 # PutUint32 (word_of_nat (length payload)) @ payload)"

definition writeSubCmd :: "writer \<Rightarrow> bool \<Rightarrow> string \<Rightarrow> go_error option \<times> writer" where
  "writeSubCmd w subscribe topic = writer_Write (subcmd_frame subscribe topic) w"

definition readSubCmd :: "reader \<Rightarrow> (go_error + bool \<times> string) \<times> reader" where
  "readSubCmd r =
     (case io_ReadFull 5 r of
        (_, Some e, r1) \<Rightarrow> (Inl e, r1)
      | (hdr, None, r1) \<Rightarrow>
          (case io_ReadFull (unat (Uint32 (drop 1 hdr))) r1 of
             (_, Some e, r2) \<Rightarrow> (Inl e, r2)
           | (payload, None, r2) \<Rightarrow>
               if payload = [] then (Inl (Errorf ''quicmq: empty subscription command'' []), r2)
               else (Inr (payload ! 0 = 1, string_of_bytes (drop 1 payload)), r2)))"

section \<open>Lemmas on the format\<close>

lemma length_frame_wire [simp]: "length (frame_wire flag f) = 5 + length f"
  by (simp add: frame_wire_def)

lemma unat_length_word:
  "length (f :: 'a list) < 2 ^ 32 \<Longrightarrow> unat (word_of_nat (length f) :: 32 word) = length f"
  by (simp add: unat_of_nat take_bit_nat_eq_self)

lemma encodable_Cons:
  "encodable (f # fs) \<longleftrightarrow> length f < 2 ^ 32 \<and> (fs = [] \<or> encodable fs)"
  by (auto simp: encodable_def)

lemma encodable_Nil [simp]: "\<not> encodable []"
  by (simp add: encodable_def)

lemma frames_wire_Cons:
  "frames_wire (f # fs) = frame_wire (if fs = [] then 0 else 1) f @ frames_wire fs"
  by (cases fs) auto

lemma frames_wire_nonempty: "fs \<noteq> [] \<Longrightarrow> frames_wire fs \<noteq> []"
  by (cases fs) (auto simp: frames_wire_Cons frame_wire_def)

lemma has_more_bit [simp]: "((1 :: byte) AND 1 \<noteq> 0)" "\<not> ((0 :: byte) AND 1 \<noteq> 0)"
  by simp_all

lemma ReadFull_append:
  "content r = p @ q \<Longrightarrow> length p = n \<Longrightarrow>
     \<exists>r'. io_ReadFull n r = (p, None, r') \<and> content r' = q \<and> rd_end r' = rd_end r"
  using io_ReadFull_enough [of n r] by simp

text \<open>One frame off the front of a stream, read in the two ways the code reads it.\<close>

lemma read_loop_frame:
  assumes "content r = frame_wire flag f @ q" and "length f < 2 ^ 32"
  shows "\<exists>r'. read_loop fs r = (if flag AND 1 \<noteq> 0 then read_loop (fs @ [f]) r'
                               else (fs @ [f], None, r'))
              \<and> content r' = q \<and> rd_end r' = rd_end r"
proof -
  let ?l = "PutUint32 (word_of_nat (length f))"
  obtain r1 where r1: "io_ReadFull 1 r = ([flag], None, r1)"
      "content r1 = ?l @ f @ q" "rd_end r1 = rd_end r"
    using ReadFull_append [of r "[flag]" "?l @ f @ q" 1] assms(1) by (auto simp: frame_wire_def)
  obtain r2 where r2: "io_ReadFull 4 r1 = (?l, None, r2)" "content r2 = f @ q" "rd_end r2 = rd_end r"
    using ReadFull_append [OF r1(2), of 4] r1(3) by auto
  obtain r3 where r3: "io_ReadFull (length f) r2 = (f, None, r3)" "content r3 = q" "rd_end r3 = rd_end r"
    using ReadFull_append [OF r2(2) refl] r2(3) by auto
  show ?thesis
    using r1(1) r2(1) r3
    by (intro exI [of _ r3], subst read_loop.simps)
      (simp add: unat_length_word [OF assms(2)] del: One_nat_def)
qed

lemma deserialize_loop_frame:
  assumes "content r = frame_wire flag f @ q" and "length f < 2 ^ 32"
  shows "\<exists>r'. deserialize_loop fs r = (if flag AND 1 \<noteq> 0 then deserialize_loop (fs @ [f]) r'
                               else (fs @ [f], None, r'))
              \<and> content r' = q \<and> rd_end r' = rd_end r"
proof -
  let ?h = "flag # PutUint32 (word_of_nat (length f))"
  obtain r1 where r1: "io_ReadFull 5 r = (?h, None, r1)" "content r1 = f @ q" "rd_end r1 = rd_end r"
    using ReadFull_append [of r ?h "f @ q" 5] assms(1) by (auto simp: frame_wire_def)
  obtain r2 where r2: "io_ReadFull (length f) r1 = (f, None, r2)" "content r2 = q" "rd_end r2 = rd_end r"
    using ReadFull_append [OF r1(2) refl] r1(3) by auto
  show ?thesis
    using r1(1) r2
    by (intro exI [of _ r2], subst deserialize_loop.simps)
      (simp add: unat_length_word [OF assms(2)])
qed

text \<open>Whole messages: decoding undoes the encoding and leaves the rest of the stream alone.\<close>

lemma read_loop_frames_wire:
  "encodable fs \<Longrightarrow> content r = frames_wire fs @ q \<Longrightarrow>
     \<exists>r'. read_loop acc r = (acc @ fs, None, r') \<and> content r' = q \<and> rd_end r' = rd_end r"
proof (induction fs arbitrary: acc r)
  case Nil
  then show ?case by simp
next
  case (Cons f fs)
  from Cons.prems have len: "length f < 2 ^ 32" by (simp add: encodable_Cons)
  from Cons.prems(2)
  have "content r = frame_wire (if fs = [] then 0 else 1) f @ frames_wire fs @ q"
    by (simp add: frames_wire_Cons)
  from read_loop_frame [OF this len, of acc]
  obtain r1 where r1: "read_loop acc r = (if fs = [] then (acc @ [f], None, r1)
                                          else read_loop (acc @ [f]) r1)"
      "content r1 = frames_wire fs @ q" "rd_end r1 = rd_end r"
    by (auto split: if_splits)
  show ?case
  proof (cases "fs = []")
    case True
    with r1 show ?thesis by simp
  next
    case False
    with Cons.prems(1) have "encodable fs" by (simp add: encodable_Cons)
    from Cons.IH [OF this r1(2), of "acc @ [f]"] r1(1,3) False show ?thesis by simp
  qed
qed

lemma deserialize_loop_frames_wire:
  "encodable fs \<Longrightarrow> content r = frames_wire fs @ q \<Longrightarrow>
     \<exists>r'. deserialize_loop acc r = (acc @ fs, None, r') \<and> content r' = q \<and> rd_end r' = rd_end r"
proof (induction fs arbitrary: acc r)
  case Nil
  then show ?case by simp
next
  case (Cons f fs)
  from Cons.prems have len: "length f < 2 ^ 32" by (simp add: encodable_Cons)
  from Cons.prems(2)
  have "content r = frame_wire (if fs = [] then 0 else 1) f @ frames_wire fs @ q"
    by (simp add: frames_wire_Cons)
  from deserialize_loop_frame [OF this len, of acc]
  obtain r1 where r1: "deserialize_loop acc r = (if fs = [] then (acc @ [f], None, r1)
                                          else deserialize_loop (acc @ [f]) r1)"
      "content r1 = frames_wire fs @ q" "rd_end r1 = rd_end r"
    by (auto split: if_splits)
  show ?case
  proof (cases "fs = []")
    case True
    with r1 show ?thesis by simp
  next
    case False
    with Cons.prems(1) have "encodable fs" by (simp add: encodable_Cons)
    from Cons.IH [OF this r1(2), of "acc @ [f]"] r1(1,3) False show ?thesis by simp
  qed
qed

text \<open>The serialiser's indexed loop writes the specified format.\<close>

lemma serialize_loop_wire:
  "n = i + length fs \<Longrightarrow> serialize_loop n i fs out = out @ frames_wire fs"
proof (induction fs arbitrary: i out)
  case Nil
  then show ?case by simp
next
  case (Cons f fs)
  then have "int i < int n - 1 \<longleftrightarrow> fs \<noteq> []" by (cases fs) auto
  with Cons show ?case by (simp add: frames_wire_Cons frame_wire_def Let_def)
qed

lemma serializeMsgDatagram_wire: "serializeMsgDatagram m = frames_wire (Frames m)"
  by (simp add: serializeMsgDatagram_def serialize_loop_wire)

text \<open>A subscription command is a single-frame message.\<close>

lemma subcmd_frame_wire: "subcmd_frame s t = frames_wire [subcmd_payload s t]"
  by (simp add: subcmd_frame_def frame_wire_def Let_def)

end
