(* ===== verification/Codec.thy ===== *)
theory Codec
  imports Wire
begin

text \<open>
  What the readers of the wire formats guarantee for any bytes and any arrival of them: the
  result depends on the bytes alone; more bytes behind a complete message change nothing;
  a message cut short is never taken for a message. Then the interface \<open>stream_codec\<close>, its
  consequences, and the three formats as its instances.
\<close>

section \<open>Independence of how the bytes arrive\<close>

text \<open>Two readers that deliver the same bytes and then the same error.\<close>

definition agree :: "reader \<Rightarrow> reader \<Rightarrow> bool" where
  "agree r s = (content r = content s \<and> rd_end r = rd_end s)"

lemma agree_refl [simp]: "agree r r"
  by (simp add: agree_def)

lemma io_ReadFull_agree:
  assumes "agree r s"
  shows "\<exists>got e r' s'. io_ReadFull n r = (got, e, r') \<and> io_ReadFull n s = (got, e, s') \<and> agree r' s'"
proof (cases "n \<le> length (content r)")
  case True
  with io_ReadFull_enough [of n r] io_ReadFull_enough [of n s] assms show ?thesis
    by (auto simp: agree_def)
next
  case False
  with io_ReadFull_short [of r n] io_ReadFull_short [of s n] assms show ?thesis
    by (auto simp: agree_def)
qed

lemma read_loop_agree:
  "agree r s \<Longrightarrow>
     \<exists>gs e r' s'. read_loop fs r = (gs, e, r') \<and> read_loop fs s = (gs, e, s') \<and> agree r' s'"
proof (induction fs r arbitrary: s rule: read_loop.induct)
  case (1 fs r)
  obtain b1 e1 r1 s1 where h1: "io_ReadFull 1 r = (b1, e1, r1)" "io_ReadFull 1 s = (b1, e1, s1)"
      "agree r1 s1"
    using io_ReadFull_agree [OF "1.prems", of 1] by blast
  obtain b2 e2 r2 s2 where h2: "io_ReadFull 4 r1 = (b2, e2, r2)" "io_ReadFull 4 s1 = (b2, e2, s2)"
      "agree r2 s2"
    using io_ReadFull_agree [OF h1(3), of 4] by blast
  obtain b3 e3 r3 s3 where h3: "io_ReadFull (unat (Uint32 b2)) r2 = (b3, e3, r3)"
      "io_ReadFull (unat (Uint32 b2)) s2 = (b3, e3, s3)" "agree r3 s3"
    using io_ReadFull_agree [OF h2(3)] by blast
  show ?case
  proof (cases "e1 = None \<and> e2 = None \<and> e3 = None \<and> b1 ! 0 AND 1 \<noteq> 0")
    case True
    have "\<exists>gs e r' s'. read_loop (fs @ [b3]) r3 = (gs, e, r') \<and> read_loop (fs @ [b3]) s3 = (gs, e, s')
             \<and> agree r' s'"
      by (rule "1.IH" [OF h1(1) [symmetric] refl _ h2(1) [symmetric] refl _ h3(1) [symmetric] refl])
        (use True h3(3) in auto)
    with True h1 h2 h3 show ?thesis
      by (simp add: read_loop.simps [of fs r] read_loop.simps [of fs s] del: One_nat_def)
  next
    case False
    with h1 h2 h3 show ?thesis
      by (auto simp add: read_loop.simps [of fs r] read_loop.simps [of fs s] simp del: One_nat_def
          split: option.split)
  qed
qed

section \<open>Incomplete messages\<close>

lemma io_ReadFull_extend:
  assumes "io_ReadFull n r = (got, None, r')" and "content s = content r @ q"
  shows "\<exists>s'. io_ReadFull n s = (got, None, s') \<and> content s' = content r' @ q"
  using io_ReadFull_None [OF assms(1)] ReadFull_append [of s got "content r' @ q" n] assms(2)
  by auto

lemma read_loop_extend:
  "read_loop fs r = (gs, None, r') \<Longrightarrow> content s = content r @ q \<Longrightarrow>
     \<exists>s'. read_loop fs s = (gs, None, s') \<and> content s' = content r' @ q"
proof (induction fs r arbitrary: s rule: read_loop.induct)
  case (1 fs r)
  from "1.prems"(1) obtain b1 r1 b2 r2 b3 r3 where
      h: "io_ReadFull 1 r = (b1, None, r1)" "io_ReadFull 4 r1 = (b2, None, r2)"
         "io_ReadFull (unat (Uint32 b2)) r2 = (b3, None, r3)"
    by (subst (asm) read_loop.simps) (auto split: prod.splits option.splits)
  obtain s1 where s1: "io_ReadFull 1 s = (b1, None, s1)" "content s1 = content r1 @ q"
    using io_ReadFull_extend [OF h(1) "1.prems"(2)] by blast
  obtain s2 where s2: "io_ReadFull 4 s1 = (b2, None, s2)" "content s2 = content r2 @ q"
    using io_ReadFull_extend [OF h(2) s1(2)] by blast
  obtain s3 where s3: "io_ReadFull (unat (Uint32 b2)) s2 = (b3, None, s3)"
      "content s3 = content r3 @ q"
    using io_ReadFull_extend [OF h(3) s2(2)] by blast
  note unfold = read_loop.simps [of fs r] read_loop.simps [of fs s]
  show ?case
  proof (cases "b1 ! 0 AND 1 \<noteq> 0")
    case True
    with "1.prems"(1) h have "read_loop (fs @ [b3]) r3 = (gs, None, r')"
      by (simp add: unfold(1) del: One_nat_def)
    from "1.IH" [OF h(1) [symmetric] refl refl h(2) [symmetric] refl refl h(3) [symmetric] refl refl
        True this s3(2)] True s1 s2 s3
    show ?thesis by (simp add: unfold(2) del: One_nat_def)
  next
    case False
    with "1.prems"(1) h s1 s2 s3 show ?thesis
      by (simp add: unfold del: One_nat_def)
  qed
qed

lemma read_loop_truncated:
  assumes "encodable fs" and "strict_prefix (content r) (frames_wire fs)"
  shows "\<exists>gs e r'. read_loop acc r = (gs, Some e, r')"
proof (rule ccontr)
  assume "\<not> ?thesis"
  then obtain gs r' where ok: "read_loop acc r = (gs, None, r')"
    by (metis option.exhaust prod_cases3)
  from assms(2) obtain q where q: "frames_wire fs = content r @ q" "q \<noteq> []"
    by (auto simp: strict_prefix_def prefix_def)
  let ?s = "r\<lparr>chunks := [frames_wire fs]\<rparr>"
  have s: "content ?s = content r @ q" using q(1) by (simp add: content_def)
  from read_loop_extend [OF ok s] obtain s' where s': "read_loop acc ?s = (gs, None, s')"
      "content s' = content r' @ q" by blast
  from read_loop_frames_wire [OF assms(1), of ?s "[]" acc] s q(1) s' show False
    using q(2) by auto
qed

section \<open>What a reader accepts\<close>

text \<open>The frames of a message are made of the bytes that came in, five bytes of header each.\<close>

lemma read_loop_length:
  "read_loop fs r = (gs, None, r') \<Longrightarrow>
     \<exists>ds. gs = fs @ ds \<and> ds \<noteq> [] \<and>
          length (content r) = sum_list (map (\<lambda>f. 5 + length f) ds) + length (content r')"
proof (induction fs r rule: read_loop.induct)
  case (1 fs r)
  from "1.prems"(1) obtain b1 r1 b2 r2 b3 r3 where
      h: "io_ReadFull 1 r = (b1, None, r1)" "io_ReadFull 4 r1 = (b2, None, r2)"
         "io_ReadFull (unat (Uint32 b2)) r2 = (b3, None, r3)"
    by (subst (asm) read_loop.simps) (auto split: prod.splits option.splits)
  have len: "length (content r) = 5 + length b3 + length (content r3)"
    using h [THEN io_ReadFull_None] by auto
  show ?case
  proof (cases "b1 ! 0 AND 1 \<noteq> 0")
    case True
    with "1.prems"(1) h have "read_loop (fs @ [b3]) r3 = (gs, None, r')"
      by (simp add: read_loop.simps [of fs r] del: One_nat_def)
    from "1.IH" [OF h(1) [symmetric] refl refl h(2) [symmetric] refl refl h(3) [symmetric] refl refl
        True this] len
    show ?thesis by force
  next
    case False
    with "1.prems"(1) h len show ?thesis
      by (simp add: read_loop.simps [of fs r] del: One_nat_def) force
  qed
qed

text \<open>
  The datagram decoder reads flag and length in one piece, the stream decoder in two: they
  accept the same bytes, as the same frames, with the same bytes left over.
\<close>

lemma io_ReadFull_split:
  assumes "agree r s"
  shows "case io_ReadFull (m + n) s of
           (got, None, s') \<Rightarrow> \<exists>r1 r2. io_ReadFull m r = (take m got, None, r1) \<and>
                                    io_ReadFull n r1 = (drop m got, None, r2) \<and> agree r2 s'
         | (_, Some _, s') \<Rightarrow> (\<exists>g e r1. io_ReadFull m r = (g, Some e, r1)) \<or>
             (\<exists>g1 r1 g2 e r2. io_ReadFull m r = (g1, None, r1) \<and> io_ReadFull n r1 = (g2, Some e, r2))"
proof (cases "m + n \<le> length (content s)")
  case True
  then obtain s' where s': "io_ReadFull (m + n) s = (take (m + n) (content s), None, s')"
      "content s' = drop (m + n) (content s)" "rd_end s' = rd_end s"
    using io_ReadFull_enough by blast
  obtain r1 where r1: "io_ReadFull m r = (take m (content s), None, r1)"
      "content r1 = drop m (content s)" "rd_end r1 = rd_end s"
    using io_ReadFull_enough [of m r] True assms by (auto simp: agree_def)
  obtain r2 where r2: "io_ReadFull n r1 = (take n (drop m (content s)), None, r2)"
      "content r2 = drop n (drop m (content s))" "rd_end r2 = rd_end s"
    using io_ReadFull_enough [of n r1] True r1(2,3) by fastforce
  show ?thesis
    using s' r1 r2 by (simp add: agree_def drop_take add.commute)
next
  case False
  then obtain s' e where s': "io_ReadFull (m + n) s = (content s, Some e, s')"
    using io_ReadFull_short [of s "m + n"] by auto
  show ?thesis
  proof (cases "m \<le> length (content r)")
    case True
    then obtain r1 where r1: "io_ReadFull m r = (take m (content r), None, r1)"
        "content r1 = drop m (content r)"
      using io_ReadFull_enough by blast
    have "length (content r1) < n" using True r1 False assms by (auto simp: agree_def)
    from io_ReadFull_short [OF this] r1 s' show ?thesis by auto
  next
    case short: False
    then show ?thesis using io_ReadFull_short [of r m] s' by auto
  qed
qed

lemma deserialize_loop_read_loop:
  "agree r s \<Longrightarrow>
     (case deserialize_loop fs s of
        (gs, None, s') \<Rightarrow> \<exists>r'. read_loop fs r = (gs, None, r') \<and> agree r' s'
      | (gs, Some _, _) \<Rightarrow> \<exists>e r'. read_loop fs r = (gs, Some e, r'))"
proof (induction fs s arbitrary: r rule: deserialize_loop.induct)
  case (1 fs s)
  note unfold = read_loop.simps [of fs r] deserialize_loop.simps [of fs s]
  obtain hdr e1 s1 where hdr: "io_ReadFull 5 s = (hdr, e1, s1)" by (cases "io_ReadFull 5 s") auto
  show ?case
  proof (cases e1)
    case (Some e)
    with io_ReadFull_split [OF "1.prems", of 1 4] hdr show ?thesis
      by (auto simp: unfold simp del: One_nat_def)
  next
    case None
    have l5: "length hdr = 5" using hdr None io_ReadFull_None by blast
    then have h0: "take 1 hdr ! 0 = hdr ! 0" by (cases hdr) auto
    obtain r1 r2 where r1: "io_ReadFull 1 r = (take 1 hdr, None, r1)"
        "io_ReadFull 4 r1 = (drop 1 hdr, None, r2)" "agree r2 s1"
      using io_ReadFull_split [OF "1.prems", of 1 4] hdr None by auto
    obtain b e3 r3 s3 where b: "io_ReadFull (unat (Uint32 (drop 1 hdr))) r2 = (b, e3, r3)"
        "io_ReadFull (unat (Uint32 (drop 1 hdr))) s1 = (b, e3, s3)" "agree r3 s3"
      using io_ReadFull_agree [OF r1(3)] by blast
    show ?thesis
    proof (cases "e3 = None \<and> hdr ! 0 AND 1 \<noteq> 0")
      case True
      have "case deserialize_loop (fs @ [b]) s3 of
              (gs, None, s') \<Rightarrow> \<exists>r'. read_loop (fs @ [b]) r3 = (gs, None, r') \<and> agree r' s'
            | (gs, Some _, _) \<Rightarrow> \<exists>e r'. read_loop (fs @ [b]) r3 = (gs, Some e, r')"
        by (rule "1.IH" [OF hdr [symmetric] refl None b(2) [symmetric] refl]) (use True b(3) in auto)
      moreover have "read_loop fs r = read_loop (fs @ [b]) r3"
        using True r1 b(1) h0 by (simp add: unfold del: One_nat_def)
      moreover have "deserialize_loop fs s = deserialize_loop (fs @ [b]) s3"
        using True None b(2) hdr by (simp add: unfold)
      ultimately show ?thesis by (simp split: prod.splits option.splits)
    next
      case False
      with None r1 b hdr h0 show ?thesis
        by (auto simp add: unfold simp del: One_nat_def split: option.splits)
    qed
  qed
qed

section \<open>The codec interface\<close>

text \<open>
  What every wire format promises: decoding the bytes of an encoded value, whatever follows
  them, gives the value back and leaves exactly what followed. With non-empty encodings a
  sequence of encodings reads back in one way only.
\<close>

fun decode_many :: "(bytes \<Rightarrow> ('m \<times> bytes) option) \<Rightarrow> nat \<Rightarrow> bytes \<Rightarrow> ('m list \<times> bytes) option" where
  "decode_many dec 0 bs = Some ([], bs)"
| "decode_many dec (Suc n) bs =
     (case dec bs of
        None \<Rightarrow> None
      | Some (m, rest) \<Rightarrow> map_option (\<lambda>(ms, q). (m # ms, q)) (decode_many dec n rest))"

locale stream_codec =
  fixes enc :: "'m \<Rightarrow> bytes"
    and dec :: "bytes \<Rightarrow> ('m \<times> bytes) option"
    and ok :: "'m \<Rightarrow> bool"
  assumes dec_enc: "ok m \<Longrightarrow> dec (enc m @ rest) = Some (m, rest)"
begin

lemma enc_prefix_free:
  assumes "ok m" and "ok m'" and "prefix (enc m) (enc m')"
  shows "m = m'"
proof -
  from assms(3) obtain q where "enc m' = enc m @ q" by (auto simp: prefix_def)
  with dec_enc [OF assms(1), of q] dec_enc [OF assms(2), of "[]"] show ?thesis by simp
qed

lemma enc_inj: "ok m \<Longrightarrow> ok m' \<Longrightarrow> enc m = enc m' \<Longrightarrow> m = m'"
  by (rule enc_prefix_free) auto

lemma decode_many_enc:
  "list_all ok ms \<Longrightarrow> decode_many dec (length ms) (concat (map enc ms) @ rest) = Some (ms, rest)"
  by (induction ms) (auto simp: dec_enc)

end

locale framed_codec = stream_codec +
  assumes enc_nonempty: "ok m \<Longrightarrow> enc m \<noteq> []"
begin

lemma concat_enc_inj:
  "list_all ok ms \<Longrightarrow> list_all ok ms' \<Longrightarrow> concat (map enc ms) = concat (map enc ms') \<Longrightarrow> ms = ms'"
proof (induction ms arbitrary: ms')
  case Nil
  then show ?case by (cases ms') (auto dest: enc_nonempty)
next
  case (Cons m ms)
  then obtain n ns where ms': "ms' = n # ns"
    by (cases ms') (auto dest: enc_nonempty)
  from Cons.prems ms' have ok: "ok m" "ok n" by simp_all
  from Cons.prems(3) ms'
  have "dec (enc m @ concat (map enc ms)) = dec (enc n @ concat (map enc ns))" by simp
  then have "m = n" and "concat (map enc ms) = concat (map enc ns)"
    unfolding dec_enc [OF ok(1)] dec_enc [OF ok(2)] by simp_all
  with Cons.IH [of ns] Cons.prems(1,2) ms' show ?case by simp
qed

end

text \<open>The three decoders, as functions of the bytes.\<close>

definition stream_dec :: "bytes \<Rightarrow> (bytes list \<times> bytes) option" where
  "stream_dec bs =
     (case read_loop [] (bytes_NewReader bs) of (fs, None, r) \<Rightarrow> Some (fs, content r) | _ \<Rightarrow> None)"

definition dgram_dec :: "bytes \<Rightarrow> (bytes list \<times> bytes) option" where
  "dgram_dec bs =
     (case deserialize_loop [] (bytes_NewReader bs) of
        (fs, None, r) \<Rightarrow> Some (fs, content r) | _ \<Rightarrow> None)"

definition subcmd_dec :: "bytes \<Rightarrow> ((bool \<times> string) \<times> bytes) option" where
  "subcmd_dec bs =
     (case readSubCmd (bytes_NewReader bs) of (Inr c, r) \<Rightarrow> Some (c, content r) | _ \<Rightarrow> None)"

definition dgram_enc :: "bytes list \<Rightarrow> bytes" where
  "dgram_enc fs = serializeMsgDatagram (NewMsgFrom fs)"

definition subcmd_enc :: "bool \<times> string \<Rightarrow> bytes" where
  "subcmd_enc c = subcmd_frame (fst c) (snd c)"

definition subcmd_ok :: "bool \<times> string \<Rightarrow> bool" where
  "subcmd_ok c = (length (snd c) < 2 ^ 32 - 1)"

lemma readSubCmd_frame:
  assumes "content r = subcmd_frame sub topic @ q" and "length topic < 2 ^ 32 - 1"
  shows "\<exists>r'. readSubCmd r = (Inr (sub, topic), r') \<and> content r' = q \<and> rd_end r' = rd_end r"
proof -
  let ?p = "subcmd_payload sub topic"
  have l: "length ?p < 2 ^ 32" using assms(2) by (simp add: subcmd_payload_def)
  obtain r1 where r1: "io_ReadFull 5 r = (0 # PutUint32 (word_of_nat (length ?p)), None, r1)"
      "content r1 = ?p @ q" "rd_end r1 = rd_end r"
    using ReadFull_append [of r "0 # PutUint32 (word_of_nat (length ?p))" "?p @ q" 5] assms(1)
    by (auto simp: subcmd_frame_def Let_def)
  obtain r2 where r2: "io_ReadFull (length ?p) r1 = (?p, None, r2)" "content r2 = q"
      "rd_end r2 = rd_end r"
    using ReadFull_append [OF r1(2) refl] r1(3) by auto
  have "readSubCmd r = (Inr (sub, topic), r2)"
    using r1(1) r2(1)
    by (simp add: readSubCmd_def unat_length_word [OF l]) (simp add: subcmd_payload_def)
  with r2 show ?thesis by blast
qed

interpretation stream: framed_codec frames_wire stream_dec encodable
proof
  fix fs rest
  assume ok: "encodable fs"
  from read_loop_frames_wire [OF ok, of "bytes_NewReader (frames_wire fs @ rest)" rest "[]"]
  show "stream_dec (frames_wire fs @ rest) = Some (fs, rest)"
    by (auto simp: stream_dec_def)
  from ok show "frames_wire fs \<noteq> []"
    by (simp add: encodable_def frames_wire_nonempty)
qed

interpretation dgram: framed_codec dgram_enc dgram_dec encodable
proof
  fix fs rest
  assume ok: "encodable fs"
  from deserialize_loop_frames_wire [OF ok, of "bytes_NewReader (frames_wire fs @ rest)" rest "[]"]
  show "dgram_dec (dgram_enc fs @ rest) = Some (fs, rest)"
    by (auto simp: dgram_dec_def dgram_enc_def serializeMsgDatagram_wire)
  from ok show "dgram_enc fs \<noteq> []"
    by (simp add: encodable_def dgram_enc_def serializeMsgDatagram_wire frames_wire_nonempty)
qed

interpretation subcmd: framed_codec subcmd_enc subcmd_dec subcmd_ok
proof
  fix c rest
  assume ok: "subcmd_ok c"
  from readSubCmd_frame [of "bytes_NewReader (subcmd_enc c @ rest)" "fst c" "snd c" rest] ok
  show "subcmd_dec (subcmd_enc c @ rest) = Some (c, rest)"
    by (auto simp: subcmd_dec_def subcmd_enc_def subcmd_ok_def)
  show "subcmd_enc c \<noteq> []"
    by (simp add: subcmd_enc_def subcmd_frame_def Let_def)
qed

end
