(* ===== verification/Connection.thy ===== *)
theory Connection
  imports Codec
begin

text \<open>
  \<^verbatim>\<open>conn.go\<close>: a connection with its framing, its closed flag and close callback, and the
  topics its peer has subscribed to; then the store of connections that the pools and sockets
  refer to by number.
\<close>

section \<open>The connection\<close>

text \<open>
  The \<^verbatim>\<open>net.Conn\<close> under a connection is not code of the repository: what it will deliver, how
  it takes each write and what its \<^verbatim>\<open>Close\<close> returns are the environment's.
\<close>

record net_conn =
  rd :: reader
  wr :: writer
  close_result :: "go_error option"
  close_calls :: nat

record conn =
  conn_typ :: socket_type
  rw :: net_conn
  Server :: bool
  topics :: strset
  closed :: int
  onCloseErrorCB :: bool

text \<open>
  \<^verbatim>\<open>onCloseErrorCB\<close> records whether there is a callback. An operation that may run it returns,
  beside its result, whether it did: what the callback does is the socket's business
  (\<^verbatim>\<open>scheduleRmConn\<close>).
\<close>

definition Open :: "net_conn option \<Rightarrow> socket_type \<Rightarrow> bool \<Rightarrow> bool \<Rightarrow> go_error + conn" where
  "Open rw1 sockType server cb =
     (case rw1 of
        None \<Rightarrow> Inl (Errorf ''quicmq: invalid nil connection'' [])
      | Some nc \<Rightarrow> Inr \<lparr>conn_typ = sockType, rw = nc, Server = server, topics = [], closed = 0,
                      onCloseErrorCB = cb\<rparr>)"

definition Close :: "conn \<Rightarrow> go_error option \<times> conn" where
  "Close c = (close_result (rw c), c\<lparr>rw := (rw c)\<lparr>close_calls := Suc (close_calls (rw c))\<rparr>\<rparr>)"

section \<open>The closed flag and the callback\<close>

definition notifyOnCloseError :: "conn \<Rightarrow> bool" where
  "notifyOnCloseError c = onCloseErrorCB c"

text \<open>\<^verbatim>\<open>atomic.CompareAndSwapInt32(&c.closed, 0, 1)\<close>, then the callback if it swapped.\<close>

definition SetClosed :: "conn \<Rightarrow> conn \<times> bool" where
  "SetClosed c =
     (if closed c = 0 then (c\<lparr>closed := 1\<rparr>, notifyOnCloseError (c\<lparr>closed := 1\<rparr>)) else (c, False))"

definition Closed :: "conn \<Rightarrow> bool" where
  "Closed c = (closed c = 1)"

definition checkIO :: "go_error option \<Rightarrow> conn \<Rightarrow> conn \<times> bool" where
  "checkIO err c = (case err of None \<Rightarrow> (c, False) | Some _ \<Rightarrow> SetClosed c)"

section \<open>Sending\<close>

definition rw_Write :: "bytes \<Rightarrow> conn \<Rightarrow> go_error option \<times> conn" where
  "rw_Write p c =
     (case writer_Write p (wr (rw c)) of (e, w) \<Rightarrow> (e, c\<lparr>rw := (rw c)\<lparr>wr := w\<rparr>\<rparr>))"

text \<open>A write of one part of a frame; a failure is checked and wrapped.\<close>

definition write_part ::
    "bytes \<Rightarrow> (go_error \<Rightarrow> go_error) \<Rightarrow> conn \<Rightarrow> go_error option \<times> conn \<times> bool" where
  "write_part p wrap c =
     (case rw_Write p c of
        (None, c1) \<Rightarrow> (None, c1, False)
      | (Some e, c1) \<Rightarrow> (case checkIO (Some e) c1 of (c2, fired) \<Rightarrow> (Some (wrap e), c2, fired)))"

text \<open>Several writes in a row; the first failure ends them.\<close>

fun write_parts ::
    "(bytes \<times> (go_error \<Rightarrow> go_error)) list \<Rightarrow> conn \<Rightarrow> go_error option \<times> conn \<times> bool" where
  "write_parts [] c = (None, c, False)"
| "write_parts ((p, wrap) # ps) c =
     (case write_part p wrap c of
        (Some e, r) \<Rightarrow> (Some e, r)
      | (None, c1, _) \<Rightarrow> write_parts ps c1)"

text \<open>
  The loop of \<^verbatim>\<open>SendMsg\<close>, over the frames from index \<open>i\<close> of \<open>nframes\<close>: flag, length and
  payload are written one after the other.
\<close>

fun SendMsg_loop :: "nat \<Rightarrow> nat \<Rightarrow> bytes list \<Rightarrow> conn \<Rightarrow> go_error option \<times> conn \<times> bool" where
  "SendMsg_loop nframes i [] c = (None, c, False)"
| "SendMsg_loop nframes i (frame # rest) c =
     (let flag = (if int i < int nframes - 1 then 1 else 0) in
      case write_parts
             [([flag], Wrapf ''quicmq: send flag: %w'' []),
              (PutUint32 (word_of_nat (length frame)), Wrapf ''quicmq: send length: %w'' []),
              (frame,
               Wrapf ''quicmq: send frame %d/%d: %w'' [Num (int i + 1), Num (int nframes)])] c of
        (Some e, r) \<Rightarrow> (Some e, r)
      | (None, c1, _) \<Rightarrow> SendMsg_loop nframes (Suc i) rest c1)"

definition SendMsg :: "msg \<Rightarrow> conn \<Rightarrow> go_error option \<times> conn \<times> bool" where
  "SendMsg m c =
     (if Closed c then (Some ErrClosedConn, c, False)
      else SendMsg_loop (length (Frames m)) 0 (Frames m) c)"

section \<open>Receiving\<close>

definition conn_read :: "conn \<Rightarrow> msg \<times> conn \<times> bool" where
  "conn_read c =
     (case read_loop [] (rd (rw c)) of
        (fs, e, r) \<Rightarrow>
          (case checkIO e (c\<lparr>rw := (rw c)\<lparr>rd := r\<rparr>\<rparr>) of
             (c', fired) \<Rightarrow> (empty_msg\<lparr>Frames := fs, msg_err := e\<rparr>, c', fired)))"

section \<open>Subscriptions\<close>

text \<open>\<open>None\<close> is the panic of an index out of range: no frame, or an empty first frame.\<close>

definition subscribe :: "msg \<Rightarrow> conn \<Rightarrow> conn option" where
  "subscribe m c =
     (case Frames m of
        [] \<Rightarrow> None
      | v # _ \<Rightarrow>
          (case v of
             [] \<Rightarrow> None
           | v0 # vs \<Rightarrow>
               let k = string_of_bytes vs in
               Some (if v0 = 0 then c\<lparr>topics := strset_del k (topics c)\<rparr>
                     else if v0 = 1 then c\<lparr>topics := strset_put k (topics c)\<rparr>
                     else c)))"

fun subscribed_loop :: "strset \<Rightarrow> string \<Rightarrow> bool" where
  "subscribed_loop [] topic = False"
| "subscribed_loop (k # ks) topic =
     (if k = '''' then True else if prefix k topic then True else subscribed_loop ks topic)"

definition subscribed :: "conn \<Rightarrow> string \<Rightarrow> bool" where
  "subscribed c topic = subscribed_loop (topics c) topic"

section \<open>Lemmas on the closed flag\<close>

lemma SetClosed_idem: "SetClosed (fst (SetClosed c)) = (fst (SetClosed c), False)"
  by (simp add: SetClosed_def)

lemma SetClosed_Closed: "closed c \<in> {0, 1} \<Longrightarrow> Closed (fst (SetClosed c))"
  by (auto simp: SetClosed_def Closed_def)

lemma SetClosed_frame [conn_simps]:
  "topics (fst (SetClosed c)) = topics c" "rw (fst (SetClosed c)) = rw c"
  "onCloseErrorCB (fst (SetClosed c)) = onCloseErrorCB c"
  "Server (fst (SetClosed c)) = Server c" "conn_typ (fst (SetClosed c)) = conn_typ c"
  by (simp_all add: SetClosed_def)

section \<open>Lemmas on sending\<close>

text \<open>Sending changes the writer of a connection and, on failure, its closed flag.\<close>

definition set_wr :: "writer \<Rightarrow> conn \<Rightarrow> conn" where
  "set_wr w c = c\<lparr>rw := (rw c)\<lparr>wr := w\<rparr>\<rparr>"

abbreviation out :: "conn \<Rightarrow> bytes" where
  "out c \<equiv> written (wr (rw c))"

lemma set_wr_simps [simp, conn_simps]:
  "wr (rw (set_wr w c)) = w" "rd (rw (set_wr w c)) = rd (rw c)"
  "close_result (rw (set_wr w c)) = close_result (rw c)"
  "topics (set_wr w c) = topics c" "closed (set_wr w c) = closed c"
  "onCloseErrorCB (set_wr w c) = onCloseErrorCB c" "conn_typ (set_wr w c) = conn_typ c"
  "Server (set_wr w c) = Server c" "set_wr v (set_wr w c) = set_wr v c"
  by (simp_all add: set_wr_def)

lemma rw_Write_set_wr:
  "rw_Write p c = (case writer_Write p (wr (rw c)) of (e, w) \<Rightarrow> (e, set_wr w c))"
  by (simp add: rw_Write_def set_wr_def)

text \<open>What one part of a frame does: all of it written, or a piece of it and the flag set.\<close>

lemma write_part_ok:
  "write_part p wrap c = (None, c', fired) \<Longrightarrow>
     \<exists>w. c' = set_wr w c \<and> written w = out c @ p \<and> \<not> fired"
  by (auto simp: write_part_def rw_Write_set_wr dest: writer_Write_ok
      split: prod.splits option.splits)

lemma write_part_fail:
  "write_part p wrap c = (Some e, c', fired) \<Longrightarrow> closed c = 0 \<Longrightarrow>
     \<exists>w n e0. c' = (set_wr w c)\<lparr>closed := 1\<rparr> \<and> written w = out c @ take n p \<and>
              fired = onCloseErrorCB c \<and> e = wrap e0"
  by (force simp: write_part_def rw_Write_set_wr checkIO_def SetClosed_def notifyOnCloseError_def
      dest: writer_Write_prefix split: prod.splits option.splits if_splits)

lemma write_part_healthy:
  "healthy (wr (rw c)) \<Longrightarrow>
     \<exists>w. write_part p wrap c = (None, set_wr w c, False) \<and> healthy w \<and> written w = out c @ p"
  using writer_Write_healthy [of "wr (rw c)" p]
  by (auto simp: write_part_def rw_Write_set_wr)

lemma set_wr_same: "set_wr (wr (rw c)) c = c"
  by (simp add: set_wr_def)

text \<open>Then for several parts.\<close>

lemma write_parts_ok:
  "write_parts ps c = (None, c', fired) \<Longrightarrow>
     \<exists>w. c' = set_wr w c \<and> written w = out c @ concat (map fst ps) \<and> \<not> fired"
proof (induction ps c rule: write_parts.induct)
  case (1 c)
  then show ?case by (auto intro!: exI [of _ "wr (rw c)"] simp: set_wr_same)
next
  case (2 p wrap ps c)
  then obtain c1 d where p: "write_part p wrap c = (None, c1, d)"
    and rest: "write_parts ps c1 = (None, c', fired)"
    by (auto split: prod.splits option.splits)
  from "2.IH" [OF p [symmetric] refl refl rest] write_part_ok [OF p] show ?case by auto
qed

lemma write_parts_fail:
  "write_parts ps c = (Some e, c', fired) \<Longrightarrow> closed c = 0 \<Longrightarrow>
     (\<exists>w p. c' = (set_wr w c)\<lparr>closed := 1\<rparr> \<and> written w = out c @ p \<and>
            prefix p (concat (map fst ps))) \<and> fired = onCloseErrorCB c"
proof (induction ps c rule: write_parts.induct)
  case (1 c)
  then show ?case by simp
next
  case (2 p wrap ps c)
  obtain r c1 d where p: "write_part p wrap c = (r, c1, d)" by (cases "write_part p wrap c") auto
  show ?case
  proof (cases r)
    case None
    with write_part_ok [of p wrap c c1 d] p obtain w where
      w: "c1 = set_wr w c" "written w = out c @ p" by auto
    from "2.prems" p None have "write_parts ps c1 = (Some e, c', fired)" by simp
    from "2.IH" [OF p [symmetric] None refl this] "2.prems"(2) w show ?thesis
      by auto
  next
    case (Some e1)
    with "2.prems"(1) p have "c1 = c'" "d = fired" by simp_all
    with write_part_fail [OF p [unfolded Some] "2.prems"(2)] show ?thesis
      by (auto intro: prefix_prefix take_is_prefix)
  qed
qed

lemma write_parts_healthy:
  "healthy (wr (rw c)) \<Longrightarrow>
     \<exists>w. write_parts ps c = (None, set_wr w c, False) \<and> healthy w \<and>
         written w = out c @ concat (map fst ps)"
proof (induction ps arbitrary: c)
  case Nil
  then show ?case by (auto intro!: exI [of _ "wr (rw c)"] simp: set_wr_same)
next
  case (Cons a ps)
  obtain p wrap where a: "a = (p, wrap)" by (cases a)
  obtain w where w: "write_part p wrap c = (None, set_wr w c, False)" "healthy w"
      "written w = out c @ p"
    using write_part_healthy [OF Cons.prems] by blast
  with Cons.IH [of "set_wr w c"] a show ?case by auto
qed

text \<open>The parts of a frame make up its wire format.\<close>

lemma frame_wire_parts: "frame_wire flag f = [flag] @ PutUint32 (word_of_nat (length f)) @ f"
  by (simp add: frame_wire_def)

lemma last_frame_flag:
  "n = i + length (f # fs) \<Longrightarrow> (if int i < int n - 1 then 1 else 0 :: byte) = (if fs = [] then 0 else 1)"
  by (cases fs) auto

lemma SendMsg_loop_ok:
  "SendMsg_loop n i fs c = (None, c', fired) \<Longrightarrow> n = i + length fs \<Longrightarrow>
     (\<exists>w. c' = set_wr w c \<and> written w = out c @ frames_wire fs) \<and> \<not> fired"
proof (induction fs arbitrary: i c)
  case Nil
  then show ?case by (auto intro!: exI [of _ "wr (rw c)"] simp: set_wr_same)
next
  case (Cons f fs)
  from Cons.prems(1) obtain ps c1 d where p: "write_parts ps c = (None, c1, d)"
      "concat (map fst ps) = frame_wire (if int i < int n - 1 then 1 else 0) f"
      and loop: "SendMsg_loop n (Suc i) fs c1 = (None, c', fired)"
    by (auto simp: Let_def frame_wire_parts simp del: write_parts.simps
        split: prod.splits option.splits)
  from Cons.IH [OF loop] Cons.prems(2) write_parts_ok [OF p(1)] p(2) show ?case
    unfolding last_frame_flag [OF Cons.prems(2)] frames_wire_Cons by auto
qed

lemma SendMsg_loop_fail:
  "SendMsg_loop n i fs c = (Some e, c', fired) \<Longrightarrow> n = i + length fs \<Longrightarrow> closed c = 0 \<Longrightarrow>
     (\<exists>w p. c' = (set_wr w c)\<lparr>closed := 1\<rparr> \<and> written w = out c @ p \<and> prefix p (frames_wire fs))
     \<and> fired = onCloseErrorCB c"
proof (induction fs arbitrary: i c)
  case Nil
  then show ?case by simp
next
  case (Cons f fs)
  from Cons.prems(1) obtain ps r c1 d where p: "write_parts ps c = (r, c1, d)"
      "concat (map fst ps) = frame_wire (if int i < int n - 1 then 1 else 0) f"
      and loop: "case r of Some e1 \<Rightarrow> c1 = c' \<and> d = fired
                 | None \<Rightarrow> SendMsg_loop n (Suc i) fs c1 = (Some e, c', fired)"
    by (auto simp: Let_def frame_wire_parts simp del: write_parts.simps
        split: prod.splits option.splits)
  have wire: "frames_wire (f # fs) = concat (map fst ps) @ frames_wire fs"
    unfolding p(2) last_frame_flag [OF Cons.prems(2)] frames_wire_Cons ..
  show ?case
  proof (cases r)
    case None
    with write_parts_ok [of ps c c1 d] p(1) obtain w where
      w: "c1 = set_wr w c" "written w = out c @ concat (map fst ps)" by auto
    from None loop have "SendMsg_loop n (Suc i) fs c1 = (Some e, c', fired)" by simp
    from Cons.IH [OF this] Cons.prems(2,3) w show ?thesis unfolding wire
      by auto
  next
    case (Some e1)
    with write_parts_fail [of ps c e1 c1 d] p(1) loop Cons.prems(3) show ?thesis unfolding wire
      by (auto intro: prefix_prefix)
  qed
qed

lemma SendMsg_loop_healthy:
  "healthy (wr (rw c)) \<Longrightarrow> n = i + length fs \<Longrightarrow>
     \<exists>w. SendMsg_loop n i fs c = (None, set_wr w c, False) \<and> healthy w \<and>
         written w = out c @ frames_wire fs"
proof (induction fs arbitrary: i c)
  case Nil
  then show ?case by (auto intro!: exI [of _ "wr (rw c)"] simp: set_wr_same)
next
  case (Cons f fs)
  let ?ps = "[([if fs = [] then 0 else 1], Wrapf ''quicmq: send flag: %w'' []),
              (PutUint32 (word_of_nat (length f)), Wrapf ''quicmq: send length: %w'' []),
              (f, Wrapf ''quicmq: send frame %d/%d: %w'' [Num (int i + 1), Num (int n)])]"
  obtain w where w: "write_parts ?ps c = (None, set_wr w c, False)" "healthy w"
      "written w = out c @ frame_wire (if fs = [] then 0 else 1) f"
    using write_parts_healthy [OF Cons.prems(1), of ?ps]
    by (auto simp: frame_wire_parts simp del: write_parts.simps)
  have "SendMsg_loop n i (f # fs) c = SendMsg_loop n (Suc i) fs (set_wr w c)"
    unfolding SendMsg_loop.simps(2) last_frame_flag [OF Cons.prems(2)] Let_def w(1) by simp
  with Cons.IH [of "set_wr w c" "Suc i"] Cons.prems(2) w show ?case
    by (auto simp: frames_wire_Cons)
qed

text \<open>\<^verbatim>\<open>SendMsg\<close> itself.\<close>

lemma SendMsg_closed: "Closed c \<Longrightarrow> SendMsg m c = (Some ErrClosedConn, c, False)"
  by (simp add: SendMsg_def)

lemma SendMsg_Frames: "Frames m = Frames n \<Longrightarrow> SendMsg m = SendMsg n"
  by (simp add: SendMsg_def fun_eq_iff)

lemma SendMsg_ok:
  "SendMsg m c = (None, c', fired) \<Longrightarrow>
     (\<exists>w. c' = set_wr w c \<and> written w = out c @ frames_wire (Frames m)) \<and> \<not> fired \<and> \<not> Closed c"
  using SendMsg_loop_ok [of "length (Frames m)" 0 "Frames m" c c' fired]
  by (auto simp: SendMsg_def split: if_splits)

lemma SendMsg_fail:
  "SendMsg m c = (Some e, c', fired) \<Longrightarrow> closed c = 0 \<Longrightarrow>
     (\<exists>w p. c' = (set_wr w c)\<lparr>closed := 1\<rparr> \<and> written w = out c @ p \<and>
            prefix p (frames_wire (Frames m))) \<and> fired = onCloseErrorCB c"
  using SendMsg_loop_fail [of "length (Frames m)" 0 "Frames m" c e c' fired]
  by (auto simp: SendMsg_def Closed_def split: if_splits)

lemma SendMsg_healthy:
  "\<not> Closed c \<Longrightarrow> healthy (wr (rw c)) \<Longrightarrow>
     \<exists>w. SendMsg m c = (None, set_wr w c, False) \<and> healthy w \<and>
         written w = out c @ frames_wire (Frames m)"
  using SendMsg_loop_healthy [of c "length (Frames m)" 0 "Frames m"]
  by (auto simp: SendMsg_def)

section \<open>Lemmas on receiving\<close>

definition set_rd :: "reader \<Rightarrow> conn \<Rightarrow> conn" where
  "set_rd r c = c\<lparr>rw := (rw c)\<lparr>rd := r\<rparr>\<rparr>"

abbreviation inp :: "conn \<Rightarrow> bytes" where
  "inp c \<equiv> content (rd (rw c))"

lemma set_rd_simps [simp, conn_simps]:
  "rd (rw (set_rd r c)) = r" "wr (rw (set_rd r c)) = wr (rw c)"
  "topics (set_rd r c) = topics c" "closed (set_rd r c) = closed c"
  "onCloseErrorCB (set_rd r c) = onCloseErrorCB c" "conn_typ (set_rd r c) = conn_typ c"
  "Server (set_rd r c) = Server c" "set_rd q (set_rd r c) = set_rd q c"
  by (simp_all add: set_rd_def)

lemma conn_read_set_rd:
  "conn_read c =
     (case read_loop [] (rd (rw c)) of
        (fs, e, r) \<Rightarrow> (case checkIO e (set_rd r c) of
            (c', fired) \<Rightarrow> (empty_msg\<lparr>Frames := fs, msg_err := e\<rparr>, c', fired)))"
  by (simp add: conn_read_def set_rd_def)

lemma NewMsgFrom_upd: "empty_msg\<lparr>Frames := fs, msg_err := None\<rparr> = NewMsgFrom fs"
  by (simp add: NewMsgFrom_def empty_msg_def)

lemma conn_read_wire:
  assumes "encodable fs" and "inp c = frames_wire fs @ q"
  shows "\<exists>r. conn_read c = (NewMsgFrom fs, set_rd r c, False) \<and> content r = q"
  using read_loop_frames_wire [OF assms, of "[]"]
  by (auto simp: conn_read_set_rd checkIO_def NewMsgFrom_upd)

lemma conn_read_error:
  assumes "conn_read c = (m, c', fired)" and "closed c = 0"
  shows "case msg_err m of
           None \<Rightarrow> closed c' = 0 \<and> \<not> fired
         | Some _ \<Rightarrow> closed c' = 1 \<and> fired = onCloseErrorCB c"
  using assms
  by (auto simp: conn_read_set_rd checkIO_def SetClosed_def notifyOnCloseError_def
      split: prod.splits option.splits if_splits)

lemma conn_read_frame:
  assumes "conn_read c = (m, c', fired)"
  shows "topics c' = topics c \<and> wr (rw c') = wr (rw c) \<and> onCloseErrorCB c' = onCloseErrorCB c"
  using assms
  by (auto simp: conn_read_set_rd checkIO_def SetClosed_def split: prod.splits option.splits if_splits)

section \<open>Sending and receiving a sequence of messages\<close>

fun send_all :: "msg list \<Rightarrow> conn \<Rightarrow> go_error option list \<times> conn" where
  "send_all [] c = ([], c)"
| "send_all (m # ms) c =
     (case SendMsg m c of (e, c', _) \<Rightarrow> (case send_all ms c' of (es, c'') \<Rightarrow> (e # es, c'')))"

fun read_n :: "nat \<Rightarrow> conn \<Rightarrow> msg list \<times> conn" where
  "read_n 0 c = ([], c)"
| "read_n (Suc n) c =
     (case conn_read c of (m, c', _) \<Rightarrow> (case read_n n c' of (ms, c'') \<Rightarrow> (m # ms, c'')))"

lemma send_all_healthy:
  "\<not> Closed c \<Longrightarrow> healthy (wr (rw c)) \<Longrightarrow>
     \<exists>w. send_all ms c = (map (\<lambda>_. None) ms, set_wr w c) \<and> healthy w \<and>
         written w = out c @ concat (map (\<lambda>m. frames_wire (Frames m)) ms)"
proof (induction ms arbitrary: c)
  case Nil
  then show ?case by (auto intro!: exI [of _ "wr (rw c)"] simp: set_wr_same)
next
  case (Cons m ms)
  obtain w where w: "SendMsg m c = (None, set_wr w c, False)" "healthy w"
      "written w = out c @ frames_wire (Frames m)"
    using SendMsg_healthy [OF Cons.prems] by blast
  have "\<not> Closed (set_wr w c)" using Cons.prems(1) by (simp add: Closed_def)
  from Cons.IH [OF this] w show ?case by auto
qed

lemma read_n_wire:
  "list_all (\<lambda>m. encodable (Frames m)) ms \<Longrightarrow>
   inp c = concat (map (\<lambda>m. frames_wire (Frames m)) ms) @ q \<Longrightarrow>
     \<exists>c'. read_n (length ms) c = (map (\<lambda>m. NewMsgFrom (Frames m)) ms, c') \<and> inp c' = q
          \<and> closed c' = closed c"
proof (induction ms arbitrary: c)
  case Nil
  then show ?case by simp
next
  case (Cons m ms)
  from Cons.prems have "encodable (Frames m)"
    and "inp c = frames_wire (Frames m) @ concat (map (\<lambda>m. frames_wire (Frames m)) ms) @ q"
    by simp_all
  from conn_read_wire [OF this] obtain r where
      r: "conn_read c = (NewMsgFrom (Frames m), set_rd r c, False)"
         "content r = concat (map (\<lambda>m. frames_wire (Frames m)) ms) @ q" by blast
  from Cons.IH [of "set_rd r c"] Cons.prems(1) r show ?case by auto
qed

section \<open>Topic filters\<close>

text \<open>
  Three components decide whether a topic is subscribed to: a connection, a datagram peer and
  the datagram subscriber. They promise the same: some subscription is a prefix of the topic.
\<close>

locale topic_filter =
  fixes matches :: "'p \<Rightarrow> string \<Rightarrow> bool"
    and subs :: "'p \<Rightarrow> string set"
  assumes matches_iff: "matches p t \<longleftrightarrow> (\<exists>k \<in> subs p. prefix k t)"
begin

lemma no_subscription: "subs p = {} \<Longrightarrow> \<not> matches p t"
  by (simp add: matches_iff)

lemma subscribed_to_all: "'''' \<in> subs p \<Longrightarrow> matches p t"
  by (auto simp: matches_iff intro: bexI [of _ "[]"])

lemma matches_mono: "subs p \<subseteq> subs q \<Longrightarrow> matches p t \<Longrightarrow> matches q t"
  by (auto simp: matches_iff)

lemma matches_extend: "matches p t \<Longrightarrow> matches p (t @ u)"
  by (auto simp: matches_iff intro: prefix_prefix)

lemma matches_cong: "subs p = subs q \<Longrightarrow> matches p t = matches q t"
  by (simp add: matches_iff)

end

lemma subscribed_loop_iff: "subscribed_loop ks topic \<longleftrightarrow> (\<exists>k \<in> set ks. prefix k topic)"
  by (induction ks) auto

interpretation conn_topics: topic_filter subscribed "\<lambda>c. set (topics c)"
  by unfold_locales (simp add: subscribed_def subscribed_loop_iff)

lemma subscribe_payload:
  "Frames m = subcmd_payload s t # fs \<Longrightarrow>
     subscribe m c = Some (c\<lparr>topics := (if s then strset_put t (topics c)
                                        else strset_del t (topics c))\<rparr>)"
  by (simp add: subscribe_def subcmd_payload_def)

section \<open>The store of connections\<close>

text \<open>
  Pools and sockets share connections by pointer. The store maps the pointers to the
  connections and records, in order, the connections whose callback has run.
\<close>

record store =
  cells :: "conn_id \<Rightarrow> conn"
  notified :: "conn_id list"

definition on_cell :: "(conn \<Rightarrow> 'r \<times> conn \<times> bool) \<Rightarrow> conn_id \<Rightarrow> store \<Rightarrow> 'r \<times> store" where
  "on_cell f i s =
     (case f (cells s i) of
        (x, c', fired) \<Rightarrow>
          (x, s\<lparr>cells := (cells s)(i := c'),
                notified := notified s @ (if fired then [i] else [])\<rparr>))"

definition st_SendMsg :: "msg \<Rightarrow> conn_id \<Rightarrow> store \<Rightarrow> go_error option \<times> store" where
  "st_SendMsg m = on_cell (SendMsg m)"

definition st_read :: "conn_id \<Rightarrow> store \<Rightarrow> msg \<times> store" where
  "st_read = on_cell conn_read"

definition st_Close :: "conn_id \<Rightarrow> store \<Rightarrow> go_error option \<times> store" where
  "st_Close = on_cell (\<lambda>c. case Close c of (e, c') \<Rightarrow> (e, c', False))"

lemma on_cell_other: "on_cell f i s = (x, s') \<Longrightarrow> j \<noteq> i \<Longrightarrow> cells s' j = cells s j"
  by (auto simp: on_cell_def split: prod.splits)

lemma on_cell_same:
  "on_cell f i s = (x, s') \<Longrightarrow> \<exists>fired. f (cells s i) = (x, cells s' i, fired) \<and>
     notified s' = notified s @ (if fired then [i] else [])"
  by (cases "f (cells s i)") (auto simp: on_cell_def)

section \<open>Runs of operations on one connection\<close>

text \<open>Whatever the goroutines that share a connection do to it, in whatever order.\<close>

datatype conn_op = OpSend msg | OpRead | OpClose | OpSetClosed

fun conn_step :: "conn_op \<Rightarrow> conn \<Rightarrow> conn \<times> bool" where
  "conn_step (OpSend m) c = snd (SendMsg m c)"
| "conn_step OpRead c = snd (conn_read c)"
| "conn_step OpClose c = (snd (Close c), False)"
| "conn_step OpSetClosed c = SetClosed c"

text \<open>The connection after a run, and how often the callback has run.\<close>

fun conn_run :: "conn_op list \<Rightarrow> conn \<Rightarrow> conn \<times> nat" where
  "conn_run [] c = (c, 0)"
| "conn_run (a # as) c =
     (case conn_step a c of (c1, fired) \<Rightarrow>
        (case conn_run as c1 of (c2, n) \<Rightarrow> (c2, (if fired then 1 else 0) + n)))"

lemma conn_step_closed:
  assumes "closed c = 1" and "conn_step a c = (c', fired)"
  shows "closed c' = 1 \<and> \<not> fired \<and> onCloseErrorCB c' = onCloseErrorCB c"
  using assms
  by (cases a)
    (auto simp: SendMsg_closed Closed_def conn_read_set_rd checkIO_def SetClosed_def Close_def
      split: prod.splits option.splits)

lemma conn_step_open:
  assumes "closed c = 0" and "conn_step a c = (c', fired)"
  shows "(closed c' = 0 \<and> \<not> fired \<or> closed c' = 1 \<and> fired = onCloseErrorCB c)
         \<and> onCloseErrorCB c' = onCloseErrorCB c"
proof (cases a)
  case (OpSend m)
  with assms obtain e where e: "SendMsg m c = (e, c', fired)" by (cases "SendMsg m c") auto
  then show ?thesis
    using SendMsg_ok [of m c c' fired] SendMsg_fail [of m c _ c' fired] assms(1)
    by (cases e) auto
next
  case OpRead
  with assms obtain m where m: "conn_read c = (m, c', fired)" by (cases "conn_read c") auto
  from conn_read_error [OF m assms(1)] conn_read_frame [OF m] show ?thesis
    by (auto split: option.splits)
qed (use assms in \<open>auto simp: Close_def SetClosed_def notifyOnCloseError_def\<close>)

lemma conn_run_closed:
  "closed c = 1 \<Longrightarrow> conn_run as c = (c', n) \<Longrightarrow> closed c' = 1 \<and> n = 0"
  by (induction as arbitrary: c n) (auto dest: conn_step_closed split: prod.splits)

lemma conn_run_callback:
  "closed c = 0 \<Longrightarrow> conn_run as c = (c', n) \<Longrightarrow>
     closed c' \<in> {0, 1} \<and> n = (if onCloseErrorCB c \<and> closed c' = 1 then 1 else 0)"
proof (induction as arbitrary: c n)
  case Nil
  then show ?case by simp
next
  case (Cons a as)
  from Cons.prems(2) obtain c1 fired n1 where s: "conn_step a c = (c1, fired)"
      "conn_run as c1 = (c', n1)" "n = (if fired then 1 else 0) + n1"
    by (auto split: prod.splits)
  from conn_step_open [OF Cons.prems(1) s(1)] show ?case
    using Cons.IH [OF _ s(2)] conn_run_closed [OF _ s(2)] s(3) by auto
qed

section \<open>Properties\<close>

text \<open>A connection as \<^verbatim>\<open>Open\<close> makes it, over given halves of a stream.\<close>

definition new_conn :: "reader \<Rightarrow> writer \<Rightarrow> conn" where
  "new_conn r w =
     \<lparr>conn_typ = Sub, rw = \<lparr>rd = r, wr = w, close_result = None, close_calls = 0\<rparr>, Server = False,
      topics = [], closed = 0, onCloseErrorCB = True\<rparr>"

text \<open>A store of such connections, nothing to read and nothing written.\<close>

definition fresh_store :: store where
  "fresh_store =
     \<lparr>cells = (\<lambda>_. new_conn (bytes_NewReader []) \<lparr>wr_script = [], written = []\<rparr>), notified = []\<rparr>"

text \<open>
  C11: Messages sent one after the other over a healthy stream are all accepted, and whoever
  reads the bytes, in whatever pieces they arrive, gets exactly these messages in order, with
  exactly the bytes behind them left on the stream.
\<close>

theorem stream_roundtrip:
  assumes "\<not> Closed c" and "healthy (wr (rw c))" and "out c = []"
    and "list_all (\<lambda>m. encodable (Frames m)) ms"
    and "send_all ms c = (es, c')" and "inp d = out c' @ q"
  shows "es = map (\<lambda>_. None) ms \<and>
         fst (read_n (length ms) d) = map (\<lambda>m. NewMsgFrom (Frames m)) ms \<and>
         inp (snd (read_n (length ms) d)) = q"
proof -
  from send_all_healthy [OF assms(1,2), of ms] assms(3,5)
  have "es = map (\<lambda>_. None) ms" and "out c' = concat (map (\<lambda>m. frames_wire (Frames m)) ms)"
    by auto
  with read_n_wire [OF assms(4), of d q] assms(6) show ?thesis by auto
qed

theorem stream_roundtrip_witness:
  "fst (read_n (length [NewMsgFrom [[7], []], NewMsgFrom [[9]]]) (new_conn \<lparr>chunks = [[1, 0, 0, 0], [1, 7, 0, 0, 0, 0, 0], [], [0, 0, 0, 0, 1], [9, 5]],
                            rd_end = EOF\<rparr> \<lparr>wr_script = [], written = []\<rparr>))
     = [NewMsgFrom [[7], []], NewMsgFrom [[9]]]"
proof -
  let ?c = "new_conn (bytes_NewReader []) \<lparr>wr_script = [], written = []\<rparr>"
  let ?ms = "[NewMsgFrom [[7], []], NewMsgFrom [[9]]]"
  let ?d = "new_conn \<lparr>chunks = [[1, 0, 0, 0], [1, 7, 0, 0, 0, 0, 0], [], [0, 0, 0, 0, 1], [9, 5]],
                       rd_end = EOF\<rparr> \<lparr>wr_script = [], written = []\<rparr>"
  have "inp ?d = out (snd (send_all ?ms ?c)) @ [5]"
    by code_simp
  then show ?thesis
    using stream_roundtrip [of ?c ?ms "fst (send_all ?ms ?c)" "snd (send_all ?ms ?c)" ?d "[5]"]
    by (simp add: new_conn_def Closed_def healthy_def encodable_def del: read_n.simps)
qed

text \<open>
  A stream that ends inside a message never yields a message: the read reports an error,
  marks the connection closed and runs its callback.
\<close>

theorem read_truncated:
  assumes "encodable fs" and "strict_prefix (inp c) (frames_wire fs)" and "closed c = 0"
    and "conn_read c = (m, c', fired)"
  shows "msg_err m \<noteq> None \<and> Closed c' \<and> fired = onCloseErrorCB c"
proof -
  from read_loop_truncated [OF assms(1,2), of "[]"] assms(4) have "msg_err m \<noteq> None"
    by (auto simp: conn_read_set_rd split: prod.splits)
  with conn_read_error [OF assms(4,3)] show ?thesis
    by (auto simp: Closed_def split: option.splits)
qed

theorem read_truncated_witness:
  "msg_err (fst (conn_read (new_conn (bytes_NewReader [1, 0, 0, 0, 1, 7, 0, 0])
      \<lparr>wr_script = [], written = []\<rparr>))) \<noteq> None"
proof -
  let ?c = "new_conn (bytes_NewReader [1, 0, 0, 0, 1, 7, 0, 0]) \<lparr>wr_script = [], written = []\<rparr>"
  have "encodable [[7], [9]]" by (simp add: encodable_def)
  moreover have "strict_prefix (inp ?c) (frames_wire [[7], [9]])" by code_simp
  moreover have "closed ?c = 0" by (simp add: new_conn_def)
  ultimately show ?thesis
    using read_truncated [of "[[7], [9]]" ?c] by (cases "conn_read ?c") simp
qed

text \<open>
  How the bytes of a stream are cut into pieces never shows: two connections whose streams
  carry the same bytes and end in the same way read the same message, and are left with the
  same bytes.
\<close>

theorem chunking_irrelevant:
  assumes "agree (rd (rw c)) (rd (rw d))"
  shows "fst (conn_read c) = fst (conn_read d) \<and>
         agree (rd (rw (fst (snd (conn_read c))))) (rd (rw (fst (snd (conn_read d)))))"
proof -
  from read_loop_agree [OF assms, of "[]"] obtain gs e r s where
      l: "read_loop [] (rd (rw c)) = (gs, e, r)" "read_loop [] (rd (rw d)) = (gs, e, s)" "agree r s"
    by blast
  have rd_check: "rd (rw (fst (checkIO e (set_rd q b)))) = q" for q b
    by (cases e) (simp_all add: checkIO_def conn_simps)
  have "fst (conn_read b) = empty_msg\<lparr>Frames := gs, msg_err := e\<rparr> \<and>
        rd (rw (fst (snd (conn_read b)))) = q" if "read_loop [] (rd (rw b)) = (gs, e, q)" for b q
    using that rd_check [of q b] by (auto simp: conn_read_set_rd split: prod.splits)
  from this [OF l(1)] this [OF l(2)] l(3) show ?thesis by simp
qed

theorem chunking_irrelevant_witness:
  "fst (conn_read (new_conn \<lparr>chunks = [[0], [0, 0, 0], [], [2, 4], [2]], rd_end = EOF\<rparr>
                             \<lparr>wr_script = [], written = []\<rparr>))
   = fst (conn_read (new_conn \<lparr>chunks = [[0, 0, 0, 0, 2, 4, 2]], rd_end = EOF\<rparr>
                             \<lparr>wr_script = [], written = []\<rparr>))"
  by (rule chunking_irrelevant [THEN conjunct1]) (simp add: agree_def new_conn_def content_def)

text \<open>
  A message packed into a datagram is unpacked unchanged, whatever bytes follow it.
\<close>

theorem datagram_roundtrip:
  assumes "encodable (Frames m)"
  shows "deserializeMsgDatagram (serializeMsgDatagram m @ q) = (NewMsgFrom (Frames m), None)"
  using deserialize_loop_frames_wire [OF assms, of "bytes_NewReader (frames_wire (Frames m) @ q)" q "[]"]
  by (auto simp: deserializeMsgDatagram_def serializeMsgDatagram_wire NewMsgFrom_def)

theorem datagram_roundtrip_witness:
  "deserializeMsgDatagram [1, 0, 0, 0, 1, 7, 0, 0, 0, 0, 0, 66] = (NewMsgFrom [[7], []], None)"
proof -
  have "serializeMsgDatagram (NewMsgFrom [[7], []]) = [1, 0, 0, 0, 1, 7, 0, 0, 0, 0, 0]" by code_simp
  with datagram_roundtrip [of "NewMsgFrom [[7], []]" "[66]"] show ?thesis
    by (simp add: encodable_def)
qed

text \<open>
  The datagram decoder and the stream decoder agree on every byte string: one rejects it
  when the other does, and otherwise they produce the same frames.
\<close>

theorem datagram_stream_equivalent:
  assumes "rd_end (rd (rw c)) = EOF"
  shows "case deserializeMsgDatagram (inp c) of
           (m, None) \<Rightarrow> fst (conn_read c) = m
         | (m, Some _) \<Rightarrow> Frames (fst (conn_read c)) = Frames m \<and> msg_err (fst (conn_read c)) \<noteq> None"
proof -
  from assms have "agree (rd (rw c)) (bytes_NewReader (inp c))" by (simp add: agree_def)
  from deserialize_loop_read_loop [OF this, of "[]"] show ?thesis
    by (auto simp: deserializeMsgDatagram_def conn_read_set_rd checkIO_def empty_msg_def
        split: prod.splits option.splits)
qed

theorem datagram_stream_equivalent_witness:
  "fst (conn_read (new_conn (bytes_NewReader [0, 0, 0, 0, 1, 7]) \<lparr>wr_script = [], written = []\<rparr>))
     = fst (deserializeMsgDatagram [0, 0, 0, 0, 1, 7])"
proof -
  let ?c = "new_conn (bytes_NewReader [0, 0, 0, 0, 1, 7]) \<lparr>wr_script = [], written = []\<rparr>"
  have "snd (deserializeMsgDatagram (inp ?c)) = None" by code_simp
  moreover have "rd_end (rd (rw ?c)) = EOF" by (simp add: new_conn_def)
  ultimately show ?thesis
    using datagram_stream_equivalent [of ?c] by (auto simp: new_conn_def split: prod.splits)
qed

text \<open>
  C34: A subscription command is the same bytes whether it is written by a datagram subscriber
  or sent as a message on a stream, and reading it as a command gives back its topic and
  whether it subscribes.
\<close>

theorem subcmd_roundtrip:
  assumes "length topic < 2 ^ 32 - 1"
    and "\<not> Closed c" and "healthy (wr (rw c))"
    and "SendMsg (NewMsg (subcmd_payload sub topic)) c = (e, c', fired)"
    and "content r = subcmd_frame sub topic @ q"
  shows "e = None \<and> out c' = out c @ written (snd (writeSubCmd \<lparr>wr_script = [], written = []\<rparr> sub topic))
         \<and> fst (readSubCmd r) = Inr (sub, topic) \<and> content (snd (readSubCmd r)) = q"
proof -
  from readSubCmd_frame [OF assms(5,1)] obtain r' where
    "readSubCmd r = (Inr (sub, topic), r')" "content r' = q" by blast
  moreover from SendMsg_healthy [OF assms(2,3), of "NewMsg (subcmd_payload sub topic)"] assms(4)
  have "e = None \<and> out c' = out c @ subcmd_frame sub topic"
    by (auto simp: subcmd_frame_wire)
  ultimately show ?thesis by (simp add: writeSubCmd_def writer_Write_def)
qed

theorem subcmd_roundtrip_witness:
  "fst (readSubCmd (bytes_NewReader (subcmd_frame True ''ab''))) = Inr (True, ''ab'')"
proof -
  let ?c = "new_conn (bytes_NewReader []) \<lparr>wr_script = [], written = []\<rparr>"
  show ?thesis
    using subcmd_roundtrip [of "''ab''" ?c True _ _ _ "bytes_NewReader (subcmd_frame True ''ab'')" "[]"]
    by (cases "SendMsg (NewMsg (subcmd_payload True ''ab'')) ?c")
      (simp add: new_conn_def Closed_def healthy_def)
qed

text \<open>
  The wire format is unambiguous: two sequences of encodable messages that make the same
  bytes have the same frames, message by message.
\<close>

theorem wire_unambiguous:
  assumes "list_all (\<lambda>m. encodable (Frames m)) ms" and "list_all (\<lambda>m. encodable (Frames m)) ns"
    and "concat (map serializeMsgDatagram ms) = concat (map serializeMsgDatagram ns)"
  shows "map Frames ms = map Frames ns"
  by (rule stream.concat_enc_inj)
    (use assms in \<open>simp_all add: list_all_iff serializeMsgDatagram_wire [abs_def] comp_def\<close>)

theorem wire_unambiguous_witness:
  "map Frames [NewMsg [3, 1], NewMsgFrom [[], [4]]] = map Frames [NewMsgString [char_of_byte 3, char_of_byte 1], NewMsgFrom [[], [4]]]"
  by (rule wire_unambiguous)
    (simp_all add: encodable_def NewMsgString_def bytes_of_string_def)

text \<open>
  C13: \<^verbatim>\<open>SendMsg\<close> has three outcomes. On a connection marked closed it writes nothing and
  returns \<^verbatim>\<open>ErrClosedConn\<close>; otherwise it either writes the whole message and changes
  nothing else, or returns an error after writing a first part of it, and then the connection
  is closed and its callback has run.
\<close>

theorem SendMsg_outcomes:
  assumes "closed c \<in> {0, 1}" and "SendMsg m c = (e, c', fired)"
  shows "if Closed c then e = Some ErrClosedConn \<and> c' = c \<and> \<not> fired
         else case e of
             None \<Rightarrow> (\<exists>w. c' = set_wr w c) \<and> out c' = out c @ frames_wire (Frames m) \<and> \<not> fired
           | Some _ \<Rightarrow> Closed c' \<and> fired = onCloseErrorCB c \<and>
               (\<exists>p. out c' = out c @ p \<and> prefix p (frames_wire (Frames m)))"
proof (cases "Closed c")
  case True
  with assms(2) show ?thesis by (simp add: SendMsg_closed)
next
  case False
  with assms(1) have "closed c = 0" by (auto simp: Closed_def)
  with False assms(2) SendMsg_ok [of m c c' fired] SendMsg_fail [of m c _ c' fired] show ?thesis
    by (cases e) (auto simp: Closed_def)
qed

theorem SendMsg_outcomes_witness:
  "Closed (fst (snd (SendMsg (NewMsg [7]) (new_conn (bytes_NewReader [])
       \<lparr>wr_script = [WOk, WFail 2 EOF], written = []\<rparr>))))"
proof -
  let ?c = "new_conn (bytes_NewReader []) \<lparr>wr_script = [WOk, WFail 2 EOF], written = []\<rparr>"
  have "fst (SendMsg (NewMsg [7]) ?c) \<noteq> None" by code_simp
  moreover have "closed ?c \<in> {0, 1}" "\<not> Closed ?c" by (simp_all add: new_conn_def Closed_def)
  ultimately show ?thesis
    using SendMsg_outcomes [of ?c "NewMsg [7]"]
    by (cases "SendMsg (NewMsg [7]) ?c") (auto split: option.splits)
qed

text \<open>
  Whatever sends, reads and closes a connection goes through, its close callback runs at
  most once, and it has run exactly when the connection has a callback and is marked closed.
\<close>

theorem callback_once:
  assumes "closed c = 0" and "conn_run as c = (c', n)"
  shows "n = (if onCloseErrorCB c \<and> Closed c' then 1 else 0)"
  using conn_run_callback [OF assms] by (auto simp: Closed_def)

theorem callback_once_witness:
  "snd (conn_run [OpSend (NewMsg [7]), OpRead, OpSetClosed, OpClose]
     (new_conn (bytes_NewReader []) \<lparr>wr_script = [WOk, WFail 2 EOF], written = []\<rparr>)) = 1"
proof -
  let ?c = "new_conn (bytes_NewReader []) \<lparr>wr_script = [WOk, WFail 2 EOF], written = []\<rparr>"
  let ?as = "[OpSend (NewMsg [7]), OpRead, OpSetClosed, OpClose]"
  have "Closed (fst (conn_run ?as ?c))" by code_simp
  moreover have "onCloseErrorCB ?c" "closed ?c = 0" by (simp_all add: new_conn_def)
  ultimately show ?thesis
    using callback_once [of ?c ?as] by (cases "conn_run ?as ?c") simp
qed



end
