(* ===== verification/Pools.thy ===== *)
theory Pools
  imports Connection
begin

text \<open>
  \<^verbatim>\<open>msgio.go\<close>: the pools of connections that sockets read from and write to. The interface
  of \<^verbatim>\<open>rpool\<close> and \<^verbatim>\<open>wpool\<close> is the locale \<open>conn_pool\<close>; this theory holds the two pools of
  \<^verbatim>\<open>msgio.go\<close>, the queued reader and the multi-connection writer, and the readiness gate.
\<close>

section \<open>The interface\<close>

text \<open>
  \<^verbatim>\<open>addConn\<close> and \<^verbatim>\<open>rmConn\<close> as the sockets rely on them. A connection is added once, when it
  has just been made, so the laws need to hold for fresh and distinct members only.
\<close>

locale conn_pool =
  fixes addConn :: "conn_id \<Rightarrow> 'p \<Rightarrow> 'p"
    and rmConn :: "conn_id \<Rightarrow> 'p \<Rightarrow> 'p"
    and members :: "'p \<Rightarrow> conn_id list"
  assumes members_add: "c \<notin> set (members p) \<Longrightarrow> members (addConn c p) = members p @ [c]"
    and members_rm: "distinct (members p) \<Longrightarrow> members (rmConn c p) = remove1 c (members p)"
begin

lemma distinct_add: "distinct (members p) \<Longrightarrow> c \<notin> set (members p) \<Longrightarrow> distinct (members (addConn c p))"
  by (simp add: members_add)

lemma distinct_rm: "distinct (members p) \<Longrightarrow> distinct (members (rmConn c p))"
  by (simp add: members_rm distinct_remove1)

lemma set_rm: "distinct (members p) \<Longrightarrow> set (members (rmConn c p)) = set (members p) - {c}"
  by (simp add: members_rm)

lemma rm_add: "distinct (members p) \<Longrightarrow> c \<notin> set (members p) \<Longrightarrow> members (rmConn c (addConn c p)) = members p"
  by (simp add: members_add members_rm remove1_append remove1_idem)

lemma rm_absent: "distinct (members p) \<Longrightarrow> c \<notin> set (members p) \<Longrightarrow> members (rmConn c p) = members p"
  by (simp add: members_rm remove1_idem)

lemma rm_twice: "distinct (members p) \<Longrightarrow> members (rmConn c (rmConn c p)) = members (rmConn c p)"
  by (simp add: members_rm distinct_remove1 remove1_idem)

end

section \<open>Removing a connection from a slice\<close>

text \<open>
  The loop every pool runs: \<^verbatim>\<open>cur := -1\<close>, the index of the first match if there is one, and
  the slice without that element.
\<close>

fun find_loop :: "'a list \<Rightarrow> nat \<Rightarrow> 'a \<Rightarrow> int" where
  "find_loop [] i x = -1"
| "find_loop (y # ys) i x = (if y = x then int i else find_loop ys (Suc i) x)"

definition rm_from :: "'a \<Rightarrow> 'a list \<Rightarrow> 'a list" where
  "rm_from x xs =
     (let cur = find_loop xs 0 x in
      if cur \<ge> 0 then take (nat cur) xs @ drop (nat cur + 1) xs else xs)"

lemma find_loop_offset:
  "find_loop xs i x = (if x \<in> set xs then int i + find_loop xs 0 x else -1)"
proof (induction xs arbitrary: i)
  case Nil
  then show ?case by simp
next
  case (Cons y ys)
  from Cons [of "Suc i"] Cons [of "Suc 0"] show ?case by auto
qed

lemma find_loop_nonneg: "find_loop xs 0 x \<ge> 0 \<longleftrightarrow> x \<in> set xs"
proof (induction xs)
  case Nil
  then show ?case by simp
next
  case (Cons y ys)
  then show ?case using find_loop_offset [of ys "Suc 0" x] by auto
qed

lemma rm_from_remove1 [pool_simps]: "rm_from x xs = remove1 x xs"
proof (induction xs)
  case Nil
  then show ?case by (simp add: rm_from_def)
next
  case (Cons y ys)
  show ?case
  proof (cases "y = x")
    case True
    then show ?thesis by (simp add: rm_from_def)
  next
    case False
    let ?f = "find_loop ys 0 x"
    have f: "find_loop (y # ys) 0 x = (if x \<in> set ys then 1 + ?f else -1)"
      using False find_loop_offset [of ys "Suc 0" x] by simp
    show ?thesis
    proof (cases "x \<in> set ys")
      case True
      then have "?f \<ge> 0" by (simp add: find_loop_nonneg)
      then have "nat (1 + ?f) = Suc (nat ?f)" by simp
      with Cons f False True \<open>?f \<ge> 0\<close> show ?thesis by (simp add: rm_from_def Let_def)
    next
      case absent: False
      with f False show ?thesis by (simp add: rm_from_def remove1_idem)
    qed
  qed
qed

section \<open>Closing every connection of a slice\<close>

text \<open>The loop of every \<^verbatim>\<open>Close\<close>: all connections are closed, the first error is returned.\<close>

fun close_all :: "conn_id list \<Rightarrow> go_error option \<Rightarrow> store \<Rightarrow> go_error option \<times> store" where
  "close_all [] err st = (err, st)"
| "close_all (r # rs) err st =
     (case st_Close r st of (e, st') \<Rightarrow> close_all rs (first_err err e) st')"

text \<open>How often a connection has been closed.\<close>

abbreviation closes :: "store \<Rightarrow> conn_id \<Rightarrow> nat" where
  "closes st i \<equiv> close_calls (rw (cells st i))"

lemma st_Close_spec:
  "st_Close i st = (e, st') \<Longrightarrow>
     e = close_result (rw (cells st i)) \<and> notified st' = notified st \<and>
     closes st' j = (if j = i then Suc (closes st j) else closes st j) \<and>
     close_result (rw (cells st' j)) = close_result (rw (cells st j))"
  by (auto simp: st_Close_def on_cell_def Close_def)

lemma close_all_spec:
  "distinct rs \<Longrightarrow> close_all rs err st = (e, st') \<Longrightarrow>
     closes st' j = (if j \<in> set rs then Suc (closes st j) else closes st j) \<and>
     notified st' = notified st \<and>
     e = (if err \<noteq> None then err
          else case filter (\<lambda>i. close_result (rw (cells st i)) \<noteq> None) rs of
                 [] \<Rightarrow> None | i # _ \<Rightarrow> close_result (rw (cells st i)))"
proof (induction rs arbitrary: err st)
  case Nil
  then show ?case by simp
next
  case (Cons r rs)
  from Cons.prems(2) obtain e1 st1 where c: "st_Close r st = (e1, st1)"
      "close_all rs (first_err err e1) st1 = (e, st')"
    by (auto split: prod.splits)
  note s = st_Close_spec [OF c(1)]
  have eq: "(\<lambda>i. close_result (rw (cells st1 i))) = (\<lambda>i. close_result (rw (cells st i)))"
    using s by auto
  from Cons.IH [OF _ c(2)] Cons.prems(1) s show ?case
    by (auto simp: fun_cong [OF eq] first_err_def split: list.splits)
qed

section \<open>The readiness gate\<close>

text \<open>
  A \<^verbatim>\<open>semaphore\<close> is a channel on which nothing is ever sent; it is closed once the first
  connection is there, and from then on every receive is ready.
\<close>

type_synonym semaphore = "unit chan"

definition newSemaphore :: semaphore where
  "newSemaphore = make_chan 0"

definition sem_enable :: "semaphore \<Rightarrow> semaphore" where
  "sem_enable sem =
     (case chan_recv sem of
        Received _ sem' \<Rightarrow> chan_close sem'
      | ChanClosed \<Rightarrow> sem
      | RecvBlocks \<Rightarrow> chan_close sem)"

text \<open>\<^verbatim>\<open>lock\<close> returns when the context is done or the gate is open; otherwise it waits.\<close>

definition sem_lock_ready :: "ctx \<Rightarrow> semaphore \<Rightarrow> bool" where
  "sem_lock_ready c sem = (c \<noteq> None \<or> chan_recv sem \<noteq> RecvBlocks)"

lemma sem_enable_idem: "buf sem = [] \<Longrightarrow> sem_enable (sem_enable sem) = sem_enable sem"
  by (simp add: sem_enable_def chan_recv_def chan_close_def split: list.splits)

lemma sem_enable_open: "buf sem = [] \<Longrightarrow> sem_lock_ready c (sem_enable sem)"
  by (simp add: sem_enable_def sem_lock_ready_def chan_recv_def chan_close_def split: list.splits)

lemma newSemaphore_waits: "sem_lock_ready c newSemaphore \<longleftrightarrow> c \<noteq> None"
  by (simp add: newSemaphore_def sem_lock_ready_def chan_recv_def make_chan_def)

section \<open>The queued reader\<close>

text \<open>
  \<open>listeners\<close> are the goroutines \<^verbatim>\<open>go q.listen(q.ctx, r)\<close> that \<^verbatim>\<open>addConn\<close> has started and that
  have not returned.
\<close>

record qreader =
  rs :: "conn_id list"
  qc :: "msg chan"
  qsem :: semaphore
  listeners :: "conn_id list"

definition newQReader :: qreader where
  "newQReader = \<lparr>rs = [], qc = make_chan 10, qsem = newSemaphore, listeners = []\<rparr>"

definition qreader_Close :: "qreader \<times> store \<Rightarrow> go_error option \<times> qreader \<times> store" where
  "qreader_Close = (\<lambda>(q, st). case close_all (rs q) None st of (e, st') \<Rightarrow> (e, q\<lparr>rs := []\<rparr>, st'))"

definition qreader_addConn :: "conn_id \<Rightarrow> qreader \<Rightarrow> qreader" where
  "qreader_addConn r q =
     q\<lparr>qsem := sem_enable (qsem q), rs := rs q @ [r], listeners := listeners q @ [r]\<rparr>"

definition qreader_rmConn :: "conn_id \<Rightarrow> qreader \<Rightarrow> qreader" where
  "qreader_rmConn r q = q\<lparr>rs := rm_from r (rs q)\<rparr>"

text \<open>
  \<^verbatim>\<open>read\<close>, first through the gate, then a \<^verbatim>\<open>select\<close>. The results are the error and what is
  stored in \<^verbatim>\<open>*msg\<close>.
\<close>

definition qreader_read ::
    "nat \<Rightarrow> ctx \<Rightarrow> qreader \<Rightarrow> (go_error option \<times> msg \<times> qreader) blocking" where
  "qreader_read pick c q =
     (if \<not> sem_lock_ready c (qsem q) then Waits
      else go_select pick
             [case_done c (\<lambda>e. (Some e, empty_msg, q)),
              case_recv (qc q) (\<lambda>m ch. (msg_err m, m, q\<lparr>qc := ch\<rparr>))])"

text \<open>What the deferred calls of \<^verbatim>\<open>listen\<close> do: close the connection, then leave the pool.\<close>

definition qreader_leave :: "conn_id \<Rightarrow> qreader \<times> store \<Rightarrow> qreader \<times> store" where
  "qreader_leave r = (\<lambda>(q, st).
     case st_Close r st of (_, st') \<Rightarrow>
       ((qreader_rmConn r q)\<lparr>listeners := rm_from r (listeners q)\<rparr>, st'))"

text \<open>
  One round of the loop of \<^verbatim>\<open>listen\<close>: read a message and queue it, an error included; leave on
  an error or when the context is done. While the queue is full the goroutine waits.
\<close>

definition qreader_listen :: "ctx \<Rightarrow> conn_id \<Rightarrow> qreader \<times> store \<Rightarrow> (qreader \<times> store) blocking" where
  "qreader_listen c r = (\<lambda>(q, st).
     case st_read r st of (m, st1) \<Rightarrow>
       if c \<noteq> None then Returns (qreader_leave r (q, st1))
       else case chan_send m (qc q) of
           Sent ch \<Rightarrow>
             (let q1 = q\<lparr>qc := ch\<rparr> in
              Returns (if msg_err m \<noteq> None then qreader_leave r (q1, st1) else (q1, st1)))
         | _ \<Rightarrow> Waits)"

interpretation qreader_pool: conn_pool qreader_addConn qreader_rmConn rs
  by unfold_locales (simp_all add: qreader_addConn_def qreader_rmConn_def rm_from_remove1)

section \<open>The multi-connection writer\<close>

record mwriter =
  ws :: "conn_id list"
  wsem :: semaphore

definition newMWriter :: mwriter where
  "newMWriter = \<lparr>ws = [], wsem = newSemaphore\<rparr>"

definition mwriter_Close :: "mwriter \<times> store \<Rightarrow> go_error option \<times> mwriter \<times> store" where
  "mwriter_Close = (\<lambda>(w, st). case close_all (ws w) None st of (e, st') \<Rightarrow> (e, w\<lparr>ws := []\<rparr>, st'))"

definition mwriter_addConn :: "conn_id \<Rightarrow> mwriter \<Rightarrow> mwriter" where
  "mwriter_addConn c w = w\<lparr>wsem := sem_enable (wsem w), ws := ws w @ [c]\<rparr>"

definition mwriter_rmConn :: "conn_id \<Rightarrow> mwriter \<Rightarrow> mwriter" where
  "mwriter_rmConn c w = w\<lparr>ws := rm_from c (ws w)\<rparr>"

fun mwriter_write_loop ::
    "msg \<Rightarrow> conn_id list \<Rightarrow> go_error option \<Rightarrow> store \<Rightarrow> go_error option \<times> store" where
  "mwriter_write_loop m [] firstErr st = (firstErr, st)"
| "mwriter_write_loop m (w # ws1) firstErr st =
     (case st_SendMsg m w st of
        (e, st') \<Rightarrow> mwriter_write_loop m ws1 (first_err firstErr e) st')"

definition mwriter_write :: "ctx \<Rightarrow> msg \<Rightarrow> mwriter \<Rightarrow> store \<Rightarrow> (go_error option \<times> store) blocking" where
  "mwriter_write c m w st =
     (if \<not> sem_lock_ready c (wsem w) then Waits
      else Returns (mwriter_write_loop m (ws w) None st))"

interpretation mwriter_pool: conn_pool mwriter_addConn mwriter_rmConn ws
  by unfold_locales (simp_all add: mwriter_addConn_def mwriter_rmConn_def rm_from_remove1)

section \<open>Lemmas on the writer\<close>

lemma mwriter_write_loop_other:
  "mwriter_write_loop m ws1 err st = (e, st') \<Longrightarrow> i \<notin> set ws1 \<Longrightarrow> cells st' i = cells st i"
proof (induction ws1 arbitrary: err st)
  case Nil
  then show ?case by simp
next
  case (Cons w ws1)
  from Cons.prems(1) obtain e1 st1 where s: "st_SendMsg m w st = (e1, st1)"
      "mwriter_write_loop m ws1 (first_err err e1) st1 = (e, st')"
    by (auto split: prod.splits)
  from Cons.IH [OF s(2)] Cons.prems(2) on_cell_other [OF s(1) [unfolded st_SendMsg_def]]
  show ?case by simp
qed

text \<open>
  Each connection of the pool is sent the message exactly as a single \<^verbatim>\<open>SendMsg\<close> would, whatever
  happens to the others, and the error is that of the first one that fails.
\<close>

lemma mwriter_write_loop_spec:
  "distinct ws1 \<Longrightarrow> mwriter_write_loop m ws1 err st = (e, st') \<Longrightarrow>
     (\<forall>i \<in> set ws1. cells st' i = fst (snd (SendMsg m (cells st i)))) \<and>
     e = (if err \<noteq> None then err
          else case filter (\<lambda>i. fst (SendMsg m (cells st i)) \<noteq> None) ws1 of
                 [] \<Rightarrow> None | i # _ \<Rightarrow> fst (SendMsg m (cells st i)))"
proof (induction ws1 arbitrary: err st)
  case Nil
  then show ?case by simp
next
  case (Cons w ws1)
  from Cons.prems(2) obtain e1 st1 where s: "st_SendMsg m w st = (e1, st1)"
      "mwriter_write_loop m ws1 (first_err err e1) st1 = (e, st')"
    by (auto split: prod.splits)
  note same = on_cell_same [OF s(1) [unfolded st_SendMsg_def]]
  have other: "cells st1 i = cells st i" if "i \<in> set ws1" for i
    using on_cell_other [OF s(1) [unfolded st_SendMsg_def], of i] Cons.prems(1) that by auto
  have "filter (\<lambda>i. fst (SendMsg m (cells st1 i)) \<noteq> None) ws1
        = filter (\<lambda>i. fst (SendMsg m (cells st i)) \<noteq> None) ws1"
    using other by (auto intro: filter_cong)
  moreover have "cells st' w = cells st1 w"
    using mwriter_write_loop_other [OF s(2)] Cons.prems(1) by simp
  moreover have "fst (SendMsg m (cells st1 i)) = fst (SendMsg m (cells st i))" if "i \<in> set ws1" for i
    using other [OF that] by simp
  ultimately show ?case
    using Cons.IH [OF _ s(2)] Cons.prems(1) same other
    by (auto simp: first_err_def split: list.splits dest!: filter_eq_ConsD)
qed

section \<open>Properties\<close>

text \<open>
  The multi-connection writer sends to every connection of the pool, whatever becomes of
  the others: each ends as if it had been sent the message alone, the error returned is that of
  the first connection that fails, and connections outside the pool are not touched.
\<close>

theorem mwriter_write_broadcast:
  assumes "distinct (ws w)" and "mwriter_write c m w st = Returns (e, st')"
  shows "(\<forall>i. cells st' i = (if i \<in> set (ws w) then fst (snd (SendMsg m (cells st i))) else cells st i))
         \<and> e = (case filter (\<lambda>i. fst (SendMsg m (cells st i)) \<noteq> None) (ws w) of
                  [] \<Rightarrow> None | i # _ \<Rightarrow> fst (SendMsg m (cells st i)))"
proof -
  from assms(2) have loop: "mwriter_write_loop m (ws w) None st = (e, st')"
    by (auto simp: mwriter_write_def split: if_splits)
  from mwriter_write_loop_spec [OF assms(1) loop] mwriter_write_loop_other [OF loop] show ?thesis
    by simp
qed

theorem mwriter_write_broadcast_witness:
  "out (cells (snd (mwriter_write_loop (NewMsg [7]) [1, 2] None
       \<lparr>cells = (\<lambda>i. new_conn (bytes_NewReader []) \<lparr>wr_script = (if i = 1 then [WFail 0 EOF] else []),
                                                    written = []\<rparr>), notified = []\<rparr>)) 2)
     = [0, 0, 0, 0, 1, 7]"
proof -
  let ?st = "\<lparr>cells = (\<lambda>i. new_conn (bytes_NewReader []) \<lparr>wr_script = (if i = 1 then [WFail 0 EOF] else []),
                                                    written = []\<rparr>), notified = []\<rparr>"
  let ?w = "mwriter_addConn 2 (mwriter_addConn 1 newMWriter)"
  let ?r = "mwriter_write_loop (NewMsg [7]) [1, 2] None ?st"
  have ws: "ws ?w = [1, 2]" by (simp add: mwriter_addConn_def newMWriter_def)
  have "mwriter_write None (NewMsg [7]) ?w ?st = Returns (fst ?r, snd ?r)"
    using ws by (simp add: mwriter_write_def mwriter_addConn_def sem_enable_open newMWriter_def
        newSemaphore_def make_chan_def sem_enable_def sem_lock_ready_def chan_recv_def chan_close_def)
  from mwriter_write_broadcast [OF _ this] ws
  have "cells (snd ?r) 2 = fst (snd (SendMsg (NewMsg [7]) (cells ?st 2)))" by simp
  moreover have "out (fst (snd (SendMsg (NewMsg [7]) (cells ?st 2)))) = [0, 0, 0, 0, 1, 7]"
    by code_simp
  ultimately show ?thesis by simp
qed

text \<open>
  \<^verbatim>\<open>Send\<close> on a socket with the multi-connection writer and no connection yet waits for
  one; when its deadline expires first, the message is written nowhere and the call returns no
  error.
\<close>

theorem mwriter_deadline_silent:
  "mwriter_write None m newMWriter st = Waits \<and>
   mwriter_write (Some CtxDeadlineExceeded) m newMWriter st = Returns (None, st)"
  by (simp add: mwriter_write_def newMWriter_def newSemaphore_waits)

text \<open>
  Closing a reader or writer pool closes each of its connections exactly once and no
  other, empties the pool, and returns the first error that closing a connection gave.
\<close>

theorem pools_Close:
  assumes "distinct (rs q)" and "distinct (ws w)"
    and "qreader_Close (q, st) = (e, q', st')" and "mwriter_Close (w, st) = (e2, w', st2)"
  shows "rs q' = [] \<and> ws w' = []
    \<and> closes st' i = closes st i + (if i \<in> set (rs q) then 1 else 0)
    \<and> closes st2 i = closes st i + (if i \<in> set (ws w) then 1 else 0)
    \<and> e = (case filter (\<lambda>i. close_result (rw (cells st i)) \<noteq> None) (rs q) of
             [] \<Rightarrow> None | i # _ \<Rightarrow> close_result (rw (cells st i)))
    \<and> e2 = (case filter (\<lambda>i. close_result (rw (cells st i)) \<noteq> None) (ws w) of
             [] \<Rightarrow> None | i # _ \<Rightarrow> close_result (rw (cells st i)))"
proof -
  from assms(3) have q: "close_all (rs q) None st = (e, st')" "rs q' = []"
    by (auto simp: qreader_Close_def split: prod.splits)
  from assms(4) have w: "close_all (ws w) None st = (e2, st2)" "ws w' = []"
    by (auto simp: mwriter_Close_def split: prod.splits)
  from close_all_spec [OF assms(1) q(1)] close_all_spec [OF assms(2) w(1)] q(2) w(2)
  show ?thesis by simp
qed

theorem pools_Close_witness:
  "closes (snd (snd (qreader_Close (qreader_addConn 4 newQReader, fresh_store)))) 4 = 1"
proof -
  let ?q = "qreader_addConn 4 newQReader"
  let ?w = "mwriter_addConn 4 newMWriter"
  have "rs ?q = [4]" "ws ?w = [4]"
    by (simp_all add: qreader_addConn_def newQReader_def mwriter_addConn_def newMWriter_def)
  moreover have "closes fresh_store 4 = 0" by (simp add: fresh_store_def new_conn_def)
  moreover obtain e q' st' where a: "qreader_Close (?q, fresh_store) = (e, q', st')"
    by (metis surj_pair)
  moreover obtain e2 w' st2 where b: "mwriter_Close (?w, fresh_store) = (e2, w', st2)"
    by (metis surj_pair)
  ultimately show ?thesis
    using pools_Close [OF _ _ a b, of 4] by simp
qed

end
