(* ===== verification/ReqSocket.thy ===== *)
theory ReqSocket
  imports Pools
begin

text \<open>
  \<^verbatim>\<open>req.go\<close>: the REQ socket. Its state machine, the round-robin writer with the empty
  delimiter frame, the reader that reads the reply from the connection the request went to, and
  the calls \<^verbatim>\<open>Send\<close>, \<^verbatim>\<open>SendMulti\<close> and \<^verbatim>\<open>Recv\<close>; then the socket as a transition system in which
  the application's calls interleave with connections coming and going.
\<close>

section \<open>The state machine\<close>

record reqState =
  lastConn :: "conn_id option"
  readyToReq :: bool

definition beginRequest :: "reqState \<Rightarrow> go_error option \<times> reqState" where
  "beginRequest s =
     (if \<not> readyToReq s
      then (Some (Errorf ''quicmq: REQ socket: there is a pending request, call Recv() first'' []), s)
      else (None, s\<lparr>readyToReq := False\<rparr>))"

definition abortRequest :: "reqState \<Rightarrow> reqState" where
  "abortRequest s = s\<lparr>readyToReq := True, lastConn := None\<rparr>"

definition beforeRecv :: "reqState \<Rightarrow> go_error option" where
  "beforeRecv s =
     (if readyToReq s
      then Some (Errorf ''quicmq: REQ socket: can't call Recv() without a pending request, call Send() first'' [])
      else None)"

definition finishRequest :: "reqState \<Rightarrow> reqState" where
  "finishRequest s = s\<lparr>readyToReq := True, lastConn := None\<rparr>"

definition reqState_set :: "conn_id \<Rightarrow> reqState \<Rightarrow> reqState" where
  "reqState_set c s = s\<lparr>lastConn := Some c\<rparr>"

definition reqState_reset :: "conn_id \<Rightarrow> reqState \<Rightarrow> reqState" where
  "reqState_reset c s =
     (if lastConn s = Some c then s\<lparr>lastConn := None, readyToReq := True\<rparr> else s)"

definition reqState_get :: "reqState \<Rightarrow> conn_id option" where
  "reqState_get s = lastConn s"

lemmas reqState_defs =
  beginRequest_def abortRequest_def beforeRecv_def finishRequest_def reqState_set_def
  reqState_reset_def reqState_get_def

section \<open>The writer\<close>

record reqWriter =
  wconns :: "conn_id list"
  nextConn :: nat

definition newReqWriter :: reqWriter where
  "newReqWriter = \<lparr>wconns = [], nextConn = 0\<rparr>"

text \<open>The writer, the state it shares with the reader, and the store.\<close>

record req_pools =
  qstate :: reqState
  qwriter :: reqWriter
  qstore :: store

definition reqWriter_Close :: "req_pools \<Rightarrow> go_error option \<times> req_pools" where
  "reqWriter_Close p =
     (case close_all (wconns (qwriter p)) None (qstore p) of
        (e, st) \<Rightarrow> (e, p\<lparr>qwriter := (qwriter p)\<lparr>wconns := []\<rparr>, qstore := st\<rparr>))"

definition reqWriter_addConn :: "conn_id \<Rightarrow> req_pools \<Rightarrow> req_pools" where
  "reqWriter_addConn c p = p\<lparr>qwriter := (qwriter p)\<lparr>wconns := wconns (qwriter p) @ [c]\<rparr>\<rparr>"

definition reqWriter_rmConn :: "conn_id \<Rightarrow> req_pools \<Rightarrow> req_pools" where
  "reqWriter_rmConn c p =
     p\<lparr>qwriter := (qwriter p)\<lparr>wconns := rm_from c (wconns (qwriter p))\<rparr>,
       qstate := reqState_reset c (qstate p)\<rparr>"

text \<open>
  The loop of \<^verbatim>\<open>write\<close> over the remaining values of \<^verbatim>\<open>i\<close>: the position of the connection that
  took the message, or the last error.
\<close>

fun req_write_loop ::
    "msg \<Rightarrow> reqWriter \<Rightarrow> nat list \<Rightarrow> go_error option \<Rightarrow> store \<Rightarrow> (go_error option + nat) \<times> store" where
  "req_write_loop m w [] err st = (Inl err, st)"
| "req_write_loop m w (i # is) err st =
     (let cur = (i + nextConn w) mod length (wconns w) in
      case st_SendMsg m (wconns w ! cur) st of
        (None, st') \<Rightarrow> (Inr cur, st')
      | (Some e, st') \<Rightarrow> req_write_loop m w is (Some e) st')"

text \<open>The empty delimiter frame in front of a message.\<close>

abbreviation enveloped :: "msg \<Rightarrow> msg" where
  "enveloped m \<equiv> m\<lparr>Frames := [[]] @ Frames m\<rparr>"

definition reqWriter_write :: "msg \<Rightarrow> req_pools \<Rightarrow> go_error option \<times> req_pools" where
  "reqWriter_write m0 p =
     (let m = enveloped m0; w = qwriter p in
      if length (wconns w) = 0
      then (Some (Errorf ''quicmq: REQ write: no connections available'' []), p)
      else case req_write_loop m w [0..<length (wconns w)] None (qstore p) of
          (Inr cur, st) \<Rightarrow>
            (None, p\<lparr>qwriter := w\<lparr>nextConn := (cur + 1) mod length (wconns w)\<rparr>,
                     qstate := reqState_set (wconns w ! cur) (qstate p), qstore := st\<rparr>)
        | (Inl err, st) \<Rightarrow>
            (Some (Wrapf ''quicmq: REQ write: all connections failed: %w'' []
                     (case err of Some e \<Rightarrow> e | None \<Rightarrow> Errorf ''<nil>'' [])), p\<lparr>qstore := st\<rparr>))"

section \<open>The reader\<close>

definition reqReader_read :: "req_pools \<Rightarrow> go_error option \<times> msg \<times> req_pools" where
  "reqReader_read p =
     (case reqState_get (qstate p) of
        None \<Rightarrow> (Some (Errorf ''quicmq: REQ read: no connection (send a request first)'' []),
                 empty_msg, p)
      | Some c \<Rightarrow>
          (case st_read c (qstore p) of
             (m, st) \<Rightarrow>
               let p' = p\<lparr>qstore := st\<rparr> in
               if msg_err m \<noteq> None then (msg_err m, m, p')
               else if length (Frames m) > 1 \<and> length (Frames m ! 0) = 0
               then (None, m\<lparr>Frames := drop 1 (Frames m)\<rparr>, p')
               else (None, m, p')))"

text \<open>The reader has no pool of its own: it only knows the state it shares with the writer.\<close>

definition reqReader_addConn :: "conn_id \<Rightarrow> req_pools \<Rightarrow> req_pools" where
  "reqReader_addConn c p = p"

definition reqReader_rmConn :: "conn_id \<Rightarrow> req_pools \<Rightarrow> req_pools" where
  "reqReader_rmConn c p = p"

definition reqReader_Close :: "req_pools \<Rightarrow> go_error option \<times> req_pools" where
  "reqReader_Close p = (None, p)"

section \<open>The calls\<close>

definition req_Send :: "msg \<Rightarrow> req_pools \<Rightarrow> go_error option \<times> req_pools" where
  "req_Send m p =
     (case beginRequest (qstate p) of
        (Some e, _) \<Rightarrow> (Some e, p)
      | (None, s) \<Rightarrow>
          (case reqWriter_write m (p\<lparr>qstate := s\<rparr>) of
             (None, p') \<Rightarrow> (None, p')
           | (Some e, p') \<Rightarrow> (Some e, p'\<lparr>qstate := abortRequest (qstate p')\<rparr>)))"

definition req_SendMulti :: "msg \<Rightarrow> req_pools \<Rightarrow> go_error option \<times> req_pools" where
  "req_SendMulti m p =
     (case beginRequest (qstate p) of
        (Some e, _) \<Rightarrow> (Some e, p)
      | (None, s) \<Rightarrow>
          (case reqWriter_write (m\<lparr>multipart := True\<rparr>) (p\<lparr>qstate := s\<rparr>) of
             (None, p') \<Rightarrow> (None, p')
           | (Some e, p') \<Rightarrow> (Some e, p'\<lparr>qstate := abortRequest (qstate p')\<rparr>)))"

definition req_Recv :: "req_pools \<Rightarrow> (msg \<times> go_error option) \<times> req_pools" where
  "req_Recv p =
     (case beforeRecv (qstate p) of
        Some e \<Rightarrow> ((empty_msg, Some e), p)
      | None \<Rightarrow>
          (case reqReader_read p of
             (Some e, m, p') \<Rightarrow> ((m, Some e), p'\<lparr>qstate := abortRequest (qstate p')\<rparr>)
           | (None, m, p') \<Rightarrow> ((m, None), p'\<lparr>qstate := finishRequest (qstate p')\<rparr>)))"

definition newReq_pools :: "store \<Rightarrow> req_pools" where
  "newReq_pools st =
     \<lparr>qstate = \<lparr>lastConn = None, readyToReq = True\<rparr>, qwriter = newReqWriter, qstore = st\<rparr>"

interpretation req_pool: conn_pool reqWriter_addConn reqWriter_rmConn "\<lambda>p. wconns (qwriter p)"
  by unfold_locales (simp_all add: reqWriter_addConn_def reqWriter_rmConn_def rm_from_remove1)

section \<open>Which connection a request goes to\<close>

text \<open>The connections in the order in which \<^verbatim>\<open>write\<close> tries them.\<close>

definition try_order :: "reqWriter \<Rightarrow> conn_id list" where
  "try_order w = map (\<lambda>i. wconns w ! ((i + nextConn w) mod length (wconns w))) [0..<length (wconns w)]"

lemma try_order_rotate: "try_order w = rotate (nextConn w) (wconns w)"
  by (rule nth_equalityI) (auto simp: try_order_def nth_rotate add.commute)

text \<open>
  The loop tries the connections in turn; the ones before the first that takes the message have
  failed, the ones behind it are not touched.
\<close>

lemma req_write_loop_other:
  "req_write_loop m w is err st = (r, st') \<Longrightarrow>
     j \<notin> (\<lambda>i. wconns w ! ((i + nextConn w) mod length (wconns w))) ` set is \<Longrightarrow>
     cells st' j = cells st j"
proof (induction "is" arbitrary: err st)
  case Nil
  then show ?case by simp
next
  case (Cons i "is")
  let ?c = "wconns w ! ((i + nextConn w) mod length (wconns w))"
  obtain e st1 where s: "st_SendMsg m ?c st = (e, st1)" by (cases "st_SendMsg m ?c st") auto
  have "cells st1 j = cells st j"
    using on_cell_other [OF s [unfolded st_SendMsg_def], of j] Cons.prems(2) by auto
  with s Cons.prems Cons.IH [of "Some _" st1] show ?case
    by (cases e) (auto simp: Let_def)
qed

lemma req_write_loop_ok:
  "distinct (map (\<lambda>i. wconns w ! ((i + nextConn w) mod length (wconns w))) is) \<Longrightarrow>
   req_write_loop m w is err st = (Inr cur, st') \<Longrightarrow>
     \<exists>before i after. is = before @ i # after \<and> cur = (i + nextConn w) mod length (wconns w) \<and>
       (\<forall>k \<in> set before.
          fst (SendMsg m (cells st (wconns w ! ((k + nextConn w) mod length (wconns w))))) \<noteq> None) \<and>
       fst (SendMsg m (cells st (wconns w ! cur))) = None \<and>
       cells st' (wconns w ! cur) = fst (snd (SendMsg m (cells st (wconns w ! cur)))) \<and>
       (\<forall>k \<in> set after. cells st' (wconns w ! ((k + nextConn w) mod length (wconns w)))
                         = cells st (wconns w ! ((k + nextConn w) mod length (wconns w))))"
proof (induction "is" arbitrary: err st)
  case Nil
  then show ?case by simp
next
  case (Cons i "is")
  let ?conn = "\<lambda>i. wconns w ! ((i + nextConn w) mod length (wconns w))"
  obtain e st1 where s: "st_SendMsg m (?conn i) st = (e, st1)"
    by (cases "st_SendMsg m (?conn i) st") auto
  note same = on_cell_same [OF s [unfolded st_SendMsg_def]]
  have other: "cells st1 (?conn k) = cells st (?conn k)" if "k \<in> set is" for k
    by (rule on_cell_other [OF s [unfolded st_SendMsg_def] distinct_map_head [OF Cons.prems(1) that]])
  show ?case
  proof (cases e)
    case None
    with Cons.prems(2) s same other show ?thesis
      by (intro exI [of _ "[]"] exI [of _ i] exI [of _ "is"]) (auto simp: Let_def)
  next
    case (Some e1)
    with Cons.prems(2) s have loop: "req_write_loop m w is (Some e1) st1 = (Inr cur, st')"
      by (simp add: Let_def)
    from Cons.IH [OF _ loop] Cons.prems(1) obtain before j after where
        j: "is = before @ j # after" "cur = (j + nextConn w) mod length (wconns w)"
           "\<forall>k \<in> set before. fst (SendMsg m (cells st1 (?conn k))) \<noteq> None"
           "fst (SendMsg m (cells st1 (wconns w ! cur))) = None"
           "cells st' (wconns w ! cur) = fst (snd (SendMsg m (cells st1 (wconns w ! cur))))"
           "\<forall>k \<in> set after. cells st' (?conn k) = cells st1 (?conn k)"
      by auto
    have "cells st1 (wconns w ! cur) = cells st (wconns w ! cur)"
      using other [of j] j(1,2) by simp
    with j other same Some show ?thesis
      by (intro exI [of _ "i # before"] exI [of _ j] exI [of _ after]) auto
  qed
qed

lemma req_write_loop_fail:
  "distinct (map (\<lambda>i. wconns w ! ((i + nextConn w) mod length (wconns w))) is) \<Longrightarrow>
   req_write_loop m w is err st = (Inl e, st') \<Longrightarrow>
     (\<forall>i \<in> set is. fst (SendMsg m (cells st (wconns w ! ((i + nextConn w) mod length (wconns w))))) \<noteq> None)
     \<and> (is \<noteq> [] \<longrightarrow> e \<noteq> None)"
proof (induction "is" arbitrary: err st)
  case Nil
  then show ?case by simp
next
  case (Cons i "is")
  let ?conn = "\<lambda>i. wconns w ! ((i + nextConn w) mod length (wconns w))"
  from Cons.prems(2) obtain e1 st1 where s: "st_SendMsg m (?conn i) st = (Some e1, st1)"
      and loop: "req_write_loop m w is (Some e1) st1 = (Inl e, st')"
    by (auto simp: Let_def split: prod.splits option.splits)
  have other: "cells st1 (?conn k) = cells st (?conn k)" if "k \<in> set is" for k
    by (rule on_cell_other [OF s [unfolded st_SendMsg_def] distinct_map_head [OF Cons.prems(1) that]])
  from Cons.IH [OF _ loop] Cons.prems(1) other on_cell_same [OF s [unfolded st_SendMsg_def]] loop
  show ?case by (cases "is") auto
qed

text \<open>The \<^verbatim>\<open>multipart\<close> flag does not reach the wire.\<close>

lemma st_SendMsg_Frames: "Frames m = Frames n \<Longrightarrow> st_SendMsg m = st_SendMsg n"
  unfolding st_SendMsg_def by (simp add: fun_eq_iff on_cell_def SendMsg_Frames [of m n])

lemma req_write_loop_Frames:
  "Frames m = Frames n \<Longrightarrow> req_write_loop m w is err st = req_write_loop n w is err st"
  by (induction "is" arbitrary: err st)
    (auto simp: Let_def st_SendMsg_Frames [of m n] split: prod.splits option.splits)

lemma reqWriter_write_multipart [simp]:
  "reqWriter_write (m\<lparr>multipart := b\<rparr>) p = reqWriter_write m p"
  using req_write_loop_Frames [of "enveloped (m\<lparr>multipart := b\<rparr>)" "enveloped m"]
  by (simp add: reqWriter_write_def Let_def)

lemma req_SendMulti_Send: "req_SendMulti m p = req_Send m p"
  unfolding req_SendMulti_def req_Send_def reqWriter_write_multipart ..

section \<open>Round robin\<close>

text \<open>A connection that takes whatever it is sent.\<close>

definition usable :: "conn \<Rightarrow> bool" where
  "usable c = (\<not> Closed c \<and> healthy (wr (rw c)))"

lemma st_SendMsg_usable:
  "usable (cells st i) \<Longrightarrow>
     \<exists>st'. st_SendMsg m i st = (None, st') \<and> usable (cells st' i) \<and> (\<forall>j. j \<noteq> i \<longrightarrow> cells st' j = cells st j)
           \<and> out (cells st' i) = out (cells st i) @ frames_wire (Frames m)"
  using SendMsg_healthy [of "cells st i" m]
  by (auto simp: usable_def st_SendMsg_def on_cell_def Closed_def)

lemma reqWriter_write_usable:
  assumes "wconns (qwriter p) \<noteq> []" and "\<forall>i \<in> set (wconns (qwriter p)). usable (cells (qstore p) i)"
  shows "\<exists>p'. reqWriter_write m p = (None, p') \<and> wconns (qwriter p') = wconns (qwriter p) \<and>
    lastConn (qstate p') = Some (wconns (qwriter p) ! (nextConn (qwriter p) mod length (wconns (qwriter p)))) \<and>
    nextConn (qwriter p') = (nextConn (qwriter p) mod length (wconns (qwriter p)) + 1) mod length (wconns (qwriter p)) \<and>
    (\<forall>i \<in> set (wconns (qwriter p)). usable (cells (qstore p') i))"
proof -
  let ?cs = "wconns (qwriter p)"
  let ?cur = "nextConn (qwriter p) mod length ?cs"
  let ?m = "m\<lparr>Frames := [[]] @ Frames m\<rparr>"
  have "?cs ! ?cur \<in> set ?cs" using assms(1) by simp
  with assms(2) have "usable (cells (qstore p) (?cs ! ?cur))" by blast
  from st_SendMsg_usable [OF this, of ?m] obtain st where
      st: "st_SendMsg ?m (?cs ! ?cur) (qstore p) = (None, st)"
          "\<forall>i \<in> set ?cs. usable (cells st i)"
    using assms(2) by metis
  have "req_write_loop ?m (qwriter p) [0..<length ?cs] None (qstore p) = (Inr ?cur, st)"
    using assms(1) st(1) by (subst upt_conv_Cons) (simp_all add: Let_def)
  with assms(1) st(2) show ?thesis
    by (simp add: reqWriter_write_def Let_def reqState_set_def)
qed

text \<open>Several requests in a row, and the connections they go to.\<close>

fun write_n :: "msg list \<Rightarrow> req_pools \<Rightarrow> (go_error option \<times> conn_id option) list \<times> req_pools" where
  "write_n [] p = ([], p)"
| "write_n (m # ms) p =
     (case reqWriter_write m p of (e, p1) \<Rightarrow>
        (case write_n ms p1 of (rs1, p2) \<Rightarrow> ((e, lastConn (qstate p1)) # rs1, p2)))"

lemma write_n_round_robin:
  assumes "wconns (qwriter p) \<noteq> []" and "\<forall>i \<in> set (wconns (qwriter p)). usable (cells (qstore p) i)"
  shows "fst (write_n ms p) =
    map (\<lambda>k. (None, Some (wconns (qwriter p) ! ((nextConn (qwriter p) + k) mod length (wconns (qwriter p))))))
      [0..<length ms]"
  using assms
proof (induction ms arbitrary: p)
  case Nil
  then show ?case by simp
next
  case (Cons m ms)
  let ?n = "length (wconns (qwriter p))"
  obtain p1 where p1: "reqWriter_write m p = (None, p1)" "wconns (qwriter p1) = wconns (qwriter p)"
      "lastConn (qstate p1) = Some (wconns (qwriter p) ! (nextConn (qwriter p) mod ?n))"
      "nextConn (qwriter p1) = (nextConn (qwriter p) mod ?n + 1) mod ?n"
      "\<forall>i \<in> set (wconns (qwriter p)). usable (cells (qstore p1) i)"
    using reqWriter_write_usable [OF Cons.prems] by blast
  have idx: "(nextConn (qwriter p1) + k) mod ?n = (nextConn (qwriter p) + Suc k) mod ?n" for k
    by (simp add: p1(4) mod_simps)
  have "fst (write_n ms p1) =
      map (\<lambda>k. (None, Some (wconns (qwriter p) ! ((nextConn (qwriter p) + Suc k) mod ?n)))) [0..<length ms]"
    using Cons.IH [of p1] Cons.prems(1) p1(2,5) idx by simp
  also have "\<dots> = map (\<lambda>k. (None, Some (wconns (qwriter p) ! ((nextConn (qwriter p) + k) mod ?n))))
                      (map Suc [0..<length ms])"
    by (simp add: comp_def)
  finally show ?case
    using p1(1,3) by (cases "write_n ms p1") (simp add: upt_conv_Cons map_Suc_upt del: upt_Suc)
qed

section \<open>The socket as a transition system\<close>

text \<open>
  One application goroutine makes calls, each in the steps between which its locks are free;
  at any moment a connection may be added (a dial, an accept) or removed (the reaper), and the
  network may do anything to the connections. \<open>history\<close> records what became of the requests.
\<close>

datatype req_pc = Idle | Sending msg | Receiving | GotReply msg "go_error option"

datatype req_event = Requested conn_id | Answered | Failed | Dropped conn_id

record req_sys =
  pools :: req_pools
  pc :: req_pc
  history :: "req_event list"

definition req_init :: "store \<Rightarrow> req_sys" where
  "req_init st = \<lparr>pools = newReq_pools st, pc = Idle, history = []\<rparr>"

inductive req_step :: "req_sys \<Rightarrow> req_sys \<Rightarrow> bool" where
  send_begin: "pc s = Idle \<Longrightarrow> beginRequest (qstate (pools s)) = (None, q) \<Longrightarrow>
     req_step s (s\<lparr>pools := (pools s)\<lparr>qstate := q\<rparr>, pc := Sending m\<rparr>)"
| send_done: "pc s = Sending m \<Longrightarrow> reqWriter_write m (pools s) = (None, p) \<Longrightarrow>
     lastConn (qstate p) = Some c \<Longrightarrow>
     req_step s (s\<lparr>pools := p, pc := Idle, history := history s @ [Requested c]\<rparr>)"
| send_fail: "pc s = Sending m \<Longrightarrow> reqWriter_write m (pools s) = (Some e, p) \<Longrightarrow>
     req_step s (s\<lparr>pools := p\<lparr>qstate := abortRequest (qstate p)\<rparr>, pc := Idle,
                   history := history s @ [Failed]\<rparr>)"
| recv_begin: "pc s = Idle \<Longrightarrow> beforeRecv (qstate (pools s)) = None \<Longrightarrow>
     req_step s (s\<lparr>pc := Receiving\<rparr>)"
| recv_read: "pc s = Receiving \<Longrightarrow> reqReader_read (pools s) = (e, m, p) \<Longrightarrow>
     req_step s (s\<lparr>pools := p, pc := GotReply m e\<rparr>)"
| recv_done: "pc s = GotReply m None \<Longrightarrow>
     req_step s (s\<lparr>pools := (pools s)\<lparr>qstate := finishRequest (qstate (pools s))\<rparr>, pc := Idle,
                   history := history s @ [Answered]\<rparr>)"
| recv_fail: "pc s = GotReply m (Some e) \<Longrightarrow>
     req_step s (s\<lparr>pools := (pools s)\<lparr>qstate := abortRequest (qstate (pools s))\<rparr>, pc := Idle,
                   history := history s @ [Failed]\<rparr>)"
| conn_added: "c \<notin> set (wconns (qwriter (pools s))) \<Longrightarrow>
     req_step s (s\<lparr>pools := reqWriter_addConn c (pools s)\<rparr>)"
| conn_removed:
    "req_step s (s\<lparr>pools := reqWriter_rmConn c (pools s),
                   history := history s @ (if lastConn (qstate (pools s)) = Some c then [Dropped c] else [])\<rparr>)"
| network: "req_step s (s\<lparr>pools := (pools s)\<lparr>qstore := st\<rparr>\<rparr>)"

inductive_cases req_stepE: "req_step s t"

inductive req_reach :: "req_sys \<Rightarrow> bool" where
  start: "req_reach (req_init st)"
| step: "req_reach s \<Longrightarrow> req_step s t \<Longrightarrow> req_reach t"

text \<open>
  The specification is an automaton over the events: its state is the connection that owes an
  answer. A request starts only when none does; a connection is dropped only while it owes one;
  answers and failures leave nothing owed.
\<close>

fun req_spec :: "conn_id option \<Rightarrow> req_event \<Rightarrow> conn_id option option" where
  "req_spec owed (Requested c) = (if owed = None then Some (Some c) else None)"
| "req_spec owed Answered = Some None"
| "req_spec owed Failed = Some None"
| "req_spec owed (Dropped c) = (if owed = Some c then Some None else None)"

fun req_spec_run :: "conn_id option \<Rightarrow> req_event list \<Rightarrow> conn_id option option" where
  "req_spec_run owed [] = Some owed"
| "req_spec_run owed (e # es) = Option.bind (req_spec owed e) (\<lambda>o1. req_spec_run o1 es)"

lemma req_spec_run_append:
  "req_spec_run owed (es @ fs) = Option.bind (req_spec_run owed es) (\<lambda>o1. req_spec_run o1 fs)"
  by (induction es arbitrary: owed) (auto split: Option.bind_splits)

text \<open>
  The invariant: the history is one the specification allows and ends with \<open>lastConn\<close> owing the
  answer; that connection is in the pool; and outside the writing of a request the flag
  \<open>readyToReq\<close> says exactly that nothing is owed.
\<close>

definition req_inv :: "req_sys \<Rightarrow> bool" where
  "req_inv s =
     (let q = qstate (pools s); cs = wconns (qwriter (pools s)) in
      req_spec_run None (history s) = Some (lastConn q) \<and> distinct cs \<and>
      (\<forall>c. lastConn q = Some c \<longrightarrow> c \<in> set cs \<and> \<not> readyToReq q) \<and>
      (if \<exists>m. pc s = Sending m then lastConn q = None \<and> \<not> readyToReq q
       else readyToReq q = (lastConn q = None)))"

lemma req_write_loop_cur:
  "req_write_loop m w is err st = (Inr cur, st') \<Longrightarrow> wconns w \<noteq> [] \<Longrightarrow> cur < length (wconns w)"
  by (induction "is" arbitrary: err st) (auto simp: Let_def split: prod.splits option.splits)

lemma reqWriter_write_ok_state:
  assumes "reqWriter_write m p = (None, p')"
  shows "\<exists>c \<in> set (wconns (qwriter p)). qstate p' = reqState_set c (qstate p) \<and>
           wconns (qwriter p') = wconns (qwriter p)"
proof -
  from assms have ne: "wconns (qwriter p) \<noteq> []"
    by (auto simp: reqWriter_write_def Let_def)
  from assms obtain cur st where r: "p' = p\<lparr>qwriter := (qwriter p)\<lparr>nextConn := (cur + 1) mod length (wconns (qwriter p))\<rparr>,
        qstate := reqState_set (wconns (qwriter p) ! cur) (qstate p), qstore := st\<rparr>"
      and l: "req_write_loop (m\<lparr>Frames := [[]] @ Frames m\<rparr>) (qwriter p) [0..<length (wconns (qwriter p))] None
          (qstore p) = (Inr cur, st)"
    by (auto simp: reqWriter_write_def Let_def split: if_splits prod.splits sum.splits)
  from nth_mem [OF req_write_loop_cur [OF l ne]] r show ?thesis
    by (intro bexI [of _ "wconns (qwriter p) ! cur"]) simp_all
qed

lemma reqWriter_write_fail_state:
  "reqWriter_write m p = (Some e, p') \<Longrightarrow> qstate p' = qstate p \<and> qwriter p' = qwriter p"
  by (auto simp: reqWriter_write_def Let_def split: if_splits prod.splits sum.splits)

lemma reqReader_read_state:
  "reqReader_read p = (e, m, p') \<Longrightarrow> qstate p' = qstate p \<and> qwriter p' = qwriter p"
  by (auto simp: reqReader_read_def Let_def split: option.splits prod.splits if_splits)

lemma req_step_inv: "req_step s t \<Longrightarrow> req_inv s \<Longrightarrow> req_inv t"
proof (induction rule: req_step.induct)
  case (send_done s m p c)
  from reqWriter_write_ok_state [OF send_done.hyps(2)] send_done show ?case
    by (auto simp: req_inv_def Let_def req_spec_run_append reqState_set_def split: if_splits)
next
  case (send_fail s m e p)
  from reqWriter_write_fail_state [OF send_fail.hyps(2)] send_fail show ?case
    by (auto simp: req_inv_def Let_def req_spec_run_append abortRequest_def split: if_splits)
next
  case (recv_read s e m p)
  from reqReader_read_state [OF recv_read.hyps(2)] recv_read show ?case
    by (auto simp: req_inv_def Let_def split: if_splits)
next
  case (conn_removed s c)
  then show ?case
    by (auto simp: req_inv_def Let_def req_spec_run_append reqWriter_rmConn_def reqState_reset_def
        rm_from_remove1 distinct_remove1 split: if_splits)
qed (auto simp: req_inv_def Let_def req_spec_run_append reqWriter_addConn_def reqState_defs
      split: if_splits)

lemma req_reach_inv: "req_reach s \<Longrightarrow> req_inv s"
proof (induction rule: req_reach.induct)
  case (start st)
  show ?case by (simp add: req_inv_def req_init_def newReq_pools_def newReqWriter_def)
next
  case (step s t)
  then show ?case by (blast intro: req_step_inv)
qed

text \<open>The calls as the application makes them are runs of steps.\<close>

lemma pc_Idle_update:
  "pc s = Idle \<Longrightarrow> s\<lparr>pools := p, pc := Idle, history := h\<rparr> = s\<lparr>pools := p, history := h\<rparr>"
  by (cases s) simp

lemma req_Send_reach:
  assumes "req_reach s" and "pc s = Idle" and "req_Send m (pools s) = (None, p)"
    and "lastConn (qstate p) = Some c"
  shows "req_reach (s\<lparr>pools := p, history := history s @ [Requested c]\<rparr>)"
proof -
  from assms(3) obtain q where q: "beginRequest (qstate (pools s)) = (None, q)"
      "reqWriter_write m ((pools s)\<lparr>qstate := q\<rparr>) = (None, p)"
    by (auto simp: req_Send_def split: prod.splits option.splits)
  from req_reach.step [OF assms(1) send_begin [OF assms(2) q(1), of m]]
  have "req_reach (s\<lparr>pools := (pools s)\<lparr>qstate := q\<rparr>, pc := Sending m\<rparr>)" .
  from req_reach.step [OF this send_done, of m p c] q(2) assms(2,4) show ?thesis
    by (simp add: pc_Idle_update)
qed

lemma req_Recv_reach:
  assumes "req_reach s" and "pc s = Idle" and "req_Recv (pools s) = ((m, None), p)"
  shows "req_reach (s\<lparr>pools := p, history := history s @ [Answered]\<rparr>)"
proof -
  from assms(3) obtain p1 where r: "beforeRecv (qstate (pools s)) = None"
      "reqReader_read (pools s) = (None, m, p1)" "p = p1\<lparr>qstate := finishRequest (qstate p1)\<rparr>"
    by (auto simp: req_Recv_def split: prod.splits option.splits)
  from req_reach.step [OF assms(1) recv_begin [OF assms(2) r(1)]]
  have "req_reach (s\<lparr>pc := Receiving\<rparr>)" .
  from req_reach.step [OF this recv_read, of None m p1] r(2)
  have "req_reach (s\<lparr>pools := p1, pc := GotReply m None\<rparr>)" by simp
  from req_reach.step [OF this recv_done, of m] r(3) assms(2) show ?thesis
    by (simp add: pc_Idle_update)
qed

section \<open>Properties\<close>

text \<open>
  C7: A REQ socket strictly alternates: between two requests that were written, in any
  interleaving of the calls with connections coming and going, the first one was answered,
  failed, or lost the connection it had been written to.
\<close>

theorem req_alternates:
  assumes "req_reach s" and "history s = xs @ Requested c # ys @ Requested d # zs"
  shows "Answered \<in> set ys \<or> Failed \<in> set ys \<or> Dropped c \<in> set ys"
proof -
  have owed: "req_spec_run (Some c) es = Some None \<Longrightarrow>
      Answered \<in> set es \<or> Failed \<in> set es \<or> Dropped c \<in> set es" for es
    by (induction es) (auto split: Option.bind_splits if_splits elim!: req_spec.elims)
  from req_reach_inv [OF assms(1)] assms(2) obtain q where
      "req_spec_run None (xs @ Requested c # ys @ Requested d # zs) = Some q"
    by (auto simp: req_inv_def Let_def)
  then have "req_spec_run (Some c) ys = Some None"
    by (auto simp: req_spec_run_append split: Option.bind_splits if_splits)
  then show ?thesis by (rule owed)
qed

text \<open>A pool with one connection on which the reply \<open>[9]\<close> is waiting.\<close>

definition demo_store :: store where
  "demo_store = \<lparr>cells = (\<lambda>_. new_conn (bytes_NewReader [1, 0, 0, 0, 0, 0, 0, 0, 0, 1, 9])
                                  \<lparr>wr_script = [], written = []\<rparr>), notified = []\<rparr>"

definition demo_pools :: req_pools where
  "demo_pools = reqWriter_addConn 1 (newReq_pools demo_store)"

definition demo_sys :: req_sys where
  "demo_sys = (req_init demo_store)\<lparr>pools := demo_pools\<rparr>"

lemma demo_reach: "req_reach demo_sys"
  using req_reach.step [OF req_reach.start conn_added, of 1 demo_store]
  by (simp add: demo_sys_def demo_pools_def req_init_def newReq_pools_def newReqWriter_def)

lemma demo_exchange:
  "\<exists>s. req_reach s \<and> pc s = Idle \<and> history s = [Requested 1, Answered, Requested 1]
       \<and> lastConn (qstate (pools s)) = Some 1 \<and> wconns (qwriter (pools s)) = [1]"
proof -
  let ?p1 = "snd (req_Send (NewMsg [7]) demo_pools)"
  let ?p2 = "snd (req_Recv ?p1)"
  let ?p3 = "snd (req_Send (NewMsg [8]) ?p2)"
  have "fst (req_Send (NewMsg [7]) demo_pools) = None \<and> lastConn (qstate ?p1) = Some 1"
    by code_simp
  then have a: "req_Send (NewMsg [7]) (pools demo_sys) = (None, ?p1)" "lastConn (qstate ?p1) = Some 1"
    by (simp_all add: prod_eq_iff demo_sys_def)
  have "snd (fst (req_Recv ?p1)) = None" by code_simp
  then have b: "req_Recv ?p1 = ((fst (fst (req_Recv ?p1)), None), ?p2)" by (simp add: prod_eq_iff)
  have "fst (req_Send (NewMsg [8]) ?p2) = None \<and> lastConn (qstate ?p3) = Some 1
      \<and> wconns (qwriter ?p3) = [1]"
    by code_simp
  then have c: "req_Send (NewMsg [8]) ?p2 = (None, ?p3)" "lastConn (qstate ?p3) = Some 1"
      "wconns (qwriter ?p3) = [1]"
    by (simp_all add: prod_eq_iff)
  have i: "pc demo_sys = Idle" "history demo_sys = []" by (simp_all add: demo_sys_def req_init_def)
  from req_Send_reach [OF demo_reach i(1) a] i
  have "req_reach (demo_sys\<lparr>pools := ?p1, history := [Requested 1]\<rparr>)" by simp
  from req_Recv_reach [OF this, of "fst (fst (req_Recv ?p1))" ?p2] b i
  have "req_reach (demo_sys\<lparr>pools := ?p2, history := [Requested 1, Answered]\<rparr>)" by simp
  from req_Send_reach [OF this, of "NewMsg [8]" ?p3 1] c i show ?thesis
    by (intro exI [of _ "demo_sys\<lparr>pools := ?p3, history := [Requested 1, Answered, Requested 1]\<rparr>"])
      simp
qed

theorem req_alternates_witness:
  "\<exists>s. req_reach s \<and> history s = [] @ Requested 1 # [Answered] @ Requested 1 # [] \<and>
       (Answered \<in> set [Answered] \<or> Failed \<in> set [Answered] \<or> Dropped 1 \<in> set [Answered])"
proof -
  from demo_exchange obtain s where s: "req_reach s"
    "history s = [] @ Requested 1 # [Answered] @ Requested 1 # []" by auto
  with req_alternates [OF s] show ?thesis by blast
qed

text \<open>
  C15: Whenever no call is in progress, exactly one of \<^verbatim>\<open>Send\<close> and \<^verbatim>\<open>Recv\<close> is admitted: \<^verbatim>\<open>Recv\<close>
  precisely when a request is owed an answer by a connection that is still in the pool.
\<close>

theorem req_idle_consistent:
  assumes "req_reach s" and "pc s = Idle"
  shows "(fst (beginRequest (qstate (pools s))) = None) = (lastConn (qstate (pools s)) = None) \<and>
         (beforeRecv (qstate (pools s)) = None) =
           (\<exists>c \<in> set (wconns (qwriter (pools s))). lastConn (qstate (pools s)) = Some c)"
  using req_reach_inv [OF assms(1)] assms(2)
  by (auto simp: req_inv_def Let_def beginRequest_def beforeRecv_def)

theorem req_idle_consistent_witness:
  "\<exists>s. req_reach s \<and> pc s = Idle \<and> beforeRecv (qstate (pools s)) = None"
proof -
  from demo_exchange obtain s where s: "req_reach s" "pc s = Idle"
    "lastConn (qstate (pools s)) = Some 1" "wconns (qwriter (pools s)) = [1]" by auto
  with req_idle_consistent [OF s(1,2)] show ?thesis by auto
qed

text \<open>
  A request is written, with an empty delimiter frame in front, to the first connection
  from \<^verbatim>\<open>nextConn\<close> on, in cyclic order, that takes it. The ones tried before have failed, the
  ones behind are untouched, the reply will be read from the connection that took it, and the
  next request starts behind it.
\<close>

theorem req_write_first_usable:
  assumes "distinct (wconns (qwriter p))" and "reqWriter_write m p = (None, p')"
  shows "\<exists>before c after.
    rotate (nextConn (qwriter p)) (wconns (qwriter p)) = before @ c # after \<and>
    (\<forall>i \<in> set before. fst (SendMsg (enveloped m) (cells (qstore p) i)) \<noteq> None) \<and>
    fst (SendMsg (enveloped m) (cells (qstore p) c)) = None \<and>
    cells (qstore p') c = fst (snd (SendMsg (enveloped m) (cells (qstore p) c))) \<and>
    (\<forall>i \<in> set after. cells (qstore p') i = cells (qstore p) i) \<and>
    lastConn (qstate p') = Some c \<and>
    nextConn (qwriter p') =
      (nextConn (qwriter p) + length before + 1) mod length (wconns (qwriter p))"
proof -
  let ?w = "qwriter p"
  let ?conn = "\<lambda>i. wconns ?w ! ((i + nextConn ?w) mod length (wconns ?w))"
  from assms(2) obtain cur st where
      l: "req_write_loop (enveloped m) ?w [0..<length (wconns ?w)] None (qstore p) = (Inr cur, st)"
      and p': "p' = p\<lparr>qwriter := ?w\<lparr>nextConn := (cur + 1) mod length (wconns ?w)\<rparr>,
                      qstate := reqState_set (wconns ?w ! cur) (qstate p), qstore := st\<rparr>"
    by (auto simp: reqWriter_write_def Let_def split: if_splits prod.splits sum.splits)
  have "distinct (map ?conn [0..<length (wconns ?w)])"
    using assms(1) try_order_rotate [of ?w] by (simp add: try_order_def)
  from req_write_loop_ok [OF this l] obtain before i after where
      idx: "[0..<length (wconns ?w)] = before @ i # after" "cur = (i + nextConn ?w) mod length (wconns ?w)"
      and sends: "\<forall>k \<in> set before. fst (SendMsg (enveloped m) (cells (qstore p) (?conn k))) \<noteq> None"
        "fst (SendMsg (enveloped m) (cells (qstore p) (wconns ?w ! cur))) = None"
        "cells st (wconns ?w ! cur) = fst (snd (SendMsg (enveloped m) (cells (qstore p) (wconns ?w ! cur))))"
        "\<forall>k \<in> set after. cells st (?conn k) = cells (qstore p) (?conn k)"
    by blast
  have rot: "rotate (nextConn ?w) (wconns ?w) = map ?conn before @ ?conn i # map ?conn after"
    using idx(1) try_order_rotate [of ?w] by (simp add: try_order_def)
  have "i = length before"
    using idx(1) by (rule upt_split_index)
  then have "(cur + 1) mod length (wconns ?w) = (nextConn ?w + length before + 1) mod length (wconns ?w)"
    using idx(2) by (simp add: mod_simps add.commute)
  with rot sends p' idx(2) show ?thesis
    by (intro exI [of _ "map ?conn before"] exI [of _ "?conn i"] exI [of _ "map ?conn after"])
      (auto simp: reqState_set_def)
qed

theorem req_write_first_usable_witness:
  "\<exists>p'. reqWriter_write (NewMsg [7]) demo_pools = (None, p') \<and> lastConn (qstate p') = Some 1"
proof -
  let ?p' = "snd (reqWriter_write (NewMsg [7]) demo_pools)"
  have "fst (reqWriter_write (NewMsg [7]) demo_pools) = None" by code_simp
  then have w: "reqWriter_write (NewMsg [7]) demo_pools = (None, ?p')" by (simp add: prod_eq_iff)
  have cs: "wconns (qwriter demo_pools) = [1]" "nextConn (qwriter demo_pools) = 0"
    by (simp_all add: demo_pools_def reqWriter_addConn_def newReq_pools_def newReqWriter_def)
  from req_write_first_usable [OF _ w] cs obtain before c after where
    "[1] = before @ c # after" "lastConn (qstate ?p') = Some c" by auto
  then have "c = 1" by (cases before) auto
  with w \<open>lastConn (qstate ?p') = Some c\<close> show ?thesis by blast
qed

text \<open>
  While all connections of the pool take what they are sent, successive requests go round:
  the \<open>k\<close>-th goes to the connection \<open>k\<close> places behind \<^verbatim>\<open>nextConn\<close>, so any run of as many
  requests as there are connections reaches each of them once.
\<close>

theorem req_round_robin:
  assumes "wconns (qwriter p) \<noteq> []" and "\<forall>i \<in> set (wconns (qwriter p)). usable (cells (qstore p) i)"
    and "length ms = length (wconns (qwriter p))"
  shows "fst (write_n ms p) = map (\<lambda>c. (None, Some c)) (rotate (nextConn (qwriter p)) (wconns (qwriter p)))"
  unfolding write_n_round_robin [OF assms(1,2)] try_order_rotate [symmetric] try_order_def
  by (simp add: assms(3) add.commute)

theorem req_round_robin_witness:
  "fst (write_n [NewMsg [7], NewMsg [8]] (reqWriter_addConn 2 demo_pools)) = [(None, Some 1), (None, Some 2)]"
proof -
  let ?p = "reqWriter_addConn 2 demo_pools"
  have cs: "wconns (qwriter ?p) = [1, 2]" "nextConn (qwriter ?p) = 0"
    by (simp_all add: demo_pools_def reqWriter_addConn_def newReq_pools_def newReqWriter_def)
  moreover have "usable (cells (qstore ?p) i)" for i
    by (simp add: demo_pools_def reqWriter_addConn_def newReq_pools_def demo_store_def usable_def
        new_conn_def Closed_def healthy_def)
  ultimately show ?thesis using req_round_robin [of ?p "[NewMsg [7], NewMsg [8]]"] by simp
qed

text \<open>
  A \<^verbatim>\<open>Send\<close> that returns an error leaves the socket as it was if a request is pending, and
  otherwise ready for another \<^verbatim>\<open>Send\<close>; in that case there was no connection, or every connection
  refused the request. \<^verbatim>\<open>SendMulti\<close> does what \<^verbatim>\<open>Send\<close> does.
\<close>

theorem req_Send_error:
  assumes "req_Send m p = (Some e, p')" and "distinct (wconns (qwriter p))"
  shows "req_SendMulti m p = req_Send m p \<and>
         (if \<not> readyToReq (qstate p) then p' = p
         else readyToReq (qstate p') \<and> lastConn (qstate p') = None \<and> qwriter p' = qwriter p \<and>
           (\<forall>i \<in> set (wconns (qwriter p)). fst (SendMsg (enveloped m) (cells (qstore p) i)) \<noteq> None))"
proof (cases "readyToReq (qstate p)")
  case False
  with assms(1) show ?thesis by (simp add: req_SendMulti_Send) (simp add: req_Send_def beginRequest_def)
next
  case True
  let ?w = "qwriter p"
  let ?q = "(qstate p)\<lparr>readyToReq := False\<rparr>"
  from assms(1) True obtain p1 where w: "reqWriter_write m (p\<lparr>qstate := ?q\<rparr>) = (Some e, p1)"
      and p': "p' = p1\<lparr>qstate := abortRequest (qstate p1)\<rparr>"
    by (auto simp: req_Send_def beginRequest_def split: prod.splits option.splits)
  have "fst (SendMsg (enveloped m) (cells (qstore p) i)) \<noteq> None" if i: "i \<in> set (wconns ?w)" for i
  proof -
    from i have "length (wconns ?w) \<noteq> 0" by auto
    with w obtain err st where l: "req_write_loop (enveloped m) ?w [0..<length (wconns ?w)] None (qstore p)
        = (Inl err, st)"
      by (auto simp: reqWriter_write_def Let_def split: if_splits prod.splits sum.splits)
    have "distinct (try_order ?w)" using assms(2) by (simp add: try_order_rotate)
    from req_write_loop_fail [OF this [unfolded try_order_def] l]
    have "\<forall>c \<in> set (try_order ?w). fst (SendMsg (enveloped m) (cells (qstore p) c)) \<noteq> None"
      by (auto simp: try_order_def)
    with i show ?thesis by (simp add: try_order_rotate)
  qed
  with True p' reqWriter_write_fail_state [OF w] show ?thesis by (simp add: abortRequest_def req_SendMulti_Send)
qed

theorem req_Send_error_witness:
  "readyToReq (qstate (snd (req_Send (NewMsg [7]) (newReq_pools demo_store))))"
proof -
  let ?r = "req_Send (NewMsg [7]) (newReq_pools demo_store)"
  have "fst ?r \<noteq> None" by code_simp
  then obtain e where e: "?r = (Some e, snd ?r)" by (cases ?r) auto
  have "readyToReq (qstate (newReq_pools demo_store))" "wconns (qwriter (newReq_pools demo_store)) = []"
    by (simp_all add: newReq_pools_def newReqWriter_def)
  with req_Send_error [OF e] show ?thesis by simp
qed

text \<open>
  After \<^verbatim>\<open>Recv\<close> on a pending request the socket is ready for the next request, whether the
  reply was read or not; without a pending request \<^verbatim>\<open>Recv\<close> fails and changes nothing. A reply
  is the message read from the connection the request went to, less its leading empty frame.
\<close>

theorem req_Recv_outcomes:
  assumes "req_Recv p = ((m, e), p')"
  shows "if readyToReq (qstate p) then e \<noteq> None \<and> p' = p
         else readyToReq (qstate p') \<and> lastConn (qstate p') = None \<and> qwriter p' = qwriter p \<and>
           (e = None \<longrightarrow> (\<exists>c m0 st. lastConn (qstate p) = Some c \<and> st_read c (qstore p) = (m0, st) \<and>
              msg_err m0 = None \<and>
              Frames m = (if length (Frames m0) > 1 \<and> Frames m0 ! 0 = [] then tl (Frames m0) else Frames m0)))"
proof (cases "readyToReq (qstate p)")
  case True
  with assms show ?thesis by (auto simp: req_Recv_def beforeRecv_def)
next
  case False
  with assms obtain p1 where r: "reqReader_read p = (e, m, p1)"
      "qstate p' = (qstate p1)\<lparr>readyToReq := True, lastConn := None\<rparr>" "qwriter p' = qwriter p1"
    by (auto simp: req_Recv_def beforeRecv_def abortRequest_def finishRequest_def
        split: prod.splits option.splits)
  from r(1) have "e = None \<longrightarrow> (\<exists>c m0 st. lastConn (qstate p) = Some c \<and> st_read c (qstore p) = (m0, st) \<and>
      msg_err m0 = None \<and>
      Frames m = (if length (Frames m0) > 1 \<and> Frames m0 ! 0 = [] then tl (Frames m0) else Frames m0))"
    by (auto simp: reqReader_read_def reqState_get_def Let_def drop_Suc split: option.splits prod.splits if_splits)
  with False r reqReader_read_state [OF r(1)] show ?thesis by simp
qed

theorem req_Recv_outcomes_witness:
  "readyToReq (qstate (snd (req_Recv (snd (req_Send (NewMsg [7]) demo_pools)))))"
proof -
  let ?p = "snd (req_Send (NewMsg [7]) demo_pools)"
  have "\<not> readyToReq (qstate ?p)" by code_simp
  then show ?thesis
    using req_Recv_outcomes [of ?p "fst (fst (req_Recv ?p))" "snd (fst (req_Recv ?p))" "snd (req_Recv ?p)"]
    by simp
qed

end
