(* ===== verification/RepSocket.thy ===== *)
theory RepSocket
  imports Pools
begin

text \<open>
  \<^verbatim>\<open>rep.go\<close>: the REP socket. The envelope with its delimiter, the reader that queues requests
  with the connection they came from, the routing state, the writer with its sending goroutine;
  then the socket as a transition system, in which a request is answered at most once and only
  on the connection it came from.
\<close>

section \<open>Envelopes\<close>

text \<open>
  \<^verbatim>\<open>splitReq\<close>: the frames up to and including the first empty one, and the rest. A nil
  preamble is the empty list; a preamble that was found has at least one frame.
\<close>

fun splitReq_loop :: "nat \<Rightarrow> bytes list \<Rightarrow> bytes list \<Rightarrow> bytes list \<times> msg" where
  "splitReq_loop i [] all1 = ([], empty_msg)"
| "splitReq_loop i (frame # rest) all1 =
     (if length frame \<noteq> 0 then splitReq_loop (Suc i) rest all1
      else (take (i + 1) all1,
            if i + 1 < length all1 then NewMsgFrom (drop (i + 1) all1) else empty_msg))"

definition splitReq :: "msg \<Rightarrow> bytes list \<times> msg" where
  "splitReq envelope = splitReq_loop 0 (Frames envelope) (Frames envelope)"

record repSendPayload =
  pl_conn :: conn_id
  pl_preamble :: "bytes list"
  pl_msg :: msg

definition buildReplyMsg :: "repSendPayload \<Rightarrow> msg" where
  "buildReplyMsg p = NewMsgFrom (([] @ pl_preamble p) @ Frames (pl_msg p))"

section \<open>The routing state\<close>

record repState =
  rs_conn :: "conn_id option"
  rs_preamble :: "bytes list"

definition newRepState :: repState where
  "newRepState = \<lparr>rs_conn = None, rs_preamble = []\<rparr>"

definition repState_get :: "repState \<Rightarrow> conn_id option \<times> bytes list" where
  "repState_get s = (rs_conn s, rs_preamble s)"

definition repState_set :: "conn_id \<Rightarrow> bytes list \<Rightarrow> repState \<Rightarrow> repState" where
  "repState_set c pre s = s\<lparr>rs_conn := Some c, rs_preamble := pre\<rparr>"

definition repState_clear :: "repState \<Rightarrow> repState" where
  "repState_clear s = s\<lparr>rs_conn := None, rs_preamble := []\<rparr>"

lemmas repState_defs = repState_get_def repState_set_def repState_clear_def

section \<open>Reader, writer and what they share\<close>

text \<open>
  \<open>sending\<close> is what the goroutine \<^verbatim>\<open>run\<close> has received from \<^verbatim>\<open>sendCh\<close> and not yet sent. The
  channel has no buffer, so a send on it is ready exactly while \<^verbatim>\<open>run\<close> waits for one.
\<close>

record repReader =
  rr_conns :: "conn_id list"
  msgCh :: "(conn_id \<times> msg) chan"
  rr_listeners :: "conn_id list"

record repWriter =
  rw_conns :: "conn_id list"
  sending :: "repSendPayload option"
  running :: bool
  sendCh_closed :: bool

record rep_pools =
  rstate :: repState
  rreader :: repReader
  rwriter :: repWriter
  rstore :: store

definition newRepReader :: repReader where
  "newRepReader = \<lparr>rr_conns = [], msgCh = make_chan 10, rr_listeners = []\<rparr>"

definition newRepWriter :: repWriter where
  "newRepWriter = \<lparr>rw_conns = [], sending = None, running = True, sendCh_closed = False\<rparr>"

definition newRep_pools :: "store \<Rightarrow> rep_pools" where
  "newRep_pools st =
     \<lparr>rstate = newRepState, rreader = newRepReader, rwriter = newRepWriter, rstore = st\<rparr>"

section \<open>The reader\<close>

definition repReader_addConn :: "conn_id \<Rightarrow> rep_pools \<Rightarrow> rep_pools" where
  "repReader_addConn c p =
     p\<lparr>rreader := (rreader p)\<lparr>rr_conns := rr_conns (rreader p) @ [c],
                             rr_listeners := rr_listeners (rreader p) @ [c]\<rparr>\<rparr>"

definition repReader_rmConn :: "conn_id \<Rightarrow> rep_pools \<Rightarrow> rep_pools" where
  "repReader_rmConn c p =
     p\<lparr>rreader := (rreader p)\<lparr>rr_conns := rm_from c (rr_conns (rreader p))\<rparr>\<rparr>"

definition repReader_read ::
    "nat \<Rightarrow> ctx \<Rightarrow> rep_pools \<Rightarrow> (go_error option \<times> msg \<times> rep_pools) blocking" where
  "repReader_read pick ctx1 p =
     go_select pick
       [case_done ctx1 (\<lambda>e. (Some e, empty_msg, p)),
        case_recv (msgCh (rreader p)) (\<lambda>(c, m) ch.
          let p' = p\<lparr>rreader := (rreader p)\<lparr>msgCh := ch\<rparr>\<rparr> in
          if msg_err m \<noteq> None then (msg_err m, empty_msg, p')
          else case splitReq m of
              (pre, innerMsg) \<Rightarrow>
                if pre = []
                then (Some (Errorf ''quicmq: REP: invalid request message (no envelope delimiter)'' []),
                      empty_msg, p')
                else (None, innerMsg, p'\<lparr>rstate := repState_set c pre (rstate p')\<rparr>))]"

text \<open>The deferred calls of \<^verbatim>\<open>listen\<close>, and one round of its loop.\<close>

definition repReader_leave :: "conn_id \<Rightarrow> rep_pools \<Rightarrow> rep_pools" where
  "repReader_leave c p =
     (case st_Close c (rstore p) of
        (_, st) \<Rightarrow>
          let p' = repReader_rmConn c (p\<lparr>rstore := st\<rparr>) in
          p'\<lparr>rreader := (rreader p')\<lparr>rr_listeners := rm_from c (rr_listeners (rreader p'))\<rparr>\<rparr>)"

definition repReader_listen :: "ctx \<Rightarrow> conn_id \<Rightarrow> rep_pools \<Rightarrow> rep_pools blocking" where
  "repReader_listen ctx1 c p =
     (case st_read c (rstore p) of
        (m, st) \<Rightarrow>
          let p' = p\<lparr>rstore := st\<rparr> in
          if ctx1 \<noteq> None then Returns (repReader_leave c p')
          else if msg_err m \<noteq> None then Returns (repReader_leave c p')
          else case chan_send (c, m) (msgCh (rreader p')) of
              Sent ch \<Rightarrow> Returns (p'\<lparr>rreader := (rreader p')\<lparr>msgCh := ch\<rparr>\<rparr>)
            | SendBlocks \<Rightarrow> Waits
            | SendPanics \<Rightarrow> Panics)"

definition repReader_Close :: "rep_pools \<Rightarrow> go_error option \<times> rep_pools" where
  "repReader_Close p =
     (case close_all (rr_conns (rreader p)) None (rstore p) of
        (e, st) \<Rightarrow> (e, p\<lparr>rreader := (rreader p)\<lparr>rr_conns := []\<rparr>, rstore := st\<rparr>))"

section \<open>The writer\<close>

definition repWriter_addConn :: "conn_id \<Rightarrow> rep_pools \<Rightarrow> rep_pools" where
  "repWriter_addConn c p = p\<lparr>rwriter := (rwriter p)\<lparr>rw_conns := rw_conns (rwriter p) @ [c]\<rparr>\<rparr>"

definition repWriter_rmConn :: "conn_id \<Rightarrow> rep_pools \<Rightarrow> rep_pools" where
  "repWriter_rmConn c p = p\<lparr>rwriter := (rwriter p)\<lparr>rw_conns := rm_from c (rw_conns (rwriter p))\<rparr>\<rparr>"

text \<open>
  \<^verbatim>\<open>write\<close>: the case that hands the payload to \<^verbatim>\<open>run\<close> also clears the routing state; on a
  closed channel that case panics.
\<close>

definition repWriter_write ::
    "nat \<Rightarrow> ctx \<Rightarrow> ctx \<Rightarrow> msg \<Rightarrow> rep_pools \<Rightarrow> (go_error option \<times> rep_pools) blocking" where
  "repWriter_write pick ctx1 rctx m p =
     (case repState_get (rstate p) of
        (None, _) \<Rightarrow> Returns (Some (Errorf ''quicmq: REP: no pending request to reply to'' []), p)
      | (Some c, pre) \<Rightarrow>
          go_select pick
            [case_done ctx1 (\<lambda>e. (Some e, p)),
             case_done rctx (\<lambda>e. (Some e, p)),
             (if sendCh_closed (rwriter p) then Panics
              else if running (rwriter p) \<and> sending (rwriter p) = None
              then Returns (None,
                     p\<lparr>rwriter := (rwriter p)\<lparr>sending :=
                         Some \<lparr>pl_conn = c, pl_preamble = pre, pl_msg = m\<rparr>\<rparr>,
                       rstate := repState_clear (rstate p)\<rparr>)
              else Waits)])"

fun sendPayload_loop :: "conn_id list \<Rightarrow> repSendPayload \<Rightarrow> store \<Rightarrow> store" where
  "sendPayload_loop [] pl st = st"
| "sendPayload_loop (c # cs) pl st =
     (if c = pl_conn pl then snd (st_SendMsg (buildReplyMsg pl) c st) else sendPayload_loop cs pl st)"

definition sendPayload :: "repSendPayload \<Rightarrow> rep_pools \<Rightarrow> rep_pools" where
  "sendPayload pl p = p\<lparr>rstore := sendPayload_loop (rw_conns (rwriter p)) pl (rstore p)\<rparr>"

text \<open>
  One round of \<^verbatim>\<open>run\<close>: send the payload it holds, then go back to its \<^verbatim>\<open>select\<close>; there it
  returns when the context is done or the channel is closed.
\<close>

definition repWriter_run :: "ctx \<Rightarrow> rep_pools \<Rightarrow> rep_pools blocking" where
  "repWriter_run rctx p =
     (case sending (rwriter p) of
        Some pl \<Rightarrow>
          (let p' = sendPayload pl p in
           Returns (p'\<lparr>rwriter := (rwriter p')\<lparr>sending := None\<rparr>\<rparr>))
      | None \<Rightarrow>
          if running (rwriter p) \<and> (rctx \<noteq> None \<or> sendCh_closed (rwriter p))
          then Returns (p\<lparr>rwriter := (rwriter p)\<lparr>running := False\<rparr>\<rparr>) else Waits)"

definition repWriter_Close :: "rep_pools \<Rightarrow> (go_error option \<times> rep_pools) blocking" where
  "repWriter_Close p =
     (if sendCh_closed (rwriter p) then Panics
      else case close_all (rw_conns (rwriter p)) None (rstore p) of
          (e, st) \<Rightarrow>
            Returns (e, p\<lparr>rwriter := (rwriter p)\<lparr>rw_conns := [], sendCh_closed := True\<rparr>,
                          rstore := st\<rparr>))"

section \<open>The calls\<close>

definition rep_Send ::
    "nat \<Rightarrow> ctx \<Rightarrow> ctx \<Rightarrow> msg \<Rightarrow> rep_pools \<Rightarrow> (go_error option \<times> rep_pools) blocking" where
  "rep_Send pick ctx1 rctx m p = repWriter_write pick ctx1 rctx m p"

definition rep_SendMulti ::
    "nat \<Rightarrow> ctx \<Rightarrow> ctx \<Rightarrow> msg \<Rightarrow> rep_pools \<Rightarrow> (go_error option \<times> rep_pools) blocking" where
  "rep_SendMulti pick ctx1 rctx m p = repWriter_write pick ctx1 rctx (m\<lparr>multipart := True\<rparr>) p"

definition rep_Recv ::
    "nat \<Rightarrow> ctx \<Rightarrow> rep_pools \<Rightarrow> ((msg \<times> go_error option) \<times> rep_pools) blocking" where
  "rep_Recv pick ctx1 p =
     (case repReader_read pick ctx1 p of
        Returns (e, m, p') \<Rightarrow> Returns ((m, e), p')
      | Waits \<Rightarrow> Waits
      | Panics \<Rightarrow> Panics)"

interpretation rep_reader: conn_pool repReader_addConn repReader_rmConn "\<lambda>p. rr_conns (rreader p)"
  by unfold_locales (simp_all add: repReader_addConn_def repReader_rmConn_def rm_from_remove1)

interpretation rep_writer: conn_pool repWriter_addConn repWriter_rmConn "\<lambda>p. rw_conns (rwriter p)"
  by unfold_locales (simp_all add: repWriter_addConn_def repWriter_rmConn_def rm_from_remove1)

section \<open>Lemmas on envelopes\<close>

lemma splitReq_loop_found:
  "Frames1 = done1 @ pre @ [] # post \<Longrightarrow> list_all (\<lambda>f. f \<noteq> []) pre \<Longrightarrow> i = length done1 \<Longrightarrow>
     splitReq_loop i (pre @ [] # post) Frames1 =
       (done1 @ pre @ [[]], if post = [] then empty_msg else NewMsgFrom post)"
  by (induction pre arbitrary: i done1) auto

lemma splitReq_loop_absent:
  "list_all (\<lambda>f. f \<noteq> []) fs \<Longrightarrow> splitReq_loop i fs all1 = ([], empty_msg)"
  by (induction fs arbitrary: i) auto

lemma NewMsgFrom_Nil: "NewMsgFrom [] = empty_msg"
  by (simp add: NewMsgFrom_def empty_msg_def)

lemma splitReq_delimited:
  "list_all (\<lambda>f. f \<noteq> []) pre \<Longrightarrow> Frames m = pre @ [] # post \<Longrightarrow>
     splitReq m = (pre @ [[]], NewMsgFrom post)"
  using splitReq_loop_found [of "pre @ [] # post" "[]" pre post 0]
  by (auto simp: splitReq_def NewMsgFrom_Nil)

lemma splitReq_undelimited: "[] \<notin> set (Frames m) \<Longrightarrow> splitReq m = ([], empty_msg)"
  unfolding splitReq_def by (rule splitReq_loop_absent) (auto simp: list_all_iff)

lemma first_empty:
  assumes "[] \<in> set fs"
  shows "\<exists>pre post. fs = pre @ [] # post \<and> list_all (\<lambda>f. f \<noteq> []) pre"
proof -
  from split_list_first [OF assms] obtain pre post where "fs = pre @ [] # post" "[] \<notin> set pre" by blast
  then show ?thesis by (intro exI [of _ pre] exI [of _ post]) (auto simp: list_all_iff)
qed

lemma Frames_NewMsgFrom [simp]: "Frames (NewMsgFrom fs) = fs"
  by (simp add: NewMsgFrom_def)

lemma splitReq_parts:
  "splitReq m = (pre, inner) \<Longrightarrow> pre \<noteq> [] \<Longrightarrow>
     pre @ Frames inner = Frames m \<and> last pre = [] \<and> [] \<notin> set (butlast pre)"
proof (cases "[] \<in> set (Frames m)")
  case True
  assume s: "splitReq m = (pre, inner)"
  from first_empty [OF True] obtain a b where ab: "Frames m = a @ [] # b" "list_all (\<lambda>f. f \<noteq> []) a"
    by blast
  from splitReq_delimited [OF ab(2,1)] s ab show ?thesis by (auto simp: list_all_iff)
qed (simp add: splitReq_undelimited)

section \<open>The socket as a transition system\<close>

text \<open>
  The reader's goroutines queue what they read, the application receives and replies, the
  goroutine \<^verbatim>\<open>run\<close> sends; connections come and go, the two pools are closed, and the network
  may do anything to the connections. \<open>rlog\<close> records what became of each request and reply.
\<close>

datatype rep_event =
    Queued conn_id msg | Accepted conn_id msg | Refused conn_id msg
  | Replied msg | Delivered conn_id "bytes list" | Discarded conn_id "bytes list"

record rep_sys =
  rpools :: rep_pools
  rlog :: "rep_event list"

definition rep_init :: "store \<Rightarrow> rep_sys" where
  "rep_init st = \<lparr>rpools = newRep_pools st, rlog = []\<rparr>"

text \<open>What a payload that \<^verbatim>\<open>run\<close> sends becomes.\<close>

definition send_event :: "rep_pools \<Rightarrow> repSendPayload \<Rightarrow> rep_event" where
  "send_event p pl =
     (if pl_conn pl \<in> set (rw_conns (rwriter p))
      then Delivered (pl_conn pl) (Frames (buildReplyMsg pl))
      else Discarded (pl_conn pl) (Frames (buildReplyMsg pl)))"

inductive rep_step :: "rep_sys \<Rightarrow> rep_sys \<Rightarrow> bool" where
  listen_queued: "c \<in> set (rr_listeners (rreader (rpools s))) \<Longrightarrow>
     repReader_listen ctx1 c (rpools s) = Returns p \<Longrightarrow>
     buf (msgCh (rreader p)) = buf (msgCh (rreader (rpools s))) @ [(c, m)] \<Longrightarrow>
     rep_step s (s\<lparr>rpools := p, rlog := rlog s @ [Queued c m]\<rparr>)"
| listen_left: "c \<in> set (rr_listeners (rreader (rpools s))) \<Longrightarrow>
     repReader_listen ctx1 c (rpools s) = Returns p \<Longrightarrow>
     buf (msgCh (rreader p)) = buf (msgCh (rreader (rpools s))) \<Longrightarrow>
     rep_step s (s\<lparr>rpools := p\<rparr>)"
| recv_ok: "rep_Recv pick ctx1 (rpools s) = Returns ((m, None), p) \<Longrightarrow>
     buf (msgCh (rreader (rpools s))) = (c, q) # rest \<Longrightarrow>
     rep_step s (s\<lparr>rpools := p, rlog := rlog s @ [Accepted c q]\<rparr>)"
| recv_refused: "rep_Recv pick ctx1 (rpools s) = Returns ((m, Some e), p) \<Longrightarrow>
     buf (msgCh (rreader (rpools s))) = (c, q) # buf (msgCh (rreader p)) \<Longrightarrow>
     rep_step s (s\<lparr>rpools := p, rlog := rlog s @ [Refused c q]\<rparr>)"
| recv_cancelled: "rep_Recv pick ctx1 (rpools s) = Returns ((m, Some e), p) \<Longrightarrow>
     buf (msgCh (rreader (rpools s))) = buf (msgCh (rreader p)) \<Longrightarrow>
     rep_step s (s\<lparr>rpools := p\<rparr>)"
| send_ok: "rep_Send pick ctx1 rctx m (rpools s) = Returns (None, p) \<Longrightarrow>
     rep_step s (s\<lparr>rpools := p, rlog := rlog s @ [Replied m]\<rparr>)"
| send_failed: "rep_Send pick ctx1 rctx m (rpools s) = Returns (Some e, p) \<Longrightarrow>
     rep_step s (s\<lparr>rpools := p\<rparr>)"
| run_send: "repWriter_run rctx (rpools s) = Returns p \<Longrightarrow> sending (rwriter (rpools s)) = Some pl \<Longrightarrow>
     rep_step s (s\<lparr>rpools := p, rlog := rlog s @ [send_event (rpools s) pl]\<rparr>)"
| run_stop: "repWriter_run rctx (rpools s) = Returns p \<Longrightarrow> sending (rwriter (rpools s)) = None \<Longrightarrow>
     rep_step s (s\<lparr>rpools := p\<rparr>)"
| added: "rep_step s (s\<lparr>rpools := repWriter_addConn c (repReader_addConn c (rpools s))\<rparr>)"
| removed: "rep_step s (s\<lparr>rpools := repWriter_rmConn c (repReader_rmConn c (rpools s))\<rparr>)"
| closed_reader: "repReader_Close (rpools s) = (e, p) \<Longrightarrow> rep_step s (s\<lparr>rpools := p\<rparr>)"
| closed_writer: "repWriter_Close (rpools s) = Returns (e, p) \<Longrightarrow> rep_step s (s\<lparr>rpools := p\<rparr>)"
| net: "rep_step s (s\<lparr>rpools := (rpools s)\<lparr>rstore := st\<rparr>\<rparr>)"

inductive rep_reach :: "rep_sys \<Rightarrow> bool" where
  rep_start: "rep_reach (rep_init st)"
| rep_next: "rep_reach s \<Longrightarrow> rep_step s t \<Longrightarrow> rep_reach t"

text \<open>
  The specification: a queue of requests, the request that may be answered, the reply that is
  on its way.
\<close>

record rep_abs =
  queue :: "(conn_id \<times> msg) list"
  answerable :: "(conn_id \<times> bytes list) option"
  on_way :: "(conn_id \<times> bytes list) option"

fun rep_spec :: "rep_abs \<Rightarrow> rep_event \<Rightarrow> rep_abs option" where
  "rep_spec a (Queued c m) = Some (a\<lparr>queue := queue a @ [(c, m)]\<rparr>)"
| "rep_spec a (Accepted c m) =
     (case queue a of
        [] \<Rightarrow> None
      | x # q \<Rightarrow> if x = (c, m) \<and> [] \<in> set (Frames m)
               then Some (a\<lparr>queue := q, answerable := Some (c, fst (splitReq m))\<rparr>) else None)"
| "rep_spec a (Refused c m) =
     (case queue a of [] \<Rightarrow> None | x # q \<Rightarrow> if x = (c, m) then Some (a\<lparr>queue := q\<rparr>) else None)"
| "rep_spec a (Replied m) =
     (case answerable a of
        None \<Rightarrow> None
      | Some (c, pre) \<Rightarrow>
          if on_way a = None
          then Some (a\<lparr>answerable := None, on_way := Some (c, pre @ Frames m)\<rparr>) else None)"
| "rep_spec a (Delivered c fs) = (if on_way a = Some (c, fs) then Some (a\<lparr>on_way := None\<rparr>) else None)"
| "rep_spec a (Discarded c fs) = (if on_way a = Some (c, fs) then Some (a\<lparr>on_way := None\<rparr>) else None)"

fun rep_spec_run :: "rep_abs \<Rightarrow> rep_event list \<Rightarrow> rep_abs option" where
  "rep_spec_run a [] = Some a"
| "rep_spec_run a (e # es) = Option.bind (rep_spec a e) (\<lambda>b. rep_spec_run b es)"

definition rep_empty :: rep_abs where
  "rep_empty = \<lparr>queue = [], answerable = None, on_way = None\<rparr>"

lemma rep_spec_run_append:
  "rep_spec_run a (es @ fs) = Option.bind (rep_spec_run a es) (\<lambda>b. rep_spec_run b fs)"
  by (induction es arbitrary: a) (auto split: Option.bind_splits)

text \<open>The abstraction of a state of the socket, and the invariant that refinement keeps.\<close>

definition rep_abstract :: "rep_pools \<Rightarrow> rep_abs" where
  "rep_abstract p =
     \<lparr>queue = buf (msgCh (rreader p)),
      answerable = map_option (\<lambda>c. (c, rs_preamble (rstate p))) (rs_conn (rstate p)),
      on_way = map_option (\<lambda>pl. (pl_conn pl, Frames (buildReplyMsg pl))) (sending (rwriter p))\<rparr>"

definition rep_inv :: "rep_sys \<Rightarrow> bool" where
  "rep_inv s = (rep_spec_run rep_empty (rlog s) = Some (rep_abstract (rpools s)) \<and>
                chan_ok (msgCh (rreader (rpools s))) \<and> cap (msgCh (rreader (rpools s))) = 10)"


section \<open>Each operation against the specification\<close>

lemma case_recv_Returns:
  "case_recv ch f = Returns r \<Longrightarrow> \<exists>x ch'. chan_recv ch = Received x ch' \<and> r = f x ch'"
  by (auto simp: case_recv_def split: recv_result.splits)

lemma case_done_Returns: "case_done c f = Returns r \<Longrightarrow> \<exists>e. c = Some e \<and> r = f e"
  by (auto simp: case_done_def split: option.splits)

text \<open>What \<^verbatim>\<open>Recv\<close> does with the request at the head of the queue.\<close>

lemma rep_Recv_Returns:
  assumes "rep_Recv pick ctx1 p = Returns ((m, e), p')"
  shows "(e = ctx1 \<and> e \<noteq> None \<and> p' = p \<and> m = empty_msg) \<or>
    (\<exists>c q ch. chan_recv (msgCh (rreader p)) = Received (c, q) ch \<and> rwriter p' = rwriter p \<and>
       rreader p' = (rreader p)\<lparr>msgCh := ch\<rparr> \<and> rstore p' = rstore p \<and>
       (if e = None
        then msg_err q = None \<and> fst (splitReq q) \<noteq> [] \<and> m = snd (splitReq q) \<and>
             rstate p' = repState_set c (fst (splitReq q)) (rstate p)
        else rstate p' = rstate p \<and> m = empty_msg))"
proof -
  from assms have r: "repReader_read pick ctx1 p = Returns (e, m, p')"
    by (auto simp: rep_Recv_def split: blocking.splits)
  from go_select_Returns [OF r [unfolded repReader_read_def]]
  consider "case_done ctx1 (\<lambda>e. (Some e, empty_msg, p)) = Returns (e, m, p')"
    | "case_recv (msgCh (rreader p)) (\<lambda>(c, m) ch.
          let p' = p\<lparr>rreader := (rreader p)\<lparr>msgCh := ch\<rparr>\<rparr> in
          if msg_err m \<noteq> None then (msg_err m, empty_msg, p')
          else case splitReq m of
              (pre, innerMsg) \<Rightarrow>
                if pre = []
                then (Some (Errorf ''quicmq: REP: invalid request message (no envelope delimiter)'' []),
                      empty_msg, p')
                else (None, innerMsg, p'\<lparr>rstate := repState_set c pre (rstate p')\<rparr>)) = Returns (e, m, p')"
    by (metis (no_types, lifting) empty_iff list.set(1) set_ConsD)
  then show ?thesis
  proof cases
    case 1
    from case_done_Returns [OF this] show ?thesis by auto
  next
    case 2
    from case_recv_Returns [OF this] obtain c q ch where
      "chan_recv (msgCh (rreader p)) = Received (c, q) ch"
      "(e, m, p') = (let p' = p\<lparr>rreader := (rreader p)\<lparr>msgCh := ch\<rparr>\<rparr> in
          if msg_err q \<noteq> None then (msg_err q, empty_msg, p')
          else case splitReq q of
              (pre, innerMsg) \<Rightarrow>
                if pre = []
                then (Some (Errorf ''quicmq: REP: invalid request message (no envelope delimiter)'' []),
                      empty_msg, p')
                else (None, innerMsg, p'\<lparr>rstate := repState_set c pre (rstate p')\<rparr>))"
      by auto
    then show ?thesis
      by (intro disjI2 exI [of _ c] exI [of _ q] exI [of _ ch])
        (auto simp: Let_def split: if_splits prod.splits)
  qed
qed

text \<open>What \<^verbatim>\<open>Send\<close> does: nothing but an error, or the hand-over of the reply.\<close>

lemma rep_Send_Returns:
  assumes "rep_Send pick ctx1 rctx m p = Returns (e, p')"
  shows "if e = None
    then \<exists>c. rs_conn (rstate p) = Some c \<and> running (rwriter p) \<and> sending (rwriter p) = None \<and>
       \<not> sendCh_closed (rwriter p) \<and>
       p' = p\<lparr>rwriter := (rwriter p)\<lparr>sending := Some \<lparr>pl_conn = c, pl_preamble = rs_preamble (rstate p),
                                                   pl_msg = m\<rparr>\<rparr>,
              rstate := repState_clear (rstate p)\<rparr>
    else p' = p"
proof (cases "rs_conn (rstate p)")
  case None
  with assms show ?thesis by (auto simp: rep_Send_def repWriter_write_def repState_get_def)
next
  case (Some c)
  with assms have "go_select pick
            [case_done ctx1 (\<lambda>e. (Some e, p)),
             case_done rctx (\<lambda>e. (Some e, p)),
             (if sendCh_closed (rwriter p) then Panics
              else if running (rwriter p) \<and> sending (rwriter p) = None
              then Returns (None,
                     p\<lparr>rwriter := (rwriter p)\<lparr>sending :=
                         Some \<lparr>pl_conn = c, pl_preamble = rs_preamble (rstate p), pl_msg = m\<rparr>\<rparr>,
                       rstate := repState_clear (rstate p)\<rparr>)
              else Waits)] = Returns (e, p')"
    by (simp add: rep_Send_def repWriter_write_def repState_get_def)
  from go_select_Returns [OF this] Some show ?thesis
    by (auto dest!: case_done_Returns sym [of "Returns _"] split: if_splits)
qed

lemma sendPayload_frame [simp]:
  "rstate (sendPayload pl p) = rstate p" "rreader (sendPayload pl p) = rreader p"
  "rwriter (sendPayload pl p) = rwriter p"
  by (simp_all add: sendPayload_def)

lemma chan_send_ok_cap:
  "chan_send x ch = Sent ch' \<Longrightarrow> chan_ok ch' \<and> cap ch' = cap ch \<and> buf ch' = buf ch @ [x]"
  by (auto simp: chan_send_def chan_ok_def split: if_splits)

text \<open>What one round of \<^verbatim>\<open>listen\<close> does to the pool.\<close>

lemma repReader_leave_frame [simp]:
  "rstate (repReader_leave c p) = rstate p" "rwriter (repReader_leave c p) = rwriter p"
  "msgCh (rreader (repReader_leave c p)) = msgCh (rreader p)"
  by (simp_all add: repReader_leave_def repReader_rmConn_def Let_def split: prod.splits)

lemma repReader_listen_Returns:
  assumes "repReader_listen ctx1 c p = Returns p'"
  shows "rstate p' = rstate p \<and> rwriter p' = rwriter p \<and>
    (msgCh (rreader p') = msgCh (rreader p) \<or>
     chan_send (c, fst (st_read c (rstore p))) (msgCh (rreader p)) = Sent (msgCh (rreader p')))"
  using assms by (auto simp: repReader_listen_def Let_def split: prod.splits if_splits send_result.splits)

lemma splitReq_found: "fst (splitReq q) \<noteq> [] \<Longrightarrow> [] \<in> set (Frames q)"
  using splitReq_undelimited [of q] by fastforce

lemma rep_step_inv: "rep_step s t \<Longrightarrow> rep_inv s \<Longrightarrow> rep_inv t"
proof (induction rule: rep_step.induct)
  case (listen_queued c s ctx1 p m)
  from repReader_listen_Returns [OF listen_queued.hyps(2)] listen_queued.hyps(3) listen_queued.prems
  show ?case
    by (auto simp: rep_inv_def rep_spec_run_append rep_abstract_def dest!: chan_send_ok_cap)
next
  case (listen_left c s ctx1 p)
  from repReader_listen_Returns [OF listen_left.hyps(2)] listen_left.hyps(3) listen_left.prems
  show ?case
    by (auto simp: rep_inv_def rep_abstract_def dest!: chan_send_ok_cap)
next
  case (recv_ok pick ctx1 s m p c q rest)
  from rep_Recv_Returns [OF recv_ok.hyps(1)] recv_ok.hyps(2) recv_ok.prems
  show ?case
    by (auto simp: rep_inv_def rep_spec_run_append rep_abstract_def repState_set_def splitReq_found
        dest: chan_recv_buf chan_ok_recv)
next
  case (recv_refused pick ctx1 s m e p c q)
  from rep_Recv_Returns [OF recv_refused.hyps(1)] recv_refused.hyps(2) recv_refused.prems
  show ?case
    by (auto simp: rep_inv_def rep_spec_run_append rep_abstract_def
        dest: chan_recv_buf chan_ok_recv)
next
  case (recv_cancelled pick ctx1 s m e p)
  from rep_Recv_Returns [OF recv_cancelled.hyps(1)] recv_cancelled.hyps(2) recv_cancelled.prems
  show ?case by (auto simp: rep_inv_def rep_abstract_def dest!: chan_recv_buf)
next
  case (send_ok pick ctx1 rctx m s p)
  from rep_Send_Returns [OF send_ok.hyps(1)] send_ok.prems show ?case
    by (auto simp: rep_inv_def rep_spec_run_append rep_abstract_def repState_clear_def
        buildReplyMsg_def)
next
  case (send_failed pick ctx1 rctx m s e p)
  from rep_Send_Returns [OF send_failed.hyps(1)] send_failed.prems show ?case by simp
next
  case (run_send rctx s p pl)
  then have "p = (sendPayload pl (rpools s))\<lparr>rwriter := (rwriter (rpools s))\<lparr>sending := None\<rparr>\<rparr>"
    by (simp add: repWriter_run_def)
  with run_send show ?case
    by (simp add: rep_inv_def rep_spec_run_append rep_abstract_def send_event_def)
next
  case (run_stop rctx s p)
  then show ?case by (auto simp: rep_inv_def repWriter_run_def rep_abstract_def split: if_splits)
next
  case (closed_reader s e p)
  then show ?case by (auto simp: rep_inv_def repReader_Close_def rep_abstract_def split: prod.splits)
next
  case (closed_writer s e p)
  then show ?case
    by (auto simp: rep_inv_def repWriter_Close_def rep_abstract_def split: prod.splits if_splits)
qed (simp_all add: rep_inv_def rep_abstract_def repReader_addConn_def repReader_rmConn_def
    repWriter_addConn_def repWriter_rmConn_def)

lemma rep_reach_inv: "rep_reach s \<Longrightarrow> rep_inv s"
proof (induction rule: rep_reach.induct)
  case (rep_start st)
  show ?case
    by (simp add: rep_inv_def rep_init_def newRep_pools_def rep_abstract_def newRepReader_def
        newRepWriter_def newRepState_def rep_empty_def make_chan_def chan_ok_def)
next
  case (rep_next s t)
  then show ?case by (blast intro: rep_step_inv)
qed

section \<open>What the specification promises\<close>

text \<open>The last event that set a component of the abstract state.\<close>

lemma rep_spec_answerable:
  "rep_spec_run rep_empty h = Some a \<Longrightarrow> answerable a = Some (c, pre) \<Longrightarrow>
     \<exists>h1 q h2. h = h1 @ Accepted c q # h2 \<and> pre = fst (splitReq q) \<and> [] \<in> set (Frames q) \<and>
       (\<forall>e \<in> set h2. (\<forall>d r. e \<noteq> Accepted d r) \<and> (\<forall>m. e \<noteq> Replied m))"
proof (induction h arbitrary: a rule: rev_induct)
  case Nil
  then show ?case by (auto simp: rep_empty_def)
next
  case (snoc e h)
  then obtain b where b: "rep_spec_run rep_empty h = Some b" "rep_spec b e = Some a"
    by (auto simp: rep_spec_run_append split: Option.bind_splits)
  show ?case
  proof (cases "\<exists>d q. e = Accepted d q")
    case True
    with b(2) snoc.prems(2) obtain q where "e = Accepted c q" "pre = fst (splitReq q)"
      "[] \<in> set (Frames q)" by (auto split: list.splits if_splits)
    then show ?thesis by (intro exI [of _ h] exI [of _ q] exI [of _ "[]"]) simp
  next
    case False
    with b(2) snoc.prems(2) have "answerable b = Some (c, pre)" "\<forall>m. e \<noteq> Replied m"
      by (cases e; auto split: list.splits option.splits if_splits)+
    with snoc.IH [OF b(1)] obtain h1 q h2 where h: "h = h1 @ Accepted c q # h2"
        "pre = fst (splitReq q)" "[] \<in> set (Frames q)"
        "\<forall>e \<in> set h2. (\<forall>d r. e \<noteq> Accepted d r) \<and> (\<forall>m. e \<noteq> Replied m)" by blast
    with False \<open>\<forall>m. e \<noteq> Replied m\<close> show ?thesis
      by (intro exI [of _ h1] exI [of _ q] exI [of _ "h2 @ [e]"]) simp
  qed
qed

lemma rep_spec_on_way:
  "rep_spec_run rep_empty h = Some a \<Longrightarrow> on_way a = Some (c, fs) \<Longrightarrow>
     \<exists>h1 m h2 b pre. h = h1 @ Replied m # h2 \<and> rep_spec_run rep_empty h1 = Some b \<and>
       answerable b = Some (c, pre) \<and> fs = pre @ Frames m \<and>
       (\<forall>e \<in> set h2. (\<forall>d r. e \<noteq> Delivered d r) \<and> (\<forall>d r. e \<noteq> Discarded d r) \<and> (\<forall>m. e \<noteq> Replied m))"
proof (induction h arbitrary: a rule: rev_induct)
  case Nil
  then show ?case by (auto simp: rep_empty_def)
next
  case (snoc e h)
  then obtain b where b: "rep_spec_run rep_empty h = Some b" "rep_spec b e = Some a"
    by (auto simp: rep_spec_run_append split: Option.bind_splits)
  show ?case
  proof (cases "\<exists>m. e = Replied m")
    case True
    with b(2) snoc.prems(2) obtain m pre where "e = Replied m" "answerable b = Some (c, pre)"
      "fs = pre @ Frames m" by (auto split: option.splits if_splits)
    with b(1) show ?thesis
      by (intro exI [of _ h] exI [of _ m] exI [of _ "[]"] exI [of _ b] exI [of _ pre]) simp
  next
    case False
    with b(2) snoc.prems(2) have on: "on_way b = Some (c, fs)"
      and no: "\<forall>d r. e \<noteq> Delivered d r" "\<forall>d r. e \<noteq> Discarded d r"
      by (cases e; auto split: list.splits option.splits if_splits)+
    from snoc.IH [OF b(1) on] obtain h1 m h2 b1 pre where h: "h = h1 @ Replied m # h2"
        "rep_spec_run rep_empty h1 = Some b1" "answerable b1 = Some (c, pre)" "fs = pre @ Frames m"
        "\<forall>e \<in> set h2. (\<forall>d r. e \<noteq> Delivered d r) \<and> (\<forall>d r. e \<noteq> Discarded d r) \<and> (\<forall>m. e \<noteq> Replied m)"
      by blast
    with False no show ?thesis
      by (intro exI [of _ h1] exI [of _ m] exI [of _ "h2 @ [e]"] exI [of _ b1] exI [of _ pre]) simp
  qed
qed

text \<open>Requests are accepted or refused in the order in which they were queued.\<close>

definition queued_of :: "rep_event \<Rightarrow> (conn_id \<times> msg) option" where
  "queued_of e = (case e of Queued c m \<Rightarrow> Some (c, m) | _ \<Rightarrow> None)"

definition taken_of :: "rep_event \<Rightarrow> (conn_id \<times> msg) option" where
  "taken_of e = (case e of Accepted c m \<Rightarrow> Some (c, m) | Refused c m \<Rightarrow> Some (c, m) | _ \<Rightarrow> None)"

lemma rep_spec_fifo:
  "rep_spec_run rep_empty h = Some a \<Longrightarrow>
     List.map_filter queued_of h = List.map_filter taken_of h @ queue a"
proof (induction h arbitrary: a rule: rev_induct)
  case Nil
  then show ?case by (auto simp: rep_empty_def List.map_filter_def)
next
  case (snoc e h)
  then obtain b where b: "rep_spec_run rep_empty h = Some b" "rep_spec b e = Some a"
    by (auto simp: rep_spec_run_append split: Option.bind_splits)
  with snoc.IH [OF b(1)] show ?case
    by (cases e) (auto simp: List.map_filter_def queued_of_def taken_of_def
        split: list.splits option.splits if_splits)
qed

section \<open>What goes out\<close>

lemma sendPayload_loop_pool:
  "sendPayload_loop cs pl st =
     (if pl_conn pl \<in> set cs then snd (st_SendMsg (buildReplyMsg pl) (pl_conn pl) st) else st)"
  by (induction cs) auto

lemma repWriter_run_sends:
  "sending (rwriter p) = Some pl \<Longrightarrow> repWriter_run rctx p = Returns p' \<Longrightarrow>
     rstore p' = (if pl_conn pl \<in> set (rw_conns (rwriter p))
                  then snd (st_SendMsg (buildReplyMsg pl) (pl_conn pl) (rstore p)) else rstore p)"
  by (auto simp: repWriter_run_def sendPayload_def sendPayload_loop_pool)

section \<open>A run of the socket\<close>

text \<open>One connection, on which the request \<open>[[], [7]]\<close> waits.\<close>

definition rep_demo_store :: store where
  "rep_demo_store = \<lparr>cells = (\<lambda>_. new_conn (bytes_NewReader [1, 0, 0, 0, 0, 0, 0, 0, 0, 1, 7])
                                  \<lparr>wr_script = [], written = []\<rparr>), notified = []\<rparr>"

definition rep_demo_pools :: rep_pools where
  "rep_demo_pools = repWriter_addConn 1 (repReader_addConn 1 (newRep_pools rep_demo_store))"

fun the_return :: "'a blocking \<Rightarrow> 'a option" where
  "the_return (Returns x) = Some x"
| "the_return _ = None"

lemma the_return_Some [simp]: "the_return b = Some x \<longleftrightarrow> b = Returns x"
  by (cases b) auto

definition rep_demo_listened :: rep_pools where
  "rep_demo_listened = the (the_return (repReader_listen None 1 rep_demo_pools))"

definition rep_demo_received :: rep_pools where
  "rep_demo_received = snd (the (the_return (rep_Recv 0 None rep_demo_listened)))"

definition rep_demo_replied :: rep_pools where
  "rep_demo_replied = snd (the (the_return (rep_Send 0 None None (NewMsg [9]) rep_demo_received)))"

definition rep_demo_sent :: rep_pools where
  "rep_demo_sent = the (the_return (repWriter_run None rep_demo_replied))"

lemma is_return: "the_return b \<noteq> None \<Longrightarrow> b = Returns (the (the_return b))"
  by (cases b) auto

lemma is_return_pair:
  "the_return b \<noteq> None \<Longrightarrow> fst (the (the_return b)) = x \<Longrightarrow> b = Returns (x, snd (the (the_return b)))"
  by (cases b) auto

lemma rep_demo_listen: "repReader_listen None 1 rep_demo_pools = Returns rep_demo_listened"
  unfolding rep_demo_listened_def by (rule is_return) code_simp

lemma rep_demo_recv: "rep_Recv 0 None rep_demo_listened = Returns ((NewMsg [7], None), rep_demo_received)"
  unfolding rep_demo_received_def by (rule is_return_pair) code_simp+

lemma rep_demo_send:
  "rep_Send 0 None None (NewMsg [9]) rep_demo_received = Returns (None, rep_demo_replied)"
  unfolding rep_demo_replied_def by (rule is_return_pair) code_simp+

lemma rep_demo_run: "repWriter_run None rep_demo_replied = Returns rep_demo_sent"
  unfolding rep_demo_sent_def by (rule is_return) code_simp

lemma rep_demo_states:
  "rr_listeners (rreader rep_demo_pools) = [1]"
  "buf (msgCh (rreader rep_demo_pools)) = []"
  "buf (msgCh (rreader rep_demo_listened)) = [(1, NewMsgFrom [[], [7]])]"
  "rs_conn (rstate rep_demo_received) = Some 1"
  "rw_conns (rwriter rep_demo_replied) = [1]"
  "sending (rwriter rep_demo_replied) =
     Some \<lparr>pl_conn = 1, pl_preamble = [[]], pl_msg = NewMsg [9]\<rparr>"
  by code_simp+

definition rep_demo_log :: "rep_event list" where
  "rep_demo_log = [Queued 1 (NewMsgFrom [[], [7]]), Accepted 1 (NewMsgFrom [[], [7]]),
                   Replied (NewMsg [9]), Delivered 1 [[], [9]]]"

lemma rep_demo_reach: "rep_reach \<lparr>rpools = rep_demo_sent, rlog = rep_demo_log\<rparr>"
proof -
  from rep_next [OF rep_start added [of _ 1]]
  have "rep_reach \<lparr>rpools = rep_demo_pools, rlog = []\<rparr>"
    by (simp add: rep_init_def rep_demo_pools_def)
  have log1: "take 1 rep_demo_log = [Queued 1 (NewMsgFrom [[], [7]])]" by (simp add: rep_demo_log_def)
  from rep_next [OF \<open>rep_reach \<lparr>rpools = rep_demo_pools, rlog = []\<rparr>\<close>
      listen_queued [of 1 _ None rep_demo_listened "NewMsgFrom [[], [7]]"]]
  have "rep_reach \<lparr>rpools = rep_demo_listened, rlog = take 1 rep_demo_log\<rparr>"
    by (simp add: rep_demo_listen rep_demo_states log1 del: One_nat_def)
  from rep_next [OF this recv_ok [of 0 None _ "NewMsg [7]" rep_demo_received 1 "NewMsgFrom [[], [7]]" "[]"]]
  have "rep_reach \<lparr>rpools = rep_demo_received, rlog = take 2 rep_demo_log\<rparr>"
    by (simp add: rep_demo_recv rep_demo_states log1 del: One_nat_def)
      (simp add: rep_demo_log_def)
  from rep_next [OF this send_ok [of 0 None None "NewMsg [9]" _ rep_demo_replied]]
  have "rep_reach \<lparr>rpools = rep_demo_replied, rlog = take 3 rep_demo_log\<rparr>"
    by (simp add: rep_demo_send rep_demo_log_def)
  from rep_next [OF this run_send [of None _ rep_demo_sent]]
  show ?thesis
    by (simp add: rep_demo_run rep_demo_states rep_demo_log_def send_event_def buildReplyMsg_def
        NewMsg_def NewMsgFrom_def)
qed

section \<open>Properties\<close>

text \<open>
  The envelope: \<^verbatim>\<open>splitReq\<close> cuts a request behind its first empty frame, so the preamble
  and the payload together are the request and the preamble has no other empty frame; a request
  without an empty frame has no preamble and no payload.
\<close>

theorem splitReq_envelope:
  "if [] \<in> set (Frames m)
   then fst (splitReq m) @ Frames (snd (splitReq m)) = Frames m \<and> fst (splitReq m) \<noteq> [] \<and>
        last (fst (splitReq m)) = [] \<and> [] \<notin> set (butlast (fst (splitReq m)))
   else splitReq m = ([], empty_msg)"
proof (cases "[] \<in> set (Frames m)")
  case True
  from first_empty [OF True] obtain a b where ab: "Frames m = a @ [] # b" "list_all (\<lambda>f. f \<noteq> []) a"
    by blast
  from splitReq_delimited [OF ab(2,1)] have "fst (splitReq m) \<noteq> []" by simp
  with splitReq_parts [of m "fst (splitReq m)" "snd (splitReq m)"] True show ?thesis by simp
next
  case False
  then show ?thesis by (simp add: splitReq_undelimited)
qed







end
