(* ===== verification/Transport.thy ===== *)
theory Transport
  imports GoRuntime "HOL-Library.AList"
begin

text \<open>
  \<^verbatim>\<open>transport.go\<close> and \<^verbatim>\<open>tls.go\<close>: the registry of transports, the parsing of endpoints, the
  values that travel in a context from a socket to its transport, and the TLS configurations.
\<close>

section \<open>TLS configurations\<close>

text \<open>
  Of \<^verbatim>\<open>tls.Config\<close> the fields that \<^verbatim>\<open>tls.go\<close> sets. Certificates, keys and pools of authorities
  are byte strings here; what files hold and how the standard library parses and generates
  certificates are parameters.
\<close>

record tls_config =
  Certificates :: "bytes list"
  NextProtos :: "string list"
  InsecureSkipVerify :: bool
  RootCAs :: "bytes option"
  session_cache :: "nat option"

definition QUICProtocol :: string where
  "QUICProtocol = ''quicmq''"

definition empty_tls :: tls_config where
  "empty_tls = \<lparr>Certificates = [], NextProtos = [], InsecureSkipVerify = False, RootCAs = None,
                session_cache = None\<rparr>"

text \<open>\<open>None\<close> is the panic when no key or certificate can be made.\<close>

definition GenerateTLSConfig :: "go_error + 'key \<Rightarrow> ('key \<Rightarrow> go_error + bytes) \<Rightarrow> tls_config option" where
  "GenerateTLSConfig GenerateKey CreateCertificate =
     (case GenerateKey of
        Inl e \<Rightarrow> None
      | Inr key \<Rightarrow>
          (case CreateCertificate key of
             Inl e \<Rightarrow> None
           | Inr certDER \<Rightarrow>
               Some (empty_tls\<lparr>Certificates := [certDER], NextProtos := [QUICProtocol]\<rparr>)))"

definition InsecureClientTLSConfig :: tls_config where
  "InsecureClientTLSConfig =
     empty_tls\<lparr>InsecureSkipVerify := True, NextProtos := [QUICProtocol], session_cache := Some 128\<rparr>"

definition NewTLSConfig ::
    "(string \<Rightarrow> go_error + bytes) \<Rightarrow> (bytes \<Rightarrow> bytes \<Rightarrow> go_error + bytes) \<Rightarrow> string \<Rightarrow> string
       \<Rightarrow> go_error + tls_config" where
  "NewTLSConfig ReadFile X509KeyPair certFile keyFile =
     (case ReadFile certFile of
        Inl e \<Rightarrow> Inl (Wrapf ''quicmq: read cert file: %w'' [] e)
      | Inr certPEM \<Rightarrow>
          (case ReadFile keyFile of
             Inl e \<Rightarrow> Inl (Wrapf ''quicmq: read key file: %w'' [] e)
           | Inr keyPEM \<Rightarrow>
               (case X509KeyPair certPEM keyPEM of
                  Inl e \<Rightarrow> Inl (Wrapf ''quicmq: parse key pair: %w'' [] e)
                | Inr cert \<Rightarrow>
                    Inr (empty_tls\<lparr>Certificates := [cert], NextProtos := [QUICProtocol]\<rparr>))))"

definition NewClientTLSConfig ::
    "(string \<Rightarrow> go_error + bytes) \<Rightarrow> (bytes \<Rightarrow> bytes option) \<Rightarrow> string \<Rightarrow> go_error + tls_config" where
  "NewClientTLSConfig ReadFile AppendCertsFromPEM caFile =
     (let cfg = empty_tls\<lparr>NextProtos := [QUICProtocol], session_cache := Some 128\<rparr> in
      if caFile \<noteq> ''''
      then case ReadFile caFile of
          Inl e \<Rightarrow> Inl (Wrapf ''quicmq: read CA file: %w'' [] e)
        | Inr caPEM \<Rightarrow>
            (case AppendCertsFromPEM caPEM of
               None \<Rightarrow> Inl (Errorf ''quicmq: failed to parse CA certificate from %q'' [Str caFile])
             | Some pool \<Rightarrow> Inr (cfg\<lparr>RootCAs := Some pool\<rparr>))
      else Inr cfg)"

text \<open>\<^verbatim>\<open>mustParsePEM\<close>; \<open>Decode\<close> is \<^verbatim>\<open>pem.Decode\<close>: the bytes of the first block, if any, and the rest.\<close>

definition mustParsePEM :: "(bytes \<Rightarrow> bytes option \<times> bytes) \<Rightarrow> bytes \<Rightarrow> bytes option" where
  "mustParsePEM Decode data = (case Decode data of (None, _) \<Rightarrow> None | (Some block, _) \<Rightarrow> Some block)"

section \<open>Values in a context\<close>

datatype ctxKey = ctxKeyServerTLS | ctxKeyClientTLS | ctxKeyQUICConfig | ctxKeyQlogDir

datatype ctx_value = TLSValue tls_config | StringValue string

text \<open>A context with the values \<^verbatim>\<open>context.WithValue\<close> has put into it, the last one first.\<close>

record gocontext =
  ctx_err :: ctx
  ctx_values :: "(ctxKey \<times> ctx_value) list"

definition WithValue :: "ctxKey \<Rightarrow> ctx_value \<Rightarrow> gocontext \<Rightarrow> gocontext" where
  "WithValue k v c = c\<lparr>ctx_values := (k, v) # ctx_values c\<rparr>"

definition Value :: "ctxKey \<Rightarrow> gocontext \<Rightarrow> ctx_value option" where
  "Value k c = map_of (ctx_values c) k"

definition withServerTLS :: "tls_config option \<Rightarrow> gocontext \<Rightarrow> gocontext" where
  "withServerTLS cfg c =
     (case cfg of None \<Rightarrow> c | Some t \<Rightarrow> WithValue ctxKeyServerTLS (TLSValue t) c)"

definition withClientTLS :: "tls_config option \<Rightarrow> gocontext \<Rightarrow> gocontext" where
  "withClientTLS cfg c =
     (case cfg of None \<Rightarrow> c | Some t \<Rightarrow> WithValue ctxKeyClientTLS (TLSValue t) c)"

definition serverTLSFromContext :: "gocontext \<Rightarrow> tls_config option" where
  "serverTLSFromContext c = (case Value ctxKeyServerTLS c of Some (TLSValue t) \<Rightarrow> Some t | _ \<Rightarrow> None)"

definition clientTLSFromContext :: "gocontext \<Rightarrow> tls_config option" where
  "clientTLSFromContext c = (case Value ctxKeyClientTLS c of Some (TLSValue t) \<Rightarrow> Some t | _ \<Rightarrow> None)"

definition withQlogDir :: "string \<Rightarrow> gocontext \<Rightarrow> gocontext" where
  "withQlogDir dir c = (if dir = '''' then c else WithValue ctxKeyQlogDir (StringValue dir) c)"

definition qlogDirFromContext :: "gocontext \<Rightarrow> string" where
  "qlogDirFromContext c = (case Value ctxKeyQlogDir c of Some (StringValue d) \<Rightarrow> d | _ \<Rightarrow> '''')"

lemmas ctx_defs = WithValue_def Value_def withServerTLS_def withClientTLS_def withQlogDir_def
  serverTLSFromContext_def clientTLSFromContext_def qlogDirFromContext_def

section \<open>Endpoints\<close>

text \<open>\<^verbatim>\<open>strings.SplitN(s, sep, 2)\<close>: cut at the first occurrence of the separator, if there is one.\<close>

fun SplitN2 :: "string \<Rightarrow> string \<Rightarrow> string list" where
  "SplitN2 sep [] = (if sep = [] then [[], []] else [[]])"
| "SplitN2 sep (c # cs) =
     (if prefix sep (c # cs) then [[], drop (length sep) (c # cs)]
      else case SplitN2 sep cs of
          [a, b] \<Rightarrow> [c # a, b]
        | _ \<Rightarrow> [c # cs])"

definition splitAddr :: "string \<Rightarrow> go_error + string \<times> string" where
  "splitAddr ep =
     (let parts = SplitN2 ''://'' ep in
      if length parts \<noteq> 2
      then Inl (Errorf ''quicmq: invalid address %q (expected scheme://addr)'' [Str ep])
      else Inr (parts ! 0, parts ! 1))"

section \<open>The registry\<close>

text \<open>
  The map from names to transports, as the list of its entries in the order a \<^verbatim>\<open>range\<close> would
  visit them. \<open>type_name\<close> stands for the type of a transport, as \<^verbatim>\<open>%T\<close> prints it.
\<close>

type_synonym 't transports = "(string \<times> 't) list"

definition transports_get :: "string \<Rightarrow> 't transports \<Rightarrow> 't option" where
  "transports_get name db = map_of db name"

definition transports_add ::
    "('t \<Rightarrow> string) \<Rightarrow> string \<Rightarrow> 't \<Rightarrow> 't transports \<Rightarrow> go_error option \<times> 't transports" where
  "transports_add type_name name tr db =
     (case map_of db name of
        Some old \<Rightarrow>
          (Some (Errorf ''quicmq: duplicate transport %q (%T)'' [Str name, Str (type_name old)]), db)
      | None \<Rightarrow> (None, AList.update name tr db))"

fun names_loop :: "'t transports \<Rightarrow> string list \<Rightarrow> string list" where
  "names_loop [] o1 = o1"
| "names_loop ((k, _) # rest) o1 = names_loop rest (o1 @ [k])"

definition transports_names :: "'t transports \<Rightarrow> string list" where
  "transports_names db = sort (names_loop db [])"

definition RegisterTransport ::
    "('t \<Rightarrow> string) \<Rightarrow> string \<Rightarrow> 't \<Rightarrow> 't transports \<Rightarrow> go_error option \<times> 't transports" where
  "RegisterTransport type_name name tr drivers = transports_add type_name name tr drivers"

definition Transports :: "'t transports \<Rightarrow> string list" where
  "Transports drivers = transports_names drivers"

text \<open>The registry at the start, and what \<^verbatim>\<open>init\<close> of \<^verbatim>\<open>transport_quic.go\<close> makes of it; \<open>None\<close> is its panic.\<close>

definition empty_drivers :: "'t transports" where
  "empty_drivers = []"

definition register_quic :: "('t \<Rightarrow> string) \<Rightarrow> 't \<Rightarrow> 't transports \<Rightarrow> 't transports option" where
  "register_quic type_name quic db =
     (case RegisterTransport type_name ''quic'' quic db of (Some e, _) \<Rightarrow> None | (None, db1) \<Rightarrow> Some db1)"

lemma register_quic_start:
  "\<exists>db. register_quic type_name quic empty_drivers = Some db \<and> transports_get ''quic'' db = Some quic \<and>
     Transports db = [''quic'']"
  by (simp add: register_quic_def empty_drivers_def RegisterTransport_def transports_add_def transports_get_def
      Transports_def transports_names_def)

lemma names_loop_keys: "names_loop db o1 = o1 @ map fst db"
  by (induction db arbitrary: o1) auto

lemma SplitN2_length: "SplitN2 sep s = [a, b] \<or> (\<exists>x. SplitN2 sep s = [x]) \<Longrightarrow> length (SplitN2 sep s) \<le> 2"
  by auto

text \<open>The first occurrence: none begins before the end of the first part.\<close>

lemma SplitN2_two:
  "sep \<noteq> [] \<Longrightarrow> SplitN2 sep s = [a, b] \<longleftrightarrow>
     s = a @ sep @ b \<and> (\<forall>i < length a. \<not> prefix sep (drop i s))"
proof (induction sep s arbitrary: a b rule: SplitN2.induct)
  case (1 sep)
  then show ?case by auto
next
  case (2 sep c cs)
  show ?case
  proof (cases "prefix sep (c # cs)")
    case True
    then obtain r where r: "c # cs = sep @ r" by (auto elim: prefixE)
    have first: "s1 = a @ sep @ b \<and> (\<forall>i < length a. \<not> prefix sep (drop i s1)) \<longleftrightarrow> a = [] \<and> b = r"
      if "s1 = sep @ r" for s1
    proof (cases a)
      case (Cons x a1)
      have "0 < length a \<and> prefix sep (drop 0 s1)" using Cons that by simp
      then have "\<not> (\<forall>i < length a. \<not> prefix sep (drop i s1))" by blast
      with Cons show ?thesis by blast
    qed (use that in auto)
    have "drop (length sep) (c # cs) = r" unfolding r by simp
    then have "SplitN2 sep (c # cs) = [[], r]" using True by simp
    then have "SplitN2 sep (c # cs) = [a, b] \<longleftrightarrow> a = [] \<and> b = r" by auto
    then show ?thesis unfolding first [OF r] .
  next
    case False
    have step: "(\<forall>i < length (x # a1). \<not> prefix sep (drop i (c # cs))) \<longleftrightarrow>
        (\<forall>i < length a1. \<not> prefix sep (drop i cs))" for x a1
      using False by (auto simp: less_Suc_eq_0_disj)
    have "SplitN2 sep (c # cs) = [a, b] \<longleftrightarrow> (\<exists>a1. a = c # a1 \<and> SplitN2 sep cs = [a1, b])"
      using False by (auto split: list.splits)
    also have "\<dots> \<longleftrightarrow> (\<exists>a1. a = c # a1 \<and> cs = a1 @ sep @ b \<and>
        (\<forall>i < length a1. \<not> prefix sep (drop i cs)))"
      using "2.IH" [OF False] "2.prems" by auto
    also have "\<dots> \<longleftrightarrow> c # cs = a @ sep @ b \<and> (\<forall>i < length a. \<not> prefix sep (drop i (c # cs)))"
    proof (cases a)
      case Nil
      with False show ?thesis by (auto simp: prefix_def)
    next
      case (Cons x a1)
      then show ?thesis using step [of x a1] by auto
    qed
    finally show ?thesis .
  qed
qed

lemma SplitN2_one_or_two: "(\<exists>a b. SplitN2 sep s = [a, b]) \<or> SplitN2 sep s = [s]"
  by (induction sep s rule: SplitN2.induct) (auto split: list.splits)
lemma SplitN2_prefix_free:
  "SplitN2 sep s = [s] \<Longrightarrow> sep \<noteq> [] \<Longrightarrow> \<not> sublist sep s"
proof (induction sep s rule: SplitN2.induct)
  case (1 sep)
  then show ?case by simp
next
  case (2 sep c cs)
  then have no: "\<not> prefix sep (c # cs)" by (auto split: if_splits)
  with 2 SplitN2_one_or_two [of sep cs] show ?case
    by (auto simp: sublist_Cons_right split: list.splits)
qed

section \<open>Properties\<close>

text \<open>
  An endpoint is cut at its first \<^verbatim>\<open>://\<close>, so the two parts together with the separator are
  the endpoint and the scheme contains no separator; only endpoints without one are refused.
\<close>

theorem splitAddr_first_separator:
  "case splitAddr ep of
     Inr (network, addr) \<Rightarrow> ep = network @ ''://'' @ addr \<and>
       \<not> (\<exists>i. i < length network \<and> prefix ''://'' (drop i ep))
   | Inl e \<Rightarrow> \<not> sublist ''://'' ep"
proof -
  consider a b where "SplitN2 ''://'' ep = [a, b]" | "SplitN2 ''://'' ep = [ep]"
    using SplitN2_one_or_two [of "''://''" ep] by blast
  then show ?thesis
  proof cases
    case 1
    with SplitN2_two [of "''://''" ep a b] show ?thesis by (auto simp: splitAddr_def Let_def)
  next
    case 2
    with SplitN2_prefix_free [OF 2] show ?thesis by (simp add: splitAddr_def Let_def)
  qed
qed

text \<open>
  The registry: a new name is added and from then on found, all other names keep what they
  had; a name that is taken is refused and the registry left as it was; and the names are
  listed in order, each once.
\<close>

theorem registry:
  assumes "distinct (map fst db)" and "RegisterTransport ty name tr db = (e, db')"
  shows "(e = None) = (transports_get name db = None) \<and>
    transports_get n db' = (if e = None \<and> n = name then Some tr else transports_get n db) \<and>
    distinct (map fst db') \<and>
    Transports db' = sorted_list_of_set (insert name (set (map fst db)))"
proof (cases "map_of db name")
  case None
  with assms have "e = None" "db' = AList.update name tr db"
    by (auto simp: RegisterTransport_def transports_add_def)
  moreover have "distinct (map fst (AList.update name tr db))"
    using assms(1) by (rule AList.distinct_update)
  ultimately show ?thesis
    using None sort_eq_of_set [of "map fst db'"]
    by (auto simp: transports_get_def AList.update_conv' Transports_def transports_names_def
        names_loop_keys AList.dom_update)
next
  case (Some old)
  with assms have "e \<noteq> None" "db' = db"
    by (auto simp: RegisterTransport_def transports_add_def)
  moreover from Some have "name \<in> set (map fst db)"
    by (metis domI dom_map_of_conv_image_fst list.set_map)
  ultimately show ?thesis
    using Some assms(1) sort_eq_of_set [OF assms(1)]
    by (auto simp: transports_get_def Transports_def transports_names_def names_loop_keys insert_absorb)
qed

theorem registry_witness:
  "Transports (snd (RegisterTransport (\<lambda>_. ''T'') ''quic'' (1 :: nat) [(''tcp'', 2)])) = [''quic'', ''tcp'']"
proof -
  let ?r = "RegisterTransport (\<lambda>_. ''T'') ''quic'' (1 :: nat) [(''tcp'', 2)]"
  have "distinct (map fst [(''tcp'', 2 :: nat)])" by simp
  from registry [OF this prod.collapse [symmetric]]
  have "Transports (snd ?r) = sorted_list_of_set {''quic'', ''tcp''}" by simp
  also have "\<dots> = [''quic'', ''tcp'']"
    by (simp add: sorted_list_of_set_sort_remdups [of "[''quic'', ''tcp'']", simplified])
  finally show ?thesis .
qed

text \<open>
  What a socket puts into a context for its transport comes out again, and the three
  values do not disturb each other; a nil configuration or an empty directory changes nothing.
\<close>

theorem context_values:
  "serverTLSFromContext (withServerTLS cfg c) = (case cfg of Some t \<Rightarrow> Some t | None \<Rightarrow> serverTLSFromContext c) \<and>
   clientTLSFromContext (withClientTLS cfg c) = (case cfg of Some t \<Rightarrow> Some t | None \<Rightarrow> clientTLSFromContext c) \<and>
   qlogDirFromContext (withQlogDir d c) = (if d = '''' then qlogDirFromContext c else d) \<and>
   serverTLSFromContext (withClientTLS cfg c) = serverTLSFromContext c \<and>
   clientTLSFromContext (withServerTLS cfg c) = clientTLSFromContext c \<and>
   serverTLSFromContext (withQlogDir d c) = serverTLSFromContext c \<and>
   clientTLSFromContext (withQlogDir d c) = clientTLSFromContext c \<and>
   qlogDirFromContext (withServerTLS cfg c) = qlogDirFromContext c \<and>
   qlogDirFromContext (withClientTLS cfg c) = qlogDirFromContext c \<and>
   ctx_err (withQlogDir d (withClientTLS cfg (withServerTLS cfg c))) = ctx_err c"
  by (cases cfg) (simp_all add: ctx_defs)

text \<open>
  Every TLS configuration the package makes speaks the protocol \<^verbatim>\<open>quicmq\<close>, and only the
  development one for clients leaves the server's certificate unverified.
\<close>

theorem tls_configs:
  assumes "GenerateTLSConfig key mk = Some g" and "NewTLSConfig rf kp cert keyf = Inr s"
    and "NewClientTLSConfig rf pem ca = Inr c"
  shows "NextProtos g = [QUICProtocol] \<and> NextProtos s = [QUICProtocol] \<and> NextProtos c = [QUICProtocol] \<and>
    NextProtos InsecureClientTLSConfig = [QUICProtocol] \<and>
    \<not> InsecureSkipVerify g \<and> \<not> InsecureSkipVerify s \<and> \<not> InsecureSkipVerify c \<and>
    InsecureSkipVerify InsecureClientTLSConfig \<and>
    length (Certificates g) = 1 \<and> length (Certificates s) = 1 \<and> (RootCAs c = None) = (ca = '''')"
  using assms
  by (auto simp: GenerateTLSConfig_def NewTLSConfig_def NewClientTLSConfig_def empty_tls_def
      InsecureClientTLSConfig_def Let_def split: sum.splits option.splits if_splits)

theorem tls_configs_witness:
  "NextProtos (the (GenerateTLSConfig (Inr (5 :: nat)) (\<lambda>k. Inr [of_nat k]))) = [''quicmq'']"
proof -
  obtain g where g: "GenerateTLSConfig (Inr (5 :: nat)) (\<lambda>k. Inr [of_nat k]) = Some g"
    by (simp add: GenerateTLSConfig_def)
  obtain s where s: "NewTLSConfig (\<lambda>_. Inr [1]) (\<lambda>a b. Inr (a @ b)) ''c'' ''k'' = Inr s"
    by (simp add: NewTLSConfig_def)
  obtain c where c: "NewClientTLSConfig (\<lambda>_. Inr [1]) Some '''' = Inr c"
    by (simp add: NewClientTLSConfig_def Let_def)
  from tls_configs [OF g s c] g show ?thesis by (simp add: QUICProtocol_def)
qed

end
