(* ===== verification/Socket.thy ===== *)
theory Socket
  imports Transport Pools
begin

text \<open>
  \<^verbatim>\<open>socket.go\<close> and \<^verbatim>\<open>options.go\<close>: the socket every pattern embeds, with its options, its
  connections, the reaper of closed ones, dialling and listening, and reconnection.
\<close>

section \<open>The socket\<close>

text \<open>\<^verbatim>\<open>time.Duration\<close>: a signed 64-bit number of nanoseconds.\<close>

type_synonym duration = "64 word"

definition Millisecond :: duration where "Millisecond = 1000000"
definition Minute :: duration where "Minute = 60000000000"

definition defaultRetry :: duration where "defaultRetry = 250 * Millisecond"
definition defaultTimeout :: duration where "defaultTimeout = 5 * Minute"
definition defaultMaxRetries :: int where "defaultMaxRetries = 10"
definition defaultReconnectIvl :: duration where "defaultReconnectIvl = 100 * Millisecond"
definition defaultReconnectIvlMax :: duration where "defaultReconnectIvlMax = 0"

text \<open>The values of type \<^verbatim>\<open>any\<close> that options take.\<close>

datatype go_any = AnyString string | AnyInt int | AnyOther

definition OptionSubscribe :: string where "OptionSubscribe = ''SUBSCRIBE''"
definition OptionUnsubscribe :: string where "OptionUnsubscribe = ''UNSUBSCRIBE''"
definition OptionHWM :: string where "OptionHWM = ''HWM''"

text \<open>
  \<open>'p\<close> is the state of the two pools together with the store of connections; \<open>'t\<close> are the
  transports. \<open>reaping\<close> is what the goroutine \<^verbatim>\<open>connReaper\<close> has taken over and not removed yet;
  \<open>reconnects\<close> counts the goroutines \<^verbatim>\<open>reconnect\<close> that were started.
\<close>

record ('p, 't) socket =
  ep :: string
  sock_typ :: socket_type
  retry :: duration
  maxRetries :: int
  dialTimeout :: duration
  sck_log :: "string option"
  timeout :: duration
  tlsCfg :: "tls_config option"
  clientTlsCfg :: "tls_config option"
  qlogDir :: string
  dialTransport :: "'t option"
  autoReconnect :: bool
  reconnectIvl :: duration
  reconnectIvlMax :: duration
  isDialer :: bool
  conns :: "conn_id list"
  r_set :: bool
  w_set :: bool
  pools :: 'p
  props :: "string \<Rightarrow> go_any option"
  sck_ctx :: gocontext
  listener :: "nat option"
  listener_closes :: nat
  closedConns :: "conn_id list"
  reaperStarted :: bool
  reaping :: "conn_id list"
  reconnects :: nat

text \<open>
  \<^verbatim>\<open>newDefaultSocket\<close>: the context is a child of the one given, with what that carries, or a
  fresh one for nil.
\<close>

definition newDefaultSocket :: "gocontext option \<Rightarrow> socket_type \<Rightarrow> 'p \<Rightarrow> ('p, 't) socket" where
  "newDefaultSocket c sockType p =
     \<lparr>ep = '''', sock_typ = sockType, retry = defaultRetry, maxRetries = defaultMaxRetries,
      dialTimeout = 0, sck_log = None, timeout = defaultTimeout, tlsCfg = None,
      clientTlsCfg = Some InsecureClientTLSConfig, qlogDir = '''', dialTransport = None,
      autoReconnect = True, reconnectIvl = defaultReconnectIvl,
      reconnectIvlMax = defaultReconnectIvlMax, isDialer = False, conns = [], r_set = True,
      w_set = True, pools = p, props = Map.empty,
      sck_ctx = (case c of None \<Rightarrow> \<lparr>ctx_err = None, ctx_values = []\<rparr> | Some k \<Rightarrow> k),
      listener = None, listener_closes = 0, closedConns = [], reaperStarted = False,
      reaping = [], reconnects = 0\<rparr>"

definition newSocket ::
    "gocontext option \<Rightarrow> socket_type \<Rightarrow> (('p, 't) socket \<Rightarrow> ('p, 't) socket) list \<Rightarrow> 'p \<Rightarrow> ('p, 't) socket" where
  "newSocket c sockType opts p =
     (let sck = foldl (\<lambda>s opt. opt s) (newDefaultSocket c sockType p) opts in
      if sck_log sck = None then sck\<lparr>sck_log := Some ''quicmq: ''\<rparr> else sck)"

section \<open>Options\<close>

definition WithTimeout :: "duration \<Rightarrow> ('p, 't, 'm) socket_scheme \<Rightarrow> ('p, 't, 'm) socket_scheme" where
  "WithTimeout t s = s\<lparr>timeout := t\<rparr>"

definition WithDialerRetry :: "duration \<Rightarrow> ('p, 't, 'm) socket_scheme \<Rightarrow> ('p, 't, 'm) socket_scheme" where
  "WithDialerRetry t s = s\<lparr>retry := t\<rparr>"

definition WithDialerMaxRetries :: "int \<Rightarrow> ('p, 't, 'm) socket_scheme \<Rightarrow> ('p, 't, 'm) socket_scheme" where
  "WithDialerMaxRetries n s = s\<lparr>maxRetries := n\<rparr>"

definition WithDialTimeout :: "duration \<Rightarrow> ('p, 't, 'm) socket_scheme \<Rightarrow> ('p, 't, 'm) socket_scheme" where
  "WithDialTimeout t s = s\<lparr>dialTimeout := t\<rparr>"

definition WithLogger :: "string option \<Rightarrow> ('p, 't, 'm) socket_scheme \<Rightarrow> ('p, 't, 'm) socket_scheme" where
  "WithLogger l s = s\<lparr>sck_log := l\<rparr>"

definition WithListenTLS :: "tls_config option \<Rightarrow> ('p, 't, 'm) socket_scheme \<Rightarrow> ('p, 't, 'm) socket_scheme" where
  "WithListenTLS cfg s = s\<lparr>tlsCfg := cfg\<rparr>"

definition WithDialTLS :: "tls_config option \<Rightarrow> ('p, 't, 'm) socket_scheme \<Rightarrow> ('p, 't, 'm) socket_scheme" where
  "WithDialTLS cfg s = s\<lparr>clientTlsCfg := cfg\<rparr>"

definition WithAutomaticReconnect :: "bool \<Rightarrow> ('p, 't, 'm) socket_scheme \<Rightarrow> ('p, 't, 'm) socket_scheme" where
  "WithAutomaticReconnect b s = s\<lparr>autoReconnect := b\<rparr>"

definition WithReconnectInterval :: "duration \<Rightarrow> ('p, 't, 'm) socket_scheme \<Rightarrow> ('p, 't, 'm) socket_scheme" where
  "WithReconnectInterval ivl s = s\<lparr>reconnectIvl := ivl\<rparr>"

definition WithReconnectIntervalMax :: "duration \<Rightarrow> ('p, 't, 'm) socket_scheme \<Rightarrow> ('p, 't, 'm) socket_scheme" where
  "WithReconnectIntervalMax ivlMax s = s\<lparr>reconnectIvlMax := ivlMax\<rparr>"

definition WithConnectionPool :: "'t \<Rightarrow> ('p, 't, 'm) socket_scheme \<Rightarrow> ('p, 't, 'm) socket_scheme" where
  "WithConnectionPool pool s = s\<lparr>dialTransport := Some pool\<rparr>"

definition WithQlogDir :: "string \<Rightarrow> ('p, 't, 'm) socket_scheme \<Rightarrow> ('p, 't, 'm) socket_scheme" where
  "WithQlogDir dir s = s\<lparr>qlogDir := dir\<rparr>"

definition socket_GetOption :: "string \<Rightarrow> ('p, 't, 'm) socket_scheme \<Rightarrow> go_any option \<times> go_error option" where
  "socket_GetOption name s =
     (case props s name of None \<Rightarrow> (None, Some ErrBadProperty) | Some v \<Rightarrow> (Some v, None))"

definition socket_SetOption ::
    "string \<Rightarrow> go_any \<Rightarrow> ('p, 't, 'm) socket_scheme \<Rightarrow> go_error option \<times> ('p, 't, 'm) socket_scheme" where
  "socket_SetOption name v s = (None, s\<lparr>props := (props s)(name := Some v)\<rparr>)"

definition socket_Type :: "('p, 't, 'm) socket_scheme \<Rightarrow> socket_type" where
  "socket_Type s = sock_typ s"

definition socket_Timeout :: "('p, 't, 'm) socket_scheme \<Rightarrow> duration" where
  "socket_Timeout s = timeout s"

definition socket_Addr :: "(nat \<Rightarrow> 'a) \<Rightarrow> ('p, 't, 'm) socket_scheme \<Rightarrow> 'a option" where
  "socket_Addr Addr s = (case listener s of None \<Rightarrow> None | Some l \<Rightarrow> Some (Addr l))"

section \<open>Connections\<close>

text \<open>
  The methods of the two pools that a socket calls, and its access to the store. A method
  that panics has no result.
\<close>

record 'p pool_ops =
  op_addR :: "conn_id \<Rightarrow> 'p \<Rightarrow> 'p option"
  op_addW :: "conn_id \<Rightarrow> 'p \<Rightarrow> 'p option"
  op_rmR :: "conn_id \<Rightarrow> 'p \<Rightarrow> 'p option"
  op_rmW :: "conn_id \<Rightarrow> 'p \<Rightarrow> 'p option"
  get_store :: "'p \<Rightarrow> store"
  put_store :: "store \<Rightarrow> 'p \<Rightarrow> 'p"

definition if_set :: "bool \<Rightarrow> ('p \<Rightarrow> 'p option) \<Rightarrow> 'p \<Rightarrow> 'p option" where
  "if_set b f p = (if b then f p else Some p)"

text \<open>\<open>onAdded\<close> is the optional callback \<^verbatim>\<open>onConnAdded\<close>.\<close>

definition socket_addConn ::
    "'p pool_ops \<Rightarrow> (conn_id \<Rightarrow> ('p, 't, 'm) socket_scheme \<Rightarrow> ('p, 't, 'm) socket_scheme) option
       \<Rightarrow> conn_id \<Rightarrow> ('p, 't, 'm) socket_scheme \<Rightarrow> ('p, 't, 'm) socket_scheme option" where
  "socket_addConn ops onAdded c s =
     (let s1 = s\<lparr>conns := conns s @ [c]\<rparr> in
      case if_set (w_set s1) (op_addW ops c) (pools s1) of
        None \<Rightarrow> None
      | Some p1 \<Rightarrow>
          (case if_set (r_set s1) (op_addR ops c) p1 of
             None \<Rightarrow> None
           | Some p2 \<Rightarrow>
               let s2 = s1\<lparr>pools := p2\<rparr> in
               Some (case onAdded of None \<Rightarrow> s2 | Some f \<Rightarrow> f c s2)))"

definition socket_rmConn ::
    "'p pool_ops \<Rightarrow> conn_id \<Rightarrow> ('p, 't, 'm) socket_scheme \<Rightarrow> ('p, 't, 'm) socket_scheme option" where
  "socket_rmConn ops c s =
     (let cur = find_loop (conns s) 0 c in
      if cur = -1 then Some s
      else let s1 = s\<lparr>conns := take (nat cur) (conns s) @ drop (nat cur + 1) (conns s)\<rparr> in
           case if_set (r_set s1) (op_rmR ops c) (pools s1) of
             None \<Rightarrow> None
           | Some p1 \<Rightarrow>
               (case if_set (w_set s1) (op_rmW ops c) p1 of
                  None \<Rightarrow> None
                | Some p2 \<Rightarrow> Some (s1\<lparr>pools := p2\<rparr>)))"

definition scheduleRmConn :: "conn_id \<Rightarrow> ('p, 't, 'm) socket_scheme \<Rightarrow> ('p, 't, 'm) socket_scheme" where
  "scheduleRmConn c s =
     (let s1 = s\<lparr>closedConns := closedConns s @ [c]\<rparr> in
      if autoReconnect s1 \<and> isDialer s1 then s1\<lparr>reconnects := Suc (reconnects s1)\<rparr> else s1)"

text \<open>
  A round of \<^verbatim>\<open>connReaper\<close>: it takes over the connections scheduled for removal, gives up its
  lock, and removes them one by one. It waits while nothing is scheduled and returns once the
  context is done.
\<close>

definition reaper_take :: "('p, 't, 'm) socket_scheme \<Rightarrow> ('p, 't, 'm) socket_scheme blocking" where
  "reaper_take s =
     (if closedConns s = [] \<and> ctx_err (sck_ctx s) = None then Waits
      else if ctx_err (sck_ctx s) \<noteq> None then Returns s
      else Returns (s\<lparr>reaping := [] @ closedConns s, closedConns := []\<rparr>))"

definition reaper_remove ::
    "'p pool_ops \<Rightarrow> ('p, 't, 'm) socket_scheme \<Rightarrow> ('p, 't, 'm) socket_scheme option" where
  "reaper_remove ops s =
     (case reaping s of
        [] \<Rightarrow> Some s
      | c # cc \<Rightarrow> map_option (\<lambda>s1. s1\<lparr>reaping := cc\<rparr>) (socket_rmConn ops c s))"

fun topics_inner :: "strset \<Rightarrow> string list \<Rightarrow> string list" where
  "topics_inner [] ts = ts"
| "topics_inner (topic # rest) ts =
     (if topic \<in> set ts then topics_inner rest ts else topics_inner rest (ts @ [topic]))"

fun topics_outer :: "store \<Rightarrow> conn_id list \<Rightarrow> string list \<Rightarrow> string list" where
  "topics_outer st [] ts = ts"
| "topics_outer st (c # cs) ts = topics_outer st cs (topics_inner (topics (cells st c)) ts)"

text \<open>\<^verbatim>\<open>keys\<close> and \<^verbatim>\<open>topics\<close> hold the same strings; \<^verbatim>\<open>keys\<close> only tells which are there.\<close>

definition socket_topics :: "'p pool_ops \<Rightarrow> ('p, 't, 'm) socket_scheme \<Rightarrow> string list" where
  "socket_topics ops s = topics_outer (get_store ops (pools s)) (conns s) []"

definition socket_Close ::
    "'p pool_ops \<Rightarrow> ('p, 't, 'm) socket_scheme \<Rightarrow> go_error option \<times> ('p, 't, 'm) socket_scheme" where
  "socket_Close ops s =
     (let c = sck_ctx s;
          s1 = s\<lparr>sck_ctx := (if ctx_err c = None then c\<lparr>ctx_err := Some CtxCanceled\<rparr> else c)\<rparr> in
      case close_all (conns s1) None (get_store ops (pools s1)) of
        (e, st) \<Rightarrow>
          let s2 = s1\<lparr>pools := put_store ops st (pools s1)\<rparr> in
          (e, if listener s2 = None then s2
              else s2\<lparr>listener_closes := Suc (listener_closes s2)\<rparr>))"
section \<open>Dialling\<close>

text \<open>
  What an attempt to dial meets: the result of the transport, the states of the two contexts
  after it, and what ends the pause before the next attempt.
\<close>

datatype pause = Elapsed | DialCtxDone | SckCtxDone go_error

record attempt =
  at_dial :: "go_error + net_conn option"
  at_dialctx :: ctx
  at_sckctx :: ctx
  at_pause :: pause

record dial_params =
  dp_endpoint :: string
  dp_dialTimeout :: duration
  dp_retry :: duration
  dp_maxRetries :: int

text \<open>
  The loop of \<^verbatim>\<open>goto connect\<close>, from attempt \<open>i\<close> on with \<open>retries\<close> retries behind it; the
  second result is the number of attempts made. With \<^verbatim>\<open>maxRetries\<close> \<open>-1\<close> it need not return.
\<close>

partial_function (option) dial_connect ::
    "dial_params \<Rightarrow> (nat \<Rightarrow> attempt) \<Rightarrow> nat \<Rightarrow> int \<Rightarrow> ((go_error + net_conn option) \<times> nat) option" where
  "dial_connect d env i retries =
     (case at_dial (env i) of
        Inr conn \<Rightarrow> Some (Inr conn, Suc i)
      | Inl err \<Rightarrow>
          (if at_dialctx (env i) \<noteq> None
           then Some (Inl (Wrapf ''quicmq: could not dial to %q within %s: %w''
                             [Str (dp_endpoint d), Num (sint (dp_dialTimeout d))] err), Suc i)
           else if (dp_maxRetries d = -1 \<or> retries < dp_maxRetries d) \<and> at_sckctx (env i) = None
           then (case at_pause (env i) of
                   Elapsed \<Rightarrow> dial_connect d env (Suc i) (retries + 1)
                 | DialCtxDone \<Rightarrow>
                     Some (Inl (Wrapf ''quicmq: could not dial to %q within %s: %w''
                             [Str (dp_endpoint d), Num (sint (dp_dialTimeout d))] err), Suc i)
                 | SckCtxDone e \<Rightarrow>
                     Some (Inl (Wrapf ''quicmq: dial cancelled for %q: %w''
                             [Str (dp_endpoint d)] e), Suc i))
           else Some (Inl (Wrapf ''quicmq: could not dial to %q (retry=%v): %w''
                             [Str (dp_endpoint d), Num (sint (dp_retry d))] err), Suc i)))"

definition dial_params_of :: "string \<Rightarrow> ('p, 't, 'm) socket_scheme \<Rightarrow> dial_params" where
  "dial_params_of endpoint s =
     \<lparr>dp_endpoint = endpoint, dp_dialTimeout = dialTimeout s, dp_retry = retry s,
      dp_maxRetries = maxRetries s\<rparr>"

text \<open>The connection object that \<^verbatim>\<open>Open\<close> makes is cell \<open>c\<close> of the store.\<close>

definition new_cell :: "conn_id \<Rightarrow> conn \<Rightarrow> store \<Rightarrow> store" where
  "new_cell c k st = st\<lparr>cells := (cells st)(c := k)\<rparr>"

definition start_reaper :: "('p, 't, 'm) socket_scheme \<Rightarrow> ('p, 't, 'm) socket_scheme" where
  "start_reaper s = (if \<not> reaperStarted s then s\<lparr>reaperStarted := True\<rparr> else s)"

definition dial_transport ::
    "'t transports \<Rightarrow> string \<Rightarrow> ('p, 't, 'm) socket_scheme \<Rightarrow> 't option" where
  "dial_transport drivers network s =
     (case dialTransport s of Some t \<Rightarrow> Some t | None \<Rightarrow> transports_get network drivers)"

text \<open>\<open>Waits\<close> is a call that never returns.\<close>

definition socket_Dial ::
    "'t transports \<Rightarrow> 'p pool_ops
       \<Rightarrow> (conn_id \<Rightarrow> ('p, 't, 'm) socket_scheme \<Rightarrow> ('p, 't, 'm) socket_scheme) option
       \<Rightarrow> ('t \<Rightarrow> gocontext \<Rightarrow> string \<Rightarrow> nat \<Rightarrow> attempt) \<Rightarrow> conn_id \<Rightarrow> string
       \<Rightarrow> ('p, 't, 'm) socket_scheme \<Rightarrow> (go_error option \<times> ('p, 't, 'm) socket_scheme) blocking" where
  "socket_Dial drivers ops onAdded env c endpoint s =
     (let s1 = s\<lparr>ep := endpoint, isDialer := True\<rparr> in
      case splitAddr endpoint of
        Inl e \<Rightarrow> Returns (Some e, s1)
      | Inr (network, addr) \<Rightarrow>
          (case dial_transport drivers network s1 of
             None \<Rightarrow> Returns (Some (UnknownTransportError network), s1)
           | Some tr \<Rightarrow>
               let dialCtx = withQlogDir (qlogDir s1) (withClientTLS (clientTlsCfg s1) (sck_ctx s1)) in
               (case dial_connect (dial_params_of endpoint s1) (env tr dialCtx addr) 0 0 of
                  None \<Rightarrow> Waits
                | Some (Inl e, _) \<Rightarrow> Returns (Some e, s1)
                | Some (Inr None, _) \<Rightarrow>
                    Returns (Some (Errorf ''quicmq: got a nil connection to %q'' [Str endpoint]), s1)
                | Some (Inr (Some nc), _) \<Rightarrow>
                    (case Open (Some nc) (sock_typ s1) False True of
                       Inl e \<Rightarrow>
                         Returns (Some (Wrapf ''quicmq: could not open connection: %w'' [] e), s1)
                     | Inr zconn \<Rightarrow>
                         let s2 = start_reaper s1;
                             st = new_cell c zconn (get_store ops (pools s2));
                             s3 = s2\<lparr>pools := put_store ops st (pools s2)\<rparr> in
                         (case socket_addConn ops onAdded c s3 of
                            None \<Rightarrow> Panics
                          | Some s4 \<Rightarrow> Returns (None, s4))))))"

section \<open>Listening\<close>

text \<open>\<open>listen\<close> is the transport's \<^verbatim>\<open>Listen\<close>.\<close>

definition socket_Listen ::
    "'t transports \<Rightarrow> ('t \<Rightarrow> gocontext \<Rightarrow> string \<Rightarrow> go_error + nat) \<Rightarrow> string
       \<Rightarrow> ('p, 't, 'm) socket_scheme \<Rightarrow> go_error option \<times> ('p, 't, 'm) socket_scheme" where
  "socket_Listen drivers listen endpoint s =
     (let s1 = s\<lparr>ep := endpoint, isDialer := False\<rparr> in
      case splitAddr endpoint of
        Inl e \<Rightarrow> (Some e, s1)
      | Inr (network, addr) \<Rightarrow>
          (case transports_get network drivers of
             None \<Rightarrow> (Some (UnknownTransportError network), s1)
           | Some tr \<Rightarrow>
               let listenCtx = withQlogDir (qlogDir s1) (withServerTLS (tlsCfg s1) (sck_ctx s1)) in
               (case listen tr listenCtx addr of
                  Inl e \<Rightarrow>
                    (Some (Wrapf ''quicmq: could not listen to %q: %w'' [Str endpoint] e), s1)
                | Inr l \<Rightarrow> (None, start_reaper (s1\<lparr>listener := Some l\<rparr>)))))"

text \<open>
  One round of the goroutine \<^verbatim>\<open>accept\<close>; \<open>accepted\<close> is what the listener's \<^verbatim>\<open>Accept\<close> returns,
  for the connection object \<open>c\<close>. It returns only when the context is done.
\<close>

definition socket_accept ::
    "'p pool_ops \<Rightarrow> (conn_id \<Rightarrow> ('p, 't, 'm) socket_scheme \<Rightarrow> ('p, 't, 'm) socket_scheme) option
       \<Rightarrow> go_error + net_conn option \<Rightarrow> conn_id \<Rightarrow> ('p, 't, 'm) socket_scheme
       \<Rightarrow> ('p, 't, 'm) socket_scheme option" where
  "socket_accept ops onAdded accepted c s =
     (if ctx_err (sck_ctx s) \<noteq> None then Some s
      else case accepted of
          Inl e \<Rightarrow> Some s
        | Inr conn \<Rightarrow>
            (case Open conn (sock_typ s) True True of
               Inl e \<Rightarrow> Some s
             | Inr zconn \<Rightarrow>
                 let st = new_cell c zconn (get_store ops (pools s)) in
                 socket_addConn ops onAdded c (s\<lparr>pools := put_store ops st (pools s)\<rparr>)))"

section \<open>Reconnecting\<close>

text \<open>\<^verbatim>\<open>rand.Int63n(n)\<close>: it panics unless \<open>n\<close> is positive; \<open>rnd\<close> is the source of randomness.\<close>

definition Int63n :: "nat \<Rightarrow> duration \<Rightarrow> duration option" where
  "Int63n rnd n = (if sint n \<le> 0 then None else Some (word_of_int (int rnd mod sint n)))"

text \<open>The results are the interval and the new \<^verbatim>\<open>*currentIvl\<close>; \<open>None\<close> is a panic.\<close>

definition getNewReconnectIvl ::
    "nat \<Rightarrow> ('p, 't, 'm) socket_scheme \<Rightarrow> duration \<Rightarrow> (duration \<times> duration) option" where
  "getNewReconnectIvl rnd s currentIvl =
     (if 0 <s reconnectIvlMax s
      then let candidate =
             (if currentIvl <s 0 then reconnectIvl s
              else let c2 = currentIvl * 2 in
                   if c2 <s currentIvl then reconnectIvlMax s else c2);
               cur = (if candidate \<le>s reconnectIvlMax s then candidate else reconnectIvlMax s) in
           Some (cur, cur)
      else let cur = (if currentIvl <s 0 then reconnectIvl s else currentIvl) in
           (case Int63n rnd (reconnectIvl s) of
              None \<Rightarrow> None
            | Some jitter \<Rightarrow> Some (cur + jitter, cur)))"

text \<open>
  What a round of the goroutine \<^verbatim>\<open>reconnect\<close> meets: the state of the socket's context at its
  head and after the pause, whether the pause was cut short, and what dialling meets.
\<close>

record 't rec_round =
  rr_ctx :: ctx
  rr_rnd :: nat
  rr_cut :: bool
  rr_ctx2 :: ctx
  rr_dial :: "'t \<Rightarrow> gocontext \<Rightarrow> string \<Rightarrow> nat \<Rightarrow> attempt"
  rr_conn :: conn_id

text \<open>
  The goroutine, from round \<open>k\<close> on; \<open>waited\<close> are the intervals it has paused for. It may never
  return, and then has no result; a panic is \<open>Panics\<close>.
\<close>

partial_function (option) reconnect ::
    "'t transports \<Rightarrow> 'p pool_ops
       \<Rightarrow> (conn_id \<Rightarrow> ('p, 't, 'm) socket_scheme \<Rightarrow> ('p, 't, 'm) socket_scheme) option
       \<Rightarrow> (nat \<Rightarrow> 't rec_round) \<Rightarrow> nat \<Rightarrow> duration \<Rightarrow> duration list \<Rightarrow> ('p, 't, 'm) socket_scheme
       \<Rightarrow> (duration list \<times> ('p, 't, 'm) socket_scheme) blocking option" where
  "reconnect drivers ops onAdded env k currentIvl waited s =
     (if rr_ctx (env k) \<noteq> None then Some (Returns (waited, s))
      else (case getNewReconnectIvl (rr_rnd (env k)) s currentIvl of
              None \<Rightarrow> Some Panics
            | Some (interval, cur) \<Rightarrow>
                (if rr_cut (env k) then Some (Returns (waited @ [interval], s))
                 else if rr_ctx2 (env k) \<noteq> None then Some (Returns (waited @ [interval], s))
                 else (case socket_Dial drivers ops onAdded (rr_dial (env k)) (rr_conn (env k)) (ep s) s of
                         Waits \<Rightarrow> None
                       | Panics \<Rightarrow> Some Panics
                       | Returns (e, s1) \<Rightarrow>
                           (if e = None then Some (Returns (waited @ [interval], s1))
                            else reconnect drivers ops onAdded env (Suc k) cur (waited @ [interval]) s1)))))"

section \<open>Lemmas on dialling\<close>

text \<open>An attempt after which the loop goes on, if there are retries left.\<close>

definition retryable :: "attempt \<Rightarrow> bool" where
  "retryable a = ((\<exists>e. at_dial a = Inl e) \<and> at_dialctx a = None \<and> at_sckctx a = None \<and> at_pause a = Elapsed)"

lemma dial_connect_retry:
  "retryable (env i) \<Longrightarrow> dp_maxRetries d = -1 \<or> retries < dp_maxRetries d \<Longrightarrow>
     dial_connect d env i retries = dial_connect d env (Suc i) (retries + 1)"
  by (subst dial_connect.simps) (auto simp: retryable_def)

lemma dial_connect_stop:
  "\<not> (retryable (env i) \<and> (dp_maxRetries d = -1 \<or> retries < dp_maxRetries d)) \<Longrightarrow>
     \<exists>r. dial_connect d env i retries = Some (r, Suc i) \<and>
         ((\<exists>c. r = Inr c) \<longleftrightarrow> (\<exists>c. at_dial (env i) = Inr c))"
  by (subst dial_connect.simps) (auto simp: retryable_def split: sum.splits pause.splits)

text \<open>With a bound on the retries the loop returns, after at most one attempt more than that.\<close>

lemma dial_connect_bounded:
  assumes "retries \<le> dp_maxRetries d" and "0 \<le> retries"
  shows "\<exists>r n. dial_connect d env i retries = Some (r, n) \<and> i < n \<and>
           int n \<le> int i + (dp_maxRetries d - retries) + 1 \<and>
           (\<forall>j. i \<le> j \<and> j < n - 1 \<longrightarrow> retryable (env j)) \<and>
           ((\<exists>c. r = Inr c) \<longleftrightarrow> (\<exists>c. at_dial (env (n - 1)) = Inr c)) \<and>
           (retryable (env (n - 1)) \<longrightarrow> int n = int i + (dp_maxRetries d - retries) + 1)"
  using assms
proof (induction "nat (dp_maxRetries d - retries)" arbitrary: i retries rule: less_induct)
  case less
  show ?case
  proof (cases "retryable (env i) \<and> retries < dp_maxRetries d")
    case True
    then obtain r n where rn: "dial_connect d env (Suc i) (retries + 1) = Some (r, n)" "Suc i < n"
        "int n \<le> int (Suc i) + (dp_maxRetries d - (retries + 1)) + 1"
        "\<forall>j. Suc i \<le> j \<and> j < n - 1 \<longrightarrow> retryable (env j)"
        "(\<exists>c. r = Inr c) \<longleftrightarrow> (\<exists>c. at_dial (env (n - 1)) = Inr c)"
        "retryable (env (n - 1)) \<longrightarrow> int n = int (Suc i) + (dp_maxRetries d - (retries + 1)) + 1"
      using less.hyps [of "retries + 1" "Suc i"] less.prems by auto
    have "retryable (env j)" if "i \<le> j \<and> j < n - 1" for j
      using that True rn(4) by (cases "j = i") auto
    with rn True show ?thesis
      by (intro exI [of _ r] exI [of _ n]) (simp add: dial_connect_retry)
  next
    case False
    with less.prems have "\<not> (retryable (env i) \<and> (dp_maxRetries d = -1 \<or> retries < dp_maxRetries d))"
      by auto
    from dial_connect_stop [of env i d retries, OF this] obtain r where
        "dial_connect d env i retries = Some (r, Suc i)"
        "(\<exists>c. r = Inr c) \<longleftrightarrow> (\<exists>c. at_dial (env i) = Inr c)" by blast
    with False less.prems show ?thesis
      by (intro exI [of _ r] exI [of _ "Suc i"]) auto
  qed
qed

text \<open>Without one, and with attempts that all fail, it does not return.\<close>

lemma dial_connect_returns_cause:
  "dial_connect d env i retries = Some y \<Longrightarrow> dp_maxRetries d = -1 \<longrightarrow> (\<exists>j \<ge> i. \<not> retryable (env j))"
proof (induction d env i retries y rule: dial_connect.raw_induct [rotated, consumes 1, case_names 1])
  case (1 f d env i retries y)
  show ?case
  proof (cases "retryable (env i)")
    case True
    show ?thesis
    proof
      assume "dp_maxRetries d = -1"
      with True 1(2) have "f d env (Suc i) (retries + 1) = Some y" by (auto simp: retryable_def)
      from 1(1) [OF this] \<open>dp_maxRetries d = -1\<close> obtain j where
        "Suc i \<le> j" "\<not> retryable (env j)" by auto
      then show "\<exists>j \<ge> i. \<not> retryable (env j)" by (intro exI [of _ j]) simp
    qed
  qed auto
qed

section \<open>Lemmas on the reconnection interval\<close>

text \<open>The interval of the \<open>n\<close>-th round, and the \<^verbatim>\<open>currentIvl\<close> after it.\<close>

fun nth_interval ::
    "(nat \<Rightarrow> nat) \<Rightarrow> ('p, 't, 'm) socket_scheme \<Rightarrow> nat \<Rightarrow> (duration \<times> duration) option" where
  "nth_interval rnd s 0 = getNewReconnectIvl (rnd 0) s (-1)"
| "nth_interval rnd s (Suc n) =
     (case nth_interval rnd s n of None \<Rightarrow> None
      | Some (_, cur) \<Rightarrow> getNewReconnectIvl (rnd (Suc n)) s cur)"

lemma sint_range: "- (2 ^ 63) \<le> sint (x :: duration) \<and> sint x < 2 ^ 63"
  using sint_greater_eq [of x] sint_less [of x] by simp

lemma sint_of_int_small: "- (2 ^ 63) \<le> n \<Longrightarrow> n < 2 ^ 63 \<Longrightarrow> sint (word_of_int n :: duration) = n"
  by (simp add: sint_sbintrunc' signed_take_bit_int_eq_self)

text \<open>Doubling, with the overflow that the code guards against.\<close>

lemma sint_double:
  assumes "0 \<le> sint (c :: duration)"
  shows "sint (c * 2) = (if sint c < 2 ^ 62 then 2 * sint c else 2 * sint c - 2 ^ 64)"
proof -
  have "sint (c * 2) = signed_take_bit 63 (sint c * 2)"
    by (simp add: sint_word_ariths)
  also have "\<dots> = (sint c * 2 + 2 ^ 63) mod 2 ^ 64 - 2 ^ 63"
    by (simp add: signed_take_bit_eq_take_bit_shift take_bit_eq_mod)
  also have "\<dots> = (if sint c < 2 ^ 62 then 2 * sint c else 2 * sint c - 2 ^ 64)"
  proof (cases "sint c < 2 ^ 62")
    case True
    with assms have "(sint c * 2 + 2 ^ 63) mod 2 ^ 64 = sint c * 2 + 2 ^ 63"
      by (intro mod_pos_pos_trivial) simp_all
    with True show ?thesis by simp
  next
    case False
    have "(sint c * 2 + 2 ^ 63) mod 2 ^ 64 = ((sint c * 2 - 2 ^ 63) + 2 ^ 64) mod 2 ^ 64"
      by (simp add: algebra_simps)
    also have "\<dots> = (sint c * 2 - 2 ^ 63) mod 2 ^ 64" by (rule mod_add_self2)
    also have "\<dots> = sint c * 2 - 2 ^ 63"
      using False sint_range [of c] by (intro mod_pos_pos_trivial) simp_all
    finally show ?thesis using False by simp
  qed
  finally show ?thesis .
qed

lemma sint_minus_one: "sint (- 1 :: duration) = - 1"
  by simp

lemma word_sless_sint: "(a :: duration) <s b \<longleftrightarrow> sint a < sint b"
  by (simp add: word_sless_alt)

lemma word_sle_sint: "(a :: duration) \<le>s b \<longleftrightarrow> sint a \<le> sint b"
  by (simp add: word_sle_eq)

text \<open>A step of the exponential schedule.\<close>

lemma getNewReconnectIvl_first:
  "0 < sint (reconnectIvlMax s) \<Longrightarrow>
     \<exists>v. getNewReconnectIvl rnd s (-1) = Some (v, v) \<and>
         sint v = min (sint (reconnectIvl s)) (sint (reconnectIvlMax s))"
  by (simp add: getNewReconnectIvl_def word_sless_sint word_sle_sint Let_def sint_minus_one min_def)

lemma getNewReconnectIvl_next:
  assumes "0 < sint (reconnectIvlMax s)" and "0 \<le> sint c" and "sint c \<le> sint (reconnectIvlMax s)"
  shows "\<exists>v. getNewReconnectIvl rnd s c = Some (v, v) \<and>
             sint v = min (2 * sint c) (sint (reconnectIvlMax s))"
proof (cases "sint c < 2 ^ 62")
  case True
  with assms sint_double [OF assms(2)] show ?thesis
    by (simp add: getNewReconnectIvl_def word_sless_sint word_sle_sint Let_def min_def)
next
  case False
  with sint_double [OF assms(2)] sint_range [of c] have "sint (c * 2) < sint c" by simp
  moreover have "sint (reconnectIvlMax s) \<le> 2 * sint c" using False sint_range [of "reconnectIvlMax s"] by simp
  ultimately show ?thesis using assms
    by (simp add: getNewReconnectIvl_def word_sless_sint word_sle_sint Let_def min_def)
qed

lemma nth_interval_backoff:
  assumes "0 < sint (reconnectIvl s)" and "0 < sint (reconnectIvlMax s)"
  shows "\<exists>v. nth_interval rnd s n = Some (v, v) \<and>
             sint v = min (sint (reconnectIvl s) * 2 ^ n) (sint (reconnectIvlMax s))"
proof (induction n)
  case 0
  show ?case using getNewReconnectIvl_first [OF assms(2), of "rnd 0"] by simp
next
  case (Suc n)
  then obtain v where v: "nth_interval rnd s n = Some (v, v)"
      "sint v = min (sint (reconnectIvl s) * 2 ^ n) (sint (reconnectIvlMax s))" by blast
  have "0 \<le> sint v" "sint v \<le> sint (reconnectIvlMax s)" using v(2) assms by simp_all
  from getNewReconnectIvl_next [OF assms(2) this, of "rnd (Suc n)"] obtain w where
      w: "getNewReconnectIvl (rnd (Suc n)) s v = Some (w, w)"
         "sint w = min (2 * sint v) (sint (reconnectIvlMax s))" by blast
  have "min (2 * min (sint (reconnectIvl s) * 2 ^ n) (sint (reconnectIvlMax s))) (sint (reconnectIvlMax s))
      = min (sint (reconnectIvl s) * 2 ^ Suc n) (sint (reconnectIvlMax s))"
    using assms(2) by (simp add: min_def)
  with v w show ?case by simp
qed

text \<open>The fixed schedule with jitter.\<close>

lemma getNewReconnectIvl_jitter:
  assumes "sint (reconnectIvlMax s) \<le> 0" and "0 < sint (reconnectIvl s)" and "sint (reconnectIvl s) < 2 ^ 62"
    and "c = - 1 \<or> c = reconnectIvl s"
  shows "\<exists>v. getNewReconnectIvl rnd s c = Some (v, reconnectIvl s) \<and>
             sint v = sint (reconnectIvl s) + int rnd mod sint (reconnectIvl s)"
proof -
  let ?i = "sint (reconnectIvl s)"
  let ?j = "int rnd mod ?i"
  have j: "0 \<le> ?j" "?j < ?i" using assms(2) by simp_all
  then have sj: "sint (word_of_int ?j :: duration) = ?j"
    using assms(3) by (intro sint_of_int_small) simp_all
  have "sint (reconnectIvl s + word_of_int ?j) = signed_take_bit 63 (?i + ?j)"
    unfolding sint_word_add sj by simp
  also have "\<dots> = ?i + ?j"
  proof (rule signed_take_bit_int_eq_self)
    have "- (2 ^ 63) \<le> (0 :: int)" by simp
    also have "0 \<le> ?i + ?j" using j(1) assms(2) by (intro add_nonneg_nonneg) simp_all
    finally show "- (2 ^ 63) \<le> ?i + ?j" .
    have "?i + ?j < 2 * 2 ^ 62" using j(2) assms(3) by linarith
    then show "?i + ?j < 2 ^ 63" by simp
  qed
  finally show ?thesis
    using assms by (auto simp: getNewReconnectIvl_def word_sless_sint Let_def Int63n_def sint_minus_one)
qed

lemma nth_interval_jitter:
  assumes "sint (reconnectIvlMax s) \<le> 0" and "0 < sint (reconnectIvl s)" and "sint (reconnectIvl s) < 2 ^ 62"
  shows "\<exists>v. nth_interval rnd s n = Some (v, reconnectIvl s) \<and>
             sint v = sint (reconnectIvl s) + int (rnd n) mod sint (reconnectIvl s)"
proof (induction n)
  case 0
  show ?case using getNewReconnectIvl_jitter [OF assms, of "-1"] by simp
next
  case (Suc n)
  then show ?case using getNewReconnectIvl_jitter [OF assms, of "reconnectIvl s" "rnd (Suc n)"] by auto
qed

section \<open>Lemmas on the reconnecting goroutine\<close>

lemma getNewReconnectIvl_cong:
  "reconnectIvl s = reconnectIvl t \<Longrightarrow> reconnectIvlMax s = reconnectIvlMax t \<Longrightarrow>
     getNewReconnectIvl rnd s c = getNewReconnectIvl rnd t c"
  unfolding getNewReconnectIvl_def Let_def by (simp split: option.splits)

lemma nth_interval_cong:
  "reconnectIvl s = reconnectIvl t \<Longrightarrow> reconnectIvlMax s = reconnectIvlMax t \<Longrightarrow>
     nth_interval rnd s n = nth_interval rnd t n"
  by (induction n) (simp_all add: getNewReconnectIvl_cong [of s t] split: option.splits)

text \<open>A dial that fails changes the endpoint and the direction of the socket and nothing else.\<close>

lemma socket_Dial_fails:
  "socket_Dial drivers ops onAdded env c endpoint s = Returns (Some e, s1) \<Longrightarrow>
     s1 = s\<lparr>ep := endpoint, isDialer := True\<rparr>"
  by (auto simp: socket_Dial_def Let_def split: sum.splits option.splits)

text \<open>The \<^verbatim>\<open>currentIvl\<close> with which round \<open>k\<close> begins.\<close>

definition ivl_before ::
    "(nat \<Rightarrow> 't rec_round) \<Rightarrow> ('p, 't, 'm) socket_scheme \<Rightarrow> nat \<Rightarrow> duration \<Rightarrow> bool" where
  "ivl_before env s k cur =
     (if k = 0 then cur = - 1 else \<exists>v. nth_interval (\<lambda>j. rr_rnd (env j)) s (k - 1) = Some (v, cur))"

lemma ivl_before_next:
  "ivl_before env s k cur \<Longrightarrow>
     getNewReconnectIvl (rr_rnd (env k)) s cur = nth_interval (\<lambda>j. rr_rnd (env j)) s k"
  by (cases k) (auto simp: ivl_before_def)

lemma ivl_before_cong:
  "reconnectIvl s = reconnectIvl t \<Longrightarrow> reconnectIvlMax s = reconnectIvlMax t \<Longrightarrow>
     ivl_before env s k cur = ivl_before env t k cur"
  by (simp add: ivl_before_def nth_interval_cong [of s t])

lemma reconnect_waited:
  "reconnect drivers ops onAdded env k cur wt s = Some y \<Longrightarrow>
     ivl_before env s k cur \<longrightarrow> (\<forall>wt' s'. y = Returns (wt', s') \<longrightarrow>
       (\<exists>n \<ge> k. wt' = wt @ map (\<lambda>j. fst (the (nth_interval (\<lambda>j. rr_rnd (env j)) s j))) [k..<n]))"
proof (induction drivers ops onAdded env k cur wt s y
    rule: reconnect.raw_induct [rotated, consumes 1, case_names 1])
  case (1 f drivers ops onAdded env k cur wt s y)
  let ?nth = "\<lambda>s j. fst (the (nth_interval (\<lambda>j. rr_rnd (env j)) s j))"
  show ?case
  proof (intro impI allI)
    fix wt' s'
    assume iv: "ivl_before env s k cur" and y: "y = Returns (wt', s')"
    show "\<exists>n \<ge> k. wt' = wt @ map (?nth s) [k..<n]"
    proof (cases "rr_ctx (env k) \<noteq> None")
      case True
      with 1(2) y have "wt' = wt @ map (?nth s) [k..<k]" by simp
      then show ?thesis by blast
    next
      case live: False
      with 1(2) y obtain i c where g: "getNewReconnectIvl (rr_rnd (env k)) s cur = Some (i, c)"
        by (auto split: option.splits)
      with ivl_before_next [OF iv] have n: "nth_interval (\<lambda>j. rr_rnd (env j)) s k = Some (i, c)" by simp
      then have one: "[i] = map (?nth s) [k..<Suc k]" by simp
      show ?thesis
      proof (cases "f drivers ops onAdded env (Suc k) c (wt @ [i]) (s\<lparr>isDialer := True\<rparr>) = Some y
                    \<and> wt' \<noteq> wt @ [i]")
        case True
        have same: "nth_interval rnd (s\<lparr>isDialer := True\<rparr>) j = nth_interval rnd s j" for rnd j
          by (rule nth_interval_cong) simp_all
        have "ivl_before env (s\<lparr>isDialer := True\<rparr>) (Suc k) c"
          using n by (simp add: ivl_before_def same)
        with 1(1) [OF conjunct1 [OF True]] y obtain m where m: "m \<ge> Suc k"
          "wt' = (wt @ [i]) @ map (?nth s) [Suc k..<m]" unfolding same by blast
        then have "[k..<m] = [k] @ [Suc k..<m]" by (simp add: upt_conv_Cons)
        with m(2) one have "wt' = wt @ map (?nth s) [k..<m]" by simp
        with m(1) show ?thesis by (intro exI [of _ m]) simp
      next
        case False
        have "wt' = wt @ [i]"
        proof (cases "rr_cut (env k) \<or> rr_ctx2 (env k) \<noteq> None")
          case True
          with 1(2) y live g show ?thesis by (cases "rr_cut (env k)") auto
        next
          case go: False
          show ?thesis
          proof (cases "socket_Dial drivers ops onAdded (rr_dial (env k)) (rr_conn (env k)) (ep s) s")
            case (Returns r)
            obtain e s1 where r: "r = (e, s1)" by (cases r)
            show ?thesis
            proof (cases e)
              case None
              with 1(2) y live g go Returns r show ?thesis by simp
            next
              case (Some e1)
              with Returns r have "s1 = s\<lparr>isDialer := True\<rparr>"
                using socket_Dial_fails [of drivers ops onAdded "rr_dial (env k)" "rr_conn (env k)" "ep s" s e1 s1]
                by simp
              with 1(2) live g go Returns r Some False show ?thesis by simp
            qed
          qed (use 1(2) y live g go in simp_all)
        qed
        with one have "wt' = wt @ map (?nth s) [k..<Suc k]" by simp
        then show ?thesis by (intro exI [of _ "Suc k"]) simp
      qed
    qed
  qed
qed

text \<open>A dial looks only at the endpoint it is given.\<close>

lemma socket_Dial_ep [simp]:
  "socket_Dial drivers ops onAdded env c endpoint (s\<lparr>isDialer := b\<rparr>) =
   socket_Dial drivers ops onAdded env c endpoint s"
  by (simp add: socket_Dial_def)

text \<open>If some dial succeeds while the socket is open, the goroutine returns with it.\<close>

lemma reconnect_succeeds:
  assumes "\<forall>j. k \<le> j \<and> j \<le> n \<longrightarrow> rr_ctx (env j) = None \<and> rr_ctx2 (env j) = None \<and> \<not> rr_cut (env j)"
    and "\<forall>j. k \<le> j \<and> j < n \<longrightarrow>
           (\<exists>e s1. socket_Dial drivers ops onAdded (rr_dial (env j)) (rr_conn (env j)) (ep s) s
                   = Returns (Some e, s1))"
    and "socket_Dial drivers ops onAdded (rr_dial (env n)) (rr_conn (env n)) (ep s) s = Returns (None, s2)"
    and "ivl_before env s k cur" and "\<forall>j. nth_interval (\<lambda>j. rr_rnd (env j)) s j \<noteq> None" and "k \<le> n"
  shows "\<exists>wt'. reconnect drivers ops onAdded env k cur wt s = Some (Returns (wt', s2)) \<and>
           length wt' = length wt + (n + 1 - k)"
  using assms
proof (induction "n - k" arbitrary: k cur wt s)
  case 0
  from "0.prems"(5) ivl_before_next [OF "0.prems"(4)] obtain i c where
    "getNewReconnectIvl (rr_rnd (env k)) s cur = Some (i, c)" by fastforce
  with 0 show ?case by (subst reconnect.simps) simp
next
  case (Suc d)
  from Suc.prems(5) ivl_before_next [OF Suc.prems(4)] obtain i c where
    g: "getNewReconnectIvl (rr_rnd (env k)) s cur = Some (i, c)"
       "nth_interval (\<lambda>j. rr_rnd (env j)) s k = Some (i, c)" by (metis not_None_eq surj_pair)
  let ?t = "s\<lparr>isDialer := True\<rparr>"
  have same: "nth_interval rnd ?t j = nth_interval rnd s j" for rnd j by (rule nth_interval_cong) simp_all
  from Suc.hyps(2) Suc.prems(2) obtain e s1 where
    d: "socket_Dial drivers ops onAdded (rr_dial (env k)) (rr_conn (env k)) (ep s) s = Returns (Some e, s1)"
    by fastforce
  with socket_Dial_fails [OF d] have "s1 = ?t" by simp
  moreover have "\<exists>wt'. reconnect drivers ops onAdded env (Suc k) c (wt @ [i]) ?t = Some (Returns (wt', s2)) \<and>
      length wt' = length (wt @ [i]) + (n + 1 - Suc k)"
  proof (rule Suc.hyps(1))
    show "d = n - Suc k" using Suc.hyps(2) by simp
    show "ivl_before env ?t (Suc k) c" using g(2) by (simp add: ivl_before_def same)
  qed (use Suc.prems Suc.hyps(2) same in auto)
  ultimately show ?case
    using g d Suc.prems(1) Suc.hyps(2) by (subst reconnect.simps) (auto simp: Suc_diff_le)
qed

section \<open>A socket and its pools\<close>

text \<open>
  What a socket relies on: the writer pool has exactly the connections that were added and not
  removed, in that order; the reader pool has some of them (a reader may leave by itself); and
  the pools leave each other alone. \<open>rmem\<close> and \<open>wmem\<close> are the members of the two pools.
\<close>

locale socket_pools =
  fixes ops :: "'p pool_ops"
    and rmem :: "'p \<Rightarrow> conn_id list"
    and wmem :: "'p \<Rightarrow> conn_id list"
  assumes add_r: "op_addR ops c p = Some p' \<Longrightarrow> distinct (rmem p) \<Longrightarrow> c \<notin> set (rmem p) \<Longrightarrow>
      set (rmem p') \<subseteq> insert c (set (rmem p)) \<and> distinct (rmem p') \<and> wmem p' = wmem p"
    and add_w: "op_addW ops c p = Some p' \<Longrightarrow> c \<notin> set (wmem p) \<Longrightarrow>
      wmem p' = wmem p @ [c] \<and> rmem p' = rmem p"
    and rm_r: "op_rmR ops c p = Some p' \<Longrightarrow> distinct (rmem p) \<Longrightarrow>
      set (rmem p') \<subseteq> set (rmem p) - {c} \<and> distinct (rmem p') \<and> wmem p' = wmem p"
    and rm_w: "op_rmW ops c p = Some p' \<Longrightarrow> distinct (wmem p) \<Longrightarrow>
      wmem p' = remove1 c (wmem p) \<and> rmem p' = rmem p"
    and put_members: "rmem (put_store ops st p) = rmem p" "wmem (put_store ops st p) = wmem p"
begin

definition in_sync :: "('p, 't, 'm) socket_scheme \<Rightarrow> bool" where
  "in_sync s = (r_set s \<and> w_set s \<and> distinct (conns s) \<and> wmem (pools s) = conns s \<and>
                distinct (rmem (pools s)) \<and> set (rmem (pools s)) \<subseteq> set (conns s))"

lemma in_sync_new:
  "wmem p = [] \<Longrightarrow> rmem p = [] \<Longrightarrow> in_sync (newDefaultSocket c t p :: ('p, 't) socket)"
  by (simp add: in_sync_def newDefaultSocket_def)

lemma in_sync_put: "in_sync s \<Longrightarrow> in_sync (s\<lparr>pools := put_store ops st (pools s)\<rparr>)"
  by (simp add: in_sync_def put_members)

lemma in_sync_add:
  assumes "in_sync s" and "c \<notin> set (conns s)" and "socket_addConn ops None c s = Some s'"
  shows "in_sync s' \<and> conns s' = conns s @ [c] \<and> closedConns s' = closedConns s \<and> reaping s' = reaping s"
proof -
  from assms(1,3) obtain p1 p2 where p: "op_addW ops c (pools s) = Some p1" "op_addR ops c p1 = Some p2"
      "s' = s\<lparr>conns := conns s @ [c], pools := p2\<rparr>"
    by (auto simp: socket_addConn_def if_set_def in_sync_def Let_def split: option.splits)
  from add_w [OF p(1)] add_r [OF p(2)] assms(1,2) p(3) show ?thesis
    by (auto simp: in_sync_def)
qed

lemma find_loop_absent: "find_loop xs 0 x = -1 \<longleftrightarrow> x \<notin> set xs"
  by (metis find_loop_nonneg find_loop_offset order_refl zero_le_one zle_iff_zadd
      linorder_not_le zero_less_one neg_0_le_iff_le)

lemma in_sync_rm:
  assumes "in_sync s" and "socket_rmConn ops c s = Some s'"
  shows "in_sync s' \<and> conns s' = remove1 c (conns s) \<and> closedConns s' = closedConns s \<and> reaping s' = reaping s"
proof (cases "c \<in> set (conns s)")
  case False
  with assms show ?thesis by (simp add: socket_rmConn_def find_loop_absent remove1_idem Let_def)
next
  case True
  then have cur: "find_loop (conns s) 0 c \<noteq> -1" "find_loop (conns s) 0 c \<ge> 0"
    by (simp_all add: find_loop_absent find_loop_nonneg)
  have cs: "take (nat (find_loop (conns s) 0 c)) (conns s) @ drop (nat (find_loop (conns s) 0 c) + 1) (conns s)
      = remove1 c (conns s)"
    using cur(2) rm_from_remove1 [of c "conns s"] by (simp add: rm_from_def Let_def)
  from assms cur(1) obtain p1 p2 where p: "op_rmR ops c (pools s) = Some p1" "op_rmW ops c p1 = Some p2"
      "s' = s\<lparr>conns := remove1 c (conns s), pools := p2\<rparr>"
    by (auto simp: socket_rmConn_def if_set_def in_sync_def Let_def cs [simplified] split: option.splits)
  from rm_r [OF p(1)] rm_w [OF p(2)] assms(1) p(3) show ?thesis
    by (auto simp: in_sync_def distinct_remove1)
qed

lemma in_sync_schedule: "in_sync s \<Longrightarrow> in_sync (scheduleRmConn c s)"
  by (simp add: in_sync_def scheduleRmConn_def Let_def)

end

section \<open>The reaper\<close>

text \<open>
  The life of a socket as far as its connections go: they are added when a dial or an accept
  succeeds; the callback of a connection that failed schedules it for removal; the reaper takes
  over what is scheduled and removes it; readers leave their pool. \<open>dead\<close> are the connections
  whose callback has run.
\<close>

inductive sock_step ::
    "'p pool_ops \<Rightarrow> ('p \<Rightarrow> conn_id list) \<Rightarrow> ('p \<Rightarrow> conn_id list)
       \<Rightarrow> ('p, 't) socket \<times> conn_id set \<Rightarrow> ('p, 't) socket \<times> conn_id set \<Rightarrow> bool"
  for ops rmem wmem where
  conn_added: "c \<notin> set (conns s) \<Longrightarrow> socket_addConn ops None c s = Some t \<Longrightarrow>
     sock_step ops rmem wmem (s, dead) (t, dead - {c})"
| conn_failed: "sock_step ops rmem wmem (s, dead) (scheduleRmConn c s, insert c dead)"
| taken: "reaping s = [] \<Longrightarrow> reaper_take s = Returns t \<Longrightarrow> sock_step ops rmem wmem (s, dead) (t, dead)"
| removed: "reaper_remove ops s = Some t \<Longrightarrow> sock_step ops rmem wmem (s, dead) (t, dead)"
| traffic: "wmem p = wmem (pools s) \<Longrightarrow> rmem p = rmem (pools s) \<or> rmem p = remove1 c (rmem (pools s)) \<Longrightarrow>
     sock_step ops rmem wmem (s, dead) (s\<lparr>pools := p\<rparr>, dead)"
| cancelled: "sock_step ops rmem wmem (s, dead) (snd (socket_Close ops s), dead)"

inductive sock_reach ::
    "'p pool_ops \<Rightarrow> ('p \<Rightarrow> conn_id list) \<Rightarrow> ('p \<Rightarrow> conn_id list) \<Rightarrow> 'p
       \<Rightarrow> ('p, 't) socket \<times> conn_id set \<Rightarrow> bool"
  for ops rmem wmem p where
  sock_start: "sock_reach ops rmem wmem p (newDefaultSocket c t p, {})"
| sock_next: "sock_reach ops rmem wmem p a \<Longrightarrow> sock_step ops rmem wmem a b \<Longrightarrow> sock_reach ops rmem wmem p b"

context socket_pools
begin

definition sock_inv :: "('p, 't) socket \<times> conn_id set \<Rightarrow> bool" where
  "sock_inv a = (in_sync (fst a) \<and>
     set (conns (fst a)) \<inter> snd a \<subseteq> set (closedConns (fst a)) \<union> set (reaping (fst a)))"

lemma in_sync_Close:
  "in_sync s \<Longrightarrow> in_sync (snd (socket_Close ops s)) \<and> conns (snd (socket_Close ops s)) = conns s \<and>
     closedConns (snd (socket_Close ops s)) = closedConns s \<and> reaping (snd (socket_Close ops s)) = reaping s"
  by (simp add: in_sync_def socket_Close_def Let_def put_members split: prod.split)

lemma sock_step_inv: "sock_step ops rmem wmem a b \<Longrightarrow> sock_inv a \<Longrightarrow> sock_inv b"
proof (induction rule: sock_step.induct)
  case (conn_added c s t dead)
  then have "in_sync s" by (simp add: sock_inv_def)
  from in_sync_add [OF this conn_added.hyps] conn_added.prems show ?case
    by (auto simp: sock_inv_def)
next
  case (conn_failed s dead c)
  then show ?case
    using in_sync_schedule [of s c] by (auto simp: sock_inv_def scheduleRmConn_def Let_def)
next
  case (taken s t dead)
  then show ?case
    by (auto simp: sock_inv_def reaper_take_def in_sync_def split: if_splits)
next
  case (removed s t dead)
  show ?case
  proof (cases "reaping s")
    case Nil
    with removed show ?thesis by (simp add: reaper_remove_def)
  next
    case (Cons c cc)
    with removed.hyps obtain s1 where s1: "socket_rmConn ops c s = Some s1" "t = s1\<lparr>reaping := cc\<rparr>"
      by (auto simp: reaper_remove_def)
    from removed.prems have i: "in_sync s" by (simp add: sock_inv_def)
    from in_sync_rm [OF i s1(1)] i removed.prems Cons s1(2) show ?thesis
      by (auto simp: sock_inv_def in_sync_def)
  qed
next
  case (traffic p s c dead)
  then show ?case by (auto simp: sock_inv_def in_sync_def distinct_remove1 dest: notin_set_remove1)
next
  case (cancelled s dead)
  then show ?case using in_sync_Close [of s] by (auto simp: sock_inv_def)
qed

lemma sock_reach_inv:
  assumes "sock_reach ops rmem wmem p a" and "wmem p = []" and "rmem p = []"
  shows "sock_inv a"
  using assms(1)
proof (induction rule: sock_reach.induct)
  case (sock_start c t)
  with in_sync_new [OF assms(2,3)] show ?case by (simp add: sock_inv_def newDefaultSocket_def)
next
  case (sock_next a b)
  then show ?case by (blast intro: sock_step_inv)
qed

end

section \<open>The pools of a default socket\<close>

record base_pools =
  bq :: qreader
  bw :: mwriter
  bst :: store

definition new_base_pools :: "store \<Rightarrow> base_pools" where
  "new_base_pools st = \<lparr>bq = newQReader, bw = newMWriter, bst = st\<rparr>"

definition base_ops :: "base_pools pool_ops" where
  "base_ops =
     \<lparr>op_addR = (\<lambda>c p. Some (p\<lparr>bq := qreader_addConn c (bq p)\<rparr>)),
      op_addW = (\<lambda>c p. Some (p\<lparr>bw := mwriter_addConn c (bw p)\<rparr>)),
      op_rmR = (\<lambda>c p. Some (p\<lparr>bq := qreader_rmConn c (bq p)\<rparr>)),
      op_rmW = (\<lambda>c p. Some (p\<lparr>bw := mwriter_rmConn c (bw p)\<rparr>)),
      get_store = bst, put_store = (\<lambda>st p. p\<lparr>bst := st\<rparr>)\<rparr>"

text \<open>
  A context derived from the socket's own: done when that is, or when its own deadline passes.
  \<^verbatim>\<open>Send\<close> has the deadline of \<^verbatim>\<open>Timeout()\<close>; \<^verbatim>\<open>Recv\<close> has none.
\<close>

definition child_ctx :: "ctx \<Rightarrow> ('p, 't, 'm) socket_scheme \<Rightarrow> ctx" where
  "child_ctx own s = (case ctx_err (sck_ctx s) of Some e \<Rightarrow> Some e | None \<Rightarrow> own)"

definition socket_Send ::
    "ctx \<Rightarrow> msg \<Rightarrow> (base_pools, 't, 'm) socket_scheme
       \<Rightarrow> (go_error option \<times> (base_pools, 't, 'm) socket_scheme) blocking" where
  "socket_Send deadline m s =
     (case mwriter_write (child_ctx deadline s) m (bw (pools s)) (bst (pools s)) of
        Returns (e, st) \<Rightarrow> Returns (e, s\<lparr>pools := (pools s)\<lparr>bst := st\<rparr>\<rparr>)
      | Waits \<Rightarrow> Waits
      | Panics \<Rightarrow> Panics)"

definition socket_SendMulti ::
    "ctx \<Rightarrow> msg \<Rightarrow> (base_pools, 't, 'm) socket_scheme
       \<Rightarrow> (go_error option \<times> (base_pools, 't, 'm) socket_scheme) blocking" where
  "socket_SendMulti deadline m s =
     (case mwriter_write (child_ctx deadline s) (m\<lparr>multipart := True\<rparr>) (bw (pools s)) (bst (pools s)) of
        Returns (e, st) \<Rightarrow> Returns (e, s\<lparr>pools := (pools s)\<lparr>bst := st\<rparr>\<rparr>)
      | Waits \<Rightarrow> Waits
      | Panics \<Rightarrow> Panics)"

definition socket_Recv ::
    "nat \<Rightarrow> (base_pools, 't, 'm) socket_scheme
       \<Rightarrow> ((msg \<times> go_error option) \<times> (base_pools, 't, 'm) socket_scheme) blocking" where
  "socket_Recv pick s =
     (case qreader_read pick (child_ctx None s) (bq (pools s)) of
        Returns (e, m, q) \<Rightarrow> Returns ((m, e), s\<lparr>pools := (pools s)\<lparr>bq := q\<rparr>\<rparr>)
      | Waits \<Rightarrow> Waits
      | Panics \<Rightarrow> Panics)"

lemma base_ops_simps:
  "op_addR base_ops c p = Some p' \<longleftrightarrow> p' = p\<lparr>bq := qreader_addConn c (bq p)\<rparr>"
  "op_addW base_ops c p = Some p' \<longleftrightarrow> p' = p\<lparr>bw := mwriter_addConn c (bw p)\<rparr>"
  "op_rmR base_ops c p = Some p' \<longleftrightarrow> p' = p\<lparr>bq := qreader_rmConn c (bq p)\<rparr>"
  "op_rmW base_ops c p = Some p' \<longleftrightarrow> p' = p\<lparr>bw := mwriter_rmConn c (bw p)\<rparr>"
  "get_store base_ops p = bst p" "put_store base_ops st p = p\<lparr>bst := st\<rparr>"
  by (auto simp: base_ops_def)

interpretation base: socket_pools base_ops "\<lambda>p. rs (bq p)" "\<lambda>p. ws (bw p)"
  by unfold_locales
    (simp_all add: base_ops_simps qreader_pool.members_add qreader_pool.members_rm subset_insertI2
      mwriter_pool.members_add mwriter_pool.members_rm distinct_remove1 subset_insertI)

section \<open>Lemmas on topics\<close>

lemma topics_inner_spec:
  "distinct ts \<Longrightarrow> distinct (topics_inner ks ts) \<and> set (topics_inner ks ts) = set ts \<union> set ks"
  by (induction ks ts rule: topics_inner.induct) auto

lemma topics_outer_spec:
  "distinct ts \<Longrightarrow> distinct (topics_outer st cs ts) \<and>
     set (topics_outer st cs ts) = set ts \<union> (\<Union>c \<in> set cs. set (topics (cells st c)))"
proof (induction cs arbitrary: ts)
  case Nil
  then show ?case by simp
next
  case (Cons c cs)
  from topics_inner_spec [OF Cons.prems, of "topics (cells st c)"]
    Cons.IH [of "topics_inner (topics (cells st c)) ts"] show ?case by auto
qed

section \<open>Properties\<close>

text \<open>
  C28: With \<^verbatim>\<open>reconnectIvlMax\<close> set, the interval before the \<open>n\<close>-th attempt to reconnect is
  \<^verbatim>\<open>reconnectIvl\<close> doubled \<open>n\<close> times, and never more than the maximum, however large the numbers:
  the doubling of a 64-bit duration that overflows is caught. Without it the interval is
  \<^verbatim>\<open>reconnectIvl\<close> plus a random part below \<^verbatim>\<open>reconnectIvl\<close>.
\<close>

theorem reconnect_intervals:
  assumes "0 < sint (reconnectIvl s)"
  shows "if 0 < sint (reconnectIvlMax s)
    then (\<exists>v. nth_interval rnd s n = Some (v, v) \<and>
            sint v = min (sint (reconnectIvl s) * 2 ^ n) (sint (reconnectIvlMax s)))
    else 2 ^ 62 \<le> sint (reconnectIvl s) \<or>
         (\<exists>v. nth_interval rnd s n = Some (v, reconnectIvl s) \<and>
            sint (reconnectIvl s) \<le> sint v \<and> sint v < 2 * sint (reconnectIvl s))"
proof (cases "0 < sint (reconnectIvlMax s)")
  case True
  with nth_interval_backoff [OF assms True, of rnd n] show ?thesis by simp
next
  case False
  show ?thesis
  proof (cases "sint (reconnectIvl s) < 2 ^ 62")
    case True
    from False have "sint (reconnectIvlMax s) \<le> 0" by simp
    from nth_interval_jitter [OF this assms True, of rnd n] False assms show ?thesis by auto
  qed (use False in simp)
qed

theorem reconnect_intervals_witness:
  "\<exists>v. nth_interval (\<lambda>_. 3) ((newDefaultSocket None Sub () :: (unit, nat) socket)\<lparr>reconnectIvlMax := 1000000000\<rparr>) 5
         = Some (v, v) \<and> sint v = 1000000000"
proof -
  let ?s = "(newDefaultSocket None Sub () :: (unit, nat) socket)\<lparr>reconnectIvlMax := 1000000000\<rparr>"
  have "sint (reconnectIvl ?s) = 100000000" "sint (reconnectIvlMax ?s) = 1000000000"
    by (simp_all add: newDefaultSocket_def defaultReconnectIvl_def Millisecond_def)
  with reconnect_intervals [of ?s "\<lambda>_. 3" 5] show ?thesis by simp
qed

text \<open>
  A zero or negative \<^verbatim>\<open>reconnectIvl\<close> without a maximum makes the reconnecting goroutine
  panic in its first round: \<^verbatim>\<open>rand.Int63n\<close> is called with it.
\<close>

theorem reconnect_zero_interval_panics:
  assumes "sint (reconnectIvl s) \<le> 0" and "sint (reconnectIvlMax s) \<le> 0" and "rr_ctx (env 0) = None"
  shows "reconnect drivers ops onAdded env 0 (-1) [] s = Some Panics"
  using assms
  by (subst reconnect.simps)
    (simp add: getNewReconnectIvl_def word_sless_sint Int63n_def Let_def)

theorem reconnect_zero_interval_panics_witness:
  "reconnect [] base_ops None
     (\<lambda>_. \<lparr>rr_ctx = None, rr_rnd = 0, rr_cut = False, rr_ctx2 = None,
          rr_dial = (\<lambda>_ _ _ _. \<lparr>at_dial = Inl EOF, at_dialctx = None, at_sckctx = None, at_pause = Elapsed\<rparr>),
          rr_conn = 1\<rparr>) 0 (-1) []
     (WithReconnectInterval 0 (newDefaultSocket None Sub (new_base_pools fresh_store) :: (base_pools, nat) socket))
     = Some Panics"
  by (rule reconnect_zero_interval_panics)
    (simp_all add: WithReconnectInterval_def newDefaultSocket_def defaultReconnectIvlMax_def)

text \<open>
  The reconnecting goroutine pauses before its attempts for exactly the intervals of the
  schedule, and as soon as an attempt succeeds while the socket is open it returns, having
  paused once for each attempt.
\<close>

theorem reconnect_follows_schedule:
  assumes "0 < sint (reconnectIvl s)" and "0 < sint (reconnectIvlMax s)"
    and "\<forall>j \<le> n. rr_ctx (env j) = None \<and> rr_ctx2 (env j) = None \<and> \<not> rr_cut (env j)"
    and "\<forall>j < n. \<exists>e s1. socket_Dial drivers ops onAdded (rr_dial (env j)) (rr_conn (env j)) (ep s) s
                   = Returns (Some e, s1)"
    and "socket_Dial drivers ops onAdded (rr_dial (env n)) (rr_conn (env n)) (ep s) s = Returns (None, s2)"
  shows "\<exists>waited. reconnect drivers ops onAdded env 0 (-1) [] s = Some (Returns (waited, s2)) \<and>
           map sint waited = map (\<lambda>j. min (sint (reconnectIvl s) * 2 ^ j) (sint (reconnectIvlMax s))) [0..<Suc n]"
proof -
  let ?nth = "nth_interval (\<lambda>j. rr_rnd (env j)) s"
  have iv: "ivl_before env s 0 (-1)" by (simp add: ivl_before_def)
  have some: "\<forall>j. ?nth j \<noteq> None" using nth_interval_backoff [OF assms(1,2)] by fastforce
  have "\<exists>wt. reconnect drivers ops onAdded env 0 (-1) [] s = Some (Returns (wt, s2)) \<and>
      length wt = length ([] :: duration list) + (n + 1 - 0)"
    by (rule reconnect_succeeds [OF _ _ assms(5) iv some]) (use assms(3,4) in auto)
  then obtain wt where wt: "reconnect drivers ops onAdded env 0 (-1) [] s = Some (Returns (wt, s2))"
      "length wt = Suc n" by auto
  from reconnect_waited [OF wt(1)] iv obtain m where "wt = map (\<lambda>j. fst (the (?nth j))) [0..<m]" by auto
  with wt(2) have "wt = map (\<lambda>j. fst (the (?nth j))) [0..<Suc n]" by simp
  moreover have "sint (fst (the (?nth j))) = min (sint (reconnectIvl s) * 2 ^ j) (sint (reconnectIvlMax s))" for j
    using nth_interval_backoff [OF assms(1,2), of "\<lambda>j. rr_rnd (env j)" j] by auto
  ultimately have "map sint wt = map (\<lambda>j. min (sint (reconnectIvl s) * 2 ^ j) (sint (reconnectIvlMax s))) [0..<Suc n]"
    by (simp del: upt_Suc)
  with wt(1) show ?thesis by blast
qed

text \<open>A network on which the first dial fails and the second succeeds.\<close>

definition demo_endpoint :: string where
  "demo_endpoint = ''quic://h:1''"

lemma demo_splitAddr: "splitAddr demo_endpoint = Inr (''quic'', ''h:1'')"
  unfolding demo_endpoint_def by code_simp

definition demo_net :: net_conn where
  "demo_net = \<lparr>rd = bytes_NewReader [], wr = \<lparr>wr_script = [], written = []\<rparr>, close_result = None,
               close_calls = 0\<rparr>"

definition demo_attempt :: "bool \<Rightarrow> attempt" where
  "demo_attempt ok = \<lparr>at_dial = (if ok then Inr (Some demo_net) else Inl (ErrIO ''refused'')),
                      at_dialctx = None, at_sckctx = None, at_pause = Elapsed\<rparr>"

definition demo_rounds :: "nat \<Rightarrow> nat rec_round" where
  "demo_rounds k = \<lparr>rr_ctx = None, rr_rnd = 0, rr_cut = False, rr_ctx2 = None,
                    rr_dial = (\<lambda>_ _ _ _. demo_attempt (k > 0)), rr_conn = 1\<rparr>"

definition demo_socket :: "(base_pools, nat) socket" where
  "demo_socket = (newDefaultSocket None Sub (new_base_pools fresh_store))
                   \<lparr>ep := demo_endpoint, maxRetries := 0, reconnectIvlMax := 150000000\<rparr>"

lemma demo_dial_fails:
  "\<exists>e s1. socket_Dial [(''quic'', 7)] base_ops None (\<lambda>_ _ _ _. demo_attempt False) 1 demo_endpoint demo_socket
     = Returns (Some e, s1)"
  by (simp add: socket_Dial_def demo_splitAddr dial_transport_def demo_socket_def newDefaultSocket_def
      transports_get_def dial_params_of_def Let_def dial_connect.simps demo_attempt_def)

lemma demo_dial_ok:
  "\<exists>s1. socket_Dial [(''quic'', 7)] base_ops None (\<lambda>_ _ _ _. demo_attempt True) 1 demo_endpoint demo_socket
     = Returns (None, s1) \<and> conns s1 = [1]"
  by (simp add: socket_Dial_def demo_splitAddr dial_transport_def demo_socket_def newDefaultSocket_def
      transports_get_def dial_params_of_def Let_def dial_connect.simps demo_attempt_def Open_def
      start_reaper_def socket_addConn_def if_set_def base_ops_def)

theorem reconnect_follows_schedule_witness:
  "\<exists>waited s2. reconnect [(''quic'', 7)] base_ops None demo_rounds 0 (-1) [] demo_socket
       = Some (Returns (waited, s2)) \<and> map sint waited = [100000000, 150000000] \<and> conns s2 = [1]"
proof -
  have p: "sint (reconnectIvl demo_socket) = 100000000" "sint (reconnectIvlMax demo_socket) = 150000000"
      "ep demo_socket = demo_endpoint"
    by (simp_all add: demo_socket_def newDefaultSocket_def defaultReconnectIvl_def Millisecond_def)
  from demo_dial_ok obtain s2 where s2: "socket_Dial [(''quic'', 7)] base_ops None
      (rr_dial (demo_rounds 1)) (rr_conn (demo_rounds 1)) (ep demo_socket) demo_socket = Returns (None, s2)"
      "conns s2 = [1]"
    by (auto simp: demo_rounds_def p)
  have "\<exists>waited. reconnect [(''quic'', 7)] base_ops None demo_rounds 0 (-1) [] demo_socket
      = Some (Returns (waited, s2)) \<and>
      map sint waited = map (\<lambda>j. min (sint (reconnectIvl demo_socket) * 2 ^ j)
         (sint (reconnectIvlMax demo_socket))) [0..<Suc 1]"
    by (rule reconnect_follows_schedule [where env = demo_rounds and n = 1, OF _ _ _ _ s2(1)])
      (use demo_dial_fails in \<open>simp_all add: p demo_rounds_def\<close>)
  then obtain waited where w: "reconnect [(''quic'', 7)] base_ops None demo_rounds 0 (-1) [] demo_socket
      = Some (Returns (waited, s2))" "map sint waited = [100000000, 150000000]"
    by (auto simp: p)
  show ?thesis by (rule exI [of _ waited], rule exI [of _ s2], intro conjI w s2(2))
qed

text \<open>
  C29: With a limit on the retries \<^verbatim>\<open>Dial\<close> makes at most one attempt more than the limit and
  returns; it retries exactly the attempts that failed while both contexts were live, and
  succeeds just when its last attempt does.
\<close>

theorem dial_bounded:
  assumes "0 \<le> dp_maxRetries d"
  shows "\<exists>r n. dial_connect d env 0 0 = Some (r, n) \<and> 0 < n \<and> int n \<le> dp_maxRetries d + 1 \<and>
    (\<forall>j < n - 1. retryable (env j)) \<and>
    ((\<exists>c. r = Inr c) \<longleftrightarrow> (\<exists>c. at_dial (env (n - 1)) = Inr c)) \<and>
    (retryable (env (n - 1)) \<longrightarrow> int n = dp_maxRetries d + 1)"
  using dial_connect_bounded [where retries = 0 and d = d and i = 0 and env = env] assms by fastforce

theorem dial_bounded_witness:
  "\<exists>r n. dial_connect \<lparr>dp_endpoint = demo_endpoint, dp_dialTimeout = 0, dp_retry = 5, dp_maxRetries = 2\<rparr>
       (\<lambda>_. demo_attempt False) 0 0 = Some (r, n) \<and> n = 3"
  using dial_bounded [of "\<lparr>dp_endpoint = demo_endpoint, dp_dialTimeout = 0, dp_retry = 5, dp_maxRetries = 2\<rparr>"
      "\<lambda>_. demo_attempt False"]
  by (auto simp: demo_attempt_def retryable_def)

text \<open>
  With \<^verbatim>\<open>maxRetries\<close> \<open>-1\<close>, \<^verbatim>\<open>Dial\<close> never gives up by itself: if it returns, then some attempt
  succeeded or some context was done; and while every attempt fails it does not return.
\<close>

theorem dial_unbounded:
  assumes "dp_maxRetries d = -1"
  shows "(dial_connect d env 0 0 = None) = (\<forall>j. retryable (env j))"
proof -
  have "(dial_connect d env 0 0 \<noteq> None) = (\<exists>j. \<not> retryable (env j))"
  proof
    assume "dial_connect d env 0 0 \<noteq> None"
    then obtain y where "dial_connect d env 0 0 = Some y" by blast
    from dial_connect_returns_cause [OF this] assms show "\<exists>j. \<not> retryable (env j)" by blast
  next
    assume "\<exists>j. \<not> retryable (env j)"
    then obtain j where "\<not> retryable (env j)" by blast
    then have "i \<le> j \<Longrightarrow> dial_connect d env i r \<noteq> None" for i r
    proof (induction "j - i" arbitrary: i r)
      case 0
      then have "i = j" by simp
      with 0 dial_connect_stop [of env i d r] show ?case by fastforce
    next
      case (Suc k)
      show ?case
      proof (cases "retryable (env i)")
        case True
        with Suc.hyps(1) [of "Suc i" "r + 1"] Suc.hyps(2) Suc.prems assms show ?thesis
          by (simp add: dial_connect_retry)
      next
        case False
        with dial_connect_stop [of env i d r] show ?thesis by fastforce
      qed
    qed
    then show "dial_connect d env 0 0 \<noteq> None" by simp
  qed
  then show ?thesis by blast
qed

theorem dial_unbounded_witness:
  "dial_connect \<lparr>dp_endpoint = demo_endpoint, dp_dialTimeout = 0, dp_retry = 5, dp_maxRetries = -1\<rparr>
     (\<lambda>_. demo_attempt False) 0 0 = None"
  using dial_unbounded [of "\<lparr>dp_endpoint = demo_endpoint, dp_dialTimeout = 0, dp_retry = 5, dp_maxRetries = -1\<rparr>"
      "\<lambda>_. demo_attempt False"]
  by (simp add: demo_attempt_def retryable_def)



text \<open>
  Closing a socket cancels its context, closes each of its connections once and no other,
  and its listener if it has one; the error is the first that closing a connection gave.
\<close>

theorem socket_Close_outcome:
  assumes "distinct (conns s)" and "socket_Close base_ops s = (e, s')"
  shows "ctx_err (sck_ctx s') = (if ctx_err (sck_ctx s) = None then Some CtxCanceled else ctx_err (sck_ctx s)) \<and>
    closes (bst (pools s')) i = closes (bst (pools s)) i + (if i \<in> set (conns s) then 1 else 0) \<and>
    listener_closes s' = listener_closes s + (if listener s = None then 0 else 1) \<and>
    e = (case filter (\<lambda>i. close_result (rw (cells (bst (pools s)) i)) \<noteq> None) (conns s) of
           [] \<Rightarrow> None | i # _ \<Rightarrow> close_result (rw (cells (bst (pools s)) i)))"
proof -
  obtain e1 st where c: "close_all (conns s) None (bst (pools s)) = (e1, st)" by (metis surj_pair)
  from close_all_spec [OF assms(1) c, of i] assms(2) c show ?thesis
    by (auto simp: socket_Close_def Let_def base_ops_simps split: if_splits)
qed

theorem socket_Close_outcome_witness:
  "closes (bst (pools (snd (socket_Close base_ops (demo_socket\<lparr>conns := [3]\<rparr>))))) 3 = 1"
proof -
  obtain e s' where c: "socket_Close base_ops (demo_socket\<lparr>conns := [3]\<rparr>) = (e, s')" by (metis surj_pair)
  have "closes (bst (pools demo_socket)) 3 = 0"
    by (simp add: demo_socket_def newDefaultSocket_def new_base_pools_def fresh_store_def new_conn_def)
  with socket_Close_outcome [OF _ c, of 3] c show ?thesis by simp
qed

end
