(* ===== verification/PubSub.thy ===== *)
theory PubSub
  imports Socket
begin

text \<open>
  \<^verbatim>\<open>pub.go\<close>, \<^verbatim>\<open>sub.go\<close>, \<^verbatim>\<open>xpub.go\<close> and \<^verbatim>\<open>xsub.go\<close>: the publisher's reader of subscription
  commands, its writer that filters by topic in front of a bounded queue per subscriber, the
  goroutines that empty the queues, and the subscriber with its set of topics.
\<close>

section \<open>The publisher's reader\<close>

record pubQReader =
  pq_rs :: "conn_id list"
  pq_c :: "msg chan"
  pq_sem :: semaphore
  pq_listeners :: "conn_id list"

definition newPubQReader :: pubQReader where
  "newPubQReader = \<lparr>pq_rs = [], pq_c = make_chan 10, pq_sem = newSemaphore, pq_listeners = []\<rparr>"

definition pubQReader_Close :: "pubQReader \<times> store \<Rightarrow> go_error option \<times> pubQReader \<times> store" where
  "pubQReader_Close = (\<lambda>(q, st).
     case close_all (pq_rs q) None st of (e, st') \<Rightarrow> (e, q\<lparr>pq_rs := []\<rparr>, st'))"

definition pubQReader_addConn :: "conn_id \<Rightarrow> pubQReader \<Rightarrow> pubQReader" where
  "pubQReader_addConn r q =
     q\<lparr>pq_sem := sem_enable (pq_sem q), pq_rs := pq_rs q @ [r], pq_listeners := pq_listeners q @ [r]\<rparr>"

definition pubQReader_rmConn :: "conn_id \<Rightarrow> pubQReader \<Rightarrow> pubQReader" where
  "pubQReader_rmConn r q = q\<lparr>pq_rs := rm_from r (pq_rs q)\<rparr>"

text \<open>
  \<^verbatim>\<open>read\<close>: the case of a context that is done does nothing, so the error returned is that of
  the message the caller passed in, which is the zero message.
\<close>

definition pubQReader_read ::
    "nat \<Rightarrow> ctx \<Rightarrow> msg \<Rightarrow> pubQReader \<Rightarrow> (go_error option \<times> msg \<times> pubQReader) blocking" where
  "pubQReader_read pick c m q =
     (if \<not> sem_lock_ready c (pq_sem q) then Waits
      else go_select pick
             [case_done c (\<lambda>e. (msg_err m, m, q)),
              case_recv (pq_c q) (\<lambda>m1 ch. (msg_err m1, m1, q\<lparr>pq_c := ch\<rparr>))])"

definition isTopic :: "msg \<Rightarrow> bool" where
  "isTopic m =
     (if length (Frames m) \<noteq> 1 then False
      else let frame = Frames m ! 0 in
           if length frame = 0 then False else frame ! 0 = 0 \<or> frame ! 0 = 1)"

definition pubQReader_leave :: "conn_id \<Rightarrow> pubQReader \<times> store \<Rightarrow> pubQReader \<times> store" where
  "pubQReader_leave r = (\<lambda>(q, st).
     case st_Close r st of (_, st') \<Rightarrow>
       ((pubQReader_rmConn r q)\<lparr>pq_listeners := rm_from r (pq_listeners q)\<rparr>, st'))"

text \<open>One round of \<^verbatim>\<open>listen\<close>; a panic of \<^verbatim>\<open>subscribe\<close> is one of the goroutine.\<close>

definition pubQReader_listen ::
    "ctx \<Rightarrow> conn_id \<Rightarrow> pubQReader \<times> store \<Rightarrow> (pubQReader \<times> store) blocking" where
  "pubQReader_listen c r = (\<lambda>(q, st).
     case st_read r st of (m, st1) \<Rightarrow>
       if c \<noteq> None then Returns (pubQReader_leave r (q, st1))
       else if msg_err m \<noteq> None then Returns (pubQReader_leave r (q, st1))
       else if isTopic m
       then (case subscribe m (cells st1 r) of
               None \<Rightarrow> Panics
             | Some k \<Rightarrow> Returns (q, st1\<lparr>cells := (cells st1)(r := k)\<rparr>))
       else (case chan_send m (pq_c q) of
               Sent ch \<Rightarrow> Returns (q\<lparr>pq_c := ch\<rparr>, st1)
             | _ \<Rightarrow> Waits))"

interpretation pubq_pool: conn_pool pubQReader_addConn pubQReader_rmConn pq_rs
  by unfold_locales (simp_all add: pubQReader_addConn_def pubQReader_rmConn_def rm_from_remove1)

section \<open>The publisher's writer\<close>

text \<open>
  The channels live in a heap, \<open>chans\<close>, and are referred to by their position in it: the map
  \<^verbatim>\<open>subscribers\<close> (\<open>None\<close> is a nil map) and the goroutine that empties a channel share it, and the
  goroutine outlives the entry. \<open>dr_msg\<close> is the message a goroutine has received and not sent yet.
\<close>

record drainer =
  dr_chan :: nat
  dr_conn :: conn_id
  dr_msg :: "msg option"

record pubMWriter =
  subscribers :: "(conn_id \<times> nat) list option"
  hwm :: int
  chans :: "msg chan list"
  drainers :: "drainer list"

definition DefaultSendHwm :: int where "DefaultSendHwm = 1000"

definition newPubMWriter :: pubMWriter where
  "newPubMWriter = \<lparr>subscribers = Some [], hwm = DefaultSendHwm, chans = [], drainers = []\<rparr>"

definition sub_list :: "pubMWriter \<Rightarrow> (conn_id \<times> nat) list" where
  "sub_list w = (case subscribers w of None \<Rightarrow> [] | Some l \<Rightarrow> l)"

text \<open>\<^verbatim>\<open>close(channel)\<close>, which panics on a channel that is closed already.\<close>

definition close_at :: "nat \<Rightarrow> msg chan list \<Rightarrow> msg chan list option" where
  "close_at a cs = (if chan_closed (cs ! a) then None else Some (cs[a := chan_close (cs ! a)]))"

fun pubMWriter_Close_loop ::
    "(conn_id \<times> nat) list \<Rightarrow> msg chan list \<Rightarrow> store \<Rightarrow> (msg chan list \<times> store) option" where
  "pubMWriter_Close_loop [] cs st = Some (cs, st)"
| "pubMWriter_Close_loop ((c, a) # rest) cs st =
     (case st_Close c st of (_, st1) \<Rightarrow>
        (case close_at a cs of None \<Rightarrow> None | Some cs1 \<Rightarrow> pubMWriter_Close_loop rest cs1 st1))"

definition pubMWriter_Close ::
    "pubMWriter \<times> store \<Rightarrow> (go_error option \<times> pubMWriter \<times> store) option" where
  "pubMWriter_Close = (\<lambda>(w, st).
     case pubMWriter_Close_loop (sub_list w) (chans w) st of
       None \<Rightarrow> None
     | Some (cs, st') \<Rightarrow> Some (None, w\<lparr>subscribers := None, chans := cs\<rparr>, st'))"

text \<open>
  \<^verbatim>\<open>addConn\<close> panics for a negative high-water mark (\<^verbatim>\<open>make\<close>) and on a nil map (the assignment).
\<close>

definition pubMWriter_addConn :: "conn_id \<Rightarrow> pubMWriter \<Rightarrow> pubMWriter option" where
  "pubMWriter_addConn c w =
     (if hwm w < 0 then None
      else let a = length (chans w); w1 = w\<lparr>chans := chans w @ [make_chan (nat (hwm w))]\<rparr> in
           case subscribers w1 of
             None \<Rightarrow> None
           | Some subs \<Rightarrow>
               Some (w1\<lparr>subscribers := Some (AList.update c a subs),
                        drainers := drainers w1 @ [\<lparr>dr_chan = a, dr_conn = c, dr_msg = None\<rparr>]\<rparr>))"

definition pubMWriter_rmConn :: "conn_id \<Rightarrow> pubMWriter \<times> store \<Rightarrow> (pubMWriter \<times> store) option" where
  "pubMWriter_rmConn c = (\<lambda>(w, st).
     case map_of (sub_list w) c of
       None \<Rightarrow> Some (w, st)
     | Some a \<Rightarrow>
         (case st_Close c st of (_, st1) \<Rightarrow>
            let w1 = w\<lparr>subscribers := map_option (AList.delete c) (subscribers w)\<rparr> in
            (case close_at a (chans w1) of
               None \<Rightarrow> None
             | Some cs \<Rightarrow> Some (w1\<lparr>chans := cs\<rparr>, st1))))"

text \<open>
  A send on a subscriber's channel is ready when its buffer has room, or, for a channel without
  a buffer, when its goroutine is waiting to receive; the message handed over then is the one
  the goroutine takes next.
\<close>

definition receiver_waits :: "nat \<Rightarrow> drainer list \<Rightarrow> bool" where
  "receiver_waits a ds = list_ex (\<lambda>d. dr_chan d = a \<and> dr_msg d = None) ds"

definition sub_send :: "msg \<Rightarrow> nat \<Rightarrow> drainer list \<Rightarrow> msg chan \<Rightarrow> msg send_result" where
  "sub_send m a ds ch =
     (if \<not> chan_closed ch \<and> cap ch = 0 \<and> buf ch = [] \<and> receiver_waits a ds
      then Sent (ch\<lparr>buf := [m]\<rparr>) else chan_send m ch)"

text \<open>
  \<^verbatim>\<open>write\<close>: the loop over the subscribers, in the order of the list. \<open>env i\<close> is what the
  \<open>i\<close>-th \<^verbatim>\<open>select\<close> picks, and the state of the context then. The outer \<open>None\<close> is the panic of a
  send on a closed channel.
\<close>

definition msg_topic :: "msg \<Rightarrow> string" where
  "msg_topic m = (if length (Frames m) > 0 then string_of_bytes (Frames m ! 0) else '''')"

fun pub_write_loop ::
    "msg \<Rightarrow> string \<Rightarrow> (nat \<Rightarrow> nat \<times> ctx) \<Rightarrow> drainer list \<Rightarrow> store \<Rightarrow> nat \<Rightarrow> (conn_id \<times> nat) list
       \<Rightarrow> msg chan list \<Rightarrow> (go_error option \<times> msg chan list) option" where
  "pub_write_loop m topic env ds st i [] cs = Some (None, cs)"
| "pub_write_loop m topic env ds st i ((c, a) # rest) cs =
     (if \<not> subscribed (cells st c) topic then pub_write_loop m topic env ds st (Suc i) rest cs
      else case go_select (fst (env i))
                  [case_done (snd (env i)) Inl,
                   (case sub_send m a ds (cs ! a) of
                      Sent ch \<Rightarrow> Returns (Inr ch) | SendBlocks \<Rightarrow> Waits | SendPanics \<Rightarrow> Panics)] of
          Returns (Inl e) \<Rightarrow> Some (Some e, cs)
        | Returns (Inr ch) \<Rightarrow> pub_write_loop m topic env ds st (Suc i) rest (cs[a := ch])
        | Waits \<Rightarrow> pub_write_loop m topic env ds st (Suc i) rest cs
        | Panics \<Rightarrow> None)"

definition pubMWriter_write ::
    "(nat \<Rightarrow> nat \<times> ctx) \<Rightarrow> msg \<Rightarrow> pubMWriter \<Rightarrow> store \<Rightarrow> (go_error option \<times> pubMWriter) option" where
  "pubMWriter_write env m w st =
     (case pub_write_loop m (msg_topic m) env (drainers w) st 0 (sub_list w) (chans w) of
        None \<Rightarrow> None
      | Some (e, cs) \<Rightarrow> Some (e, w\<lparr>chans := cs\<rparr>))"

text \<open>
  The goroutine of a subscriber, the \<open>j\<close>-th: it receives a message (and ends when its channel
  is closed and empty), then sends it.
\<close>

definition drain_recv :: "nat \<Rightarrow> pubMWriter \<Rightarrow> pubMWriter blocking" where
  "drain_recv j w =
     (let d = drainers w ! j in
      if dr_msg d \<noteq> None then Waits
      else case chan_recv (chans w ! dr_chan d) of
          Received m ch \<Rightarrow>
            Returns (w\<lparr>chans := (chans w)[dr_chan d := ch],
                       drainers := (drainers w)[j := d\<lparr>dr_msg := Some m\<rparr>]\<rparr>)
        | ChanClosed \<Rightarrow> Returns (w\<lparr>drainers := take j (drainers w) @ drop (Suc j) (drainers w)\<rparr>)
        | RecvBlocks \<Rightarrow> Waits)"

definition drain_send :: "nat \<Rightarrow> pubMWriter \<times> store \<Rightarrow> (pubMWriter \<times> store) blocking" where
  "drain_send j = (\<lambda>(w, st).
     let d = drainers w ! j in
     case dr_msg d of
       None \<Rightarrow> Waits
     | Some m \<Rightarrow>
         (case st_SendMsg m (dr_conn d) st of
            (_, st1) \<Rightarrow> Returns (w\<lparr>drainers := (drainers w)[j := d\<lparr>dr_msg := None\<rparr>]\<rparr>, st1)))"

section \<open>The publishing sockets\<close>

record pub_pools =
  pub_r :: pubQReader
  pub_w :: pubMWriter
  pub_st :: store

definition new_pub_pools :: "store \<Rightarrow> pub_pools" where
  "new_pub_pools st = \<lparr>pub_r = newPubQReader, pub_w = newPubMWriter, pub_st = st\<rparr>"

definition pub_ops :: "pub_pools pool_ops" where
  "pub_ops =
     \<lparr>op_addR = (\<lambda>c p. Some (p\<lparr>pub_r := pubQReader_addConn c (pub_r p)\<rparr>)),
      op_addW = (\<lambda>c p. map_option (\<lambda>w. p\<lparr>pub_w := w\<rparr>) (pubMWriter_addConn c (pub_w p))),
      op_rmR = (\<lambda>c p. Some (p\<lparr>pub_r := pubQReader_rmConn c (pub_r p)\<rparr>)),
      op_rmW = (\<lambda>c p. map_option (\<lambda>(w, st). p\<lparr>pub_w := w, pub_st := st\<rparr>)
                        (pubMWriter_rmConn c (pub_w p, pub_st p))),
      get_store = pub_st, put_store = (\<lambda>st p. p\<lparr>pub_st := st\<rparr>)\<rparr>"

definition NewPub ::
    "gocontext option \<Rightarrow> ((pub_pools, 't) socket \<Rightarrow> (pub_pools, 't) socket) list \<Rightarrow> store
       \<Rightarrow> (pub_pools, 't) socket" where
  "NewPub c opts st = newSocket c Pub opts (new_pub_pools st)"

definition NewXPub ::
    "gocontext option \<Rightarrow> ((pub_pools, 't) socket \<Rightarrow> (pub_pools, 't) socket) list \<Rightarrow> store
       \<Rightarrow> (pub_pools, 't) socket" where
  "NewXPub c opts st = newSocket c XPub opts (new_pub_pools st)"

definition pub_Recv :: "msg \<times> go_error option" where
  "pub_Recv =
     (let m = empty_msg\<lparr>msg_err := Some (Errorf ''quicmq: PUB sockets can't recv messages'' [])\<rparr> in
      (m, msg_err m))"

definition pub_Send ::
    "(nat \<Rightarrow> nat \<times> ctx) \<Rightarrow> msg \<Rightarrow> (pub_pools, 't, 'm) socket_scheme
       \<Rightarrow> (go_error option \<times> (pub_pools, 't, 'm) socket_scheme) option" where
  "pub_Send env m s =
     (case pubMWriter_write (\<lambda>i. (fst (env i), child_ctx (snd (env i)) s)) m (pub_w (pools s)) (pub_st (pools s)) of
        None \<Rightarrow> None
      | Some (e, w) \<Rightarrow> Some (e, s\<lparr>pools := (pools s)\<lparr>pub_w := w\<rparr>\<rparr>))"

definition xpub_Recv ::
    "nat \<Rightarrow> (pub_pools, 't, 'm) socket_scheme
       \<Rightarrow> ((msg \<times> go_error option) \<times> (pub_pools, 't, 'm) socket_scheme) blocking" where
  "xpub_Recv pick s =
     (case pubQReader_read pick (child_ctx None s) empty_msg (pub_r (pools s)) of
        Returns (e, m, q) \<Rightarrow> Returns ((m, e), s\<lparr>pools := (pools s)\<lparr>pub_r := q\<rparr>\<rparr>)
      | Waits \<Rightarrow> Waits
      | Panics \<Rightarrow> Panics)"

definition pub_SetOption ::
    "string \<Rightarrow> go_any \<Rightarrow> (pub_pools, 't, 'm) socket_scheme
       \<Rightarrow> go_error option \<times> (pub_pools, 't, 'm) socket_scheme" where
  "pub_SetOption name v s =
     (case socket_SetOption name v s of
        (Some e, s1) \<Rightarrow> (Some e, s1)
      | (None, s1) \<Rightarrow>
          if name \<noteq> OptionHWM then (Some ErrBadProperty, s1)
          else (case v of
                  AnyInt n \<Rightarrow> (None, s1\<lparr>pools := (pools s1)\<lparr>pub_w := (pub_w (pools s1))\<lparr>hwm := n\<rparr>\<rparr>\<rparr>)
                | _ \<Rightarrow> (Some ErrBadProperty, s1)))"

definition pub_Topics :: "(pub_pools, 't, 'm) socket_scheme \<Rightarrow> string list" where
  "pub_Topics s = socket_topics pub_ops s"

definition xpub_Topics :: "(pub_pools, 't, 'm) socket_scheme \<Rightarrow> string list" where
  "xpub_Topics s = socket_topics pub_ops s"
section \<open>The subscribing sockets\<close>

record 't sub_socket = "(base_pools, 't) socket" +
  subs :: strset

text \<open>\<^verbatim>\<open>Topics\<close>: the set's elements, in order.\<close>

fun sub_Topics_loop :: "strset \<Rightarrow> string list \<Rightarrow> string list" where
  "sub_Topics_loop [] ts = ts"
| "sub_Topics_loop (topic # rest) ts = sub_Topics_loop rest (ts @ [topic])"

definition sub_Topics :: "'t sub_socket \<Rightarrow> string list" where
  "sub_Topics s = sort (sub_Topics_loop (subs s) [])"

definition sub_subscribe :: "string \<Rightarrow> int \<Rightarrow> 't sub_socket \<Rightarrow> 't sub_socket" where
  "sub_subscribe topic v s =
     (if v = 0 then s\<lparr>subs := strset_del topic (subs s)\<rparr>
      else if v = 1 then s\<lparr>subs := strset_put topic (subs s)\<rparr>
      else s)"

text \<open>The callback that \<^verbatim>\<open>NewSub\<close> installs: the subscriptions are sent to a new connection.\<close>

fun resend_loop :: "string list \<Rightarrow> conn_id \<Rightarrow> store \<Rightarrow> store" where
  "resend_loop [] c st = st"
| "resend_loop (topic # rest) c st =
     resend_loop rest c (snd (st_SendMsg (NewMsg ([1] @ bytes_of_string topic)) c st))"

definition sub_onConnAdded :: "conn_id \<Rightarrow> 't sub_socket \<Rightarrow> 't sub_socket" where
  "sub_onConnAdded c s =
     s\<lparr>pools := (pools s)\<lparr>bst := resend_loop (sub_Topics s) c (bst (pools s))\<rparr>\<rparr>"

definition NewSub ::
    "gocontext option \<Rightarrow> ((base_pools, 't) socket \<Rightarrow> (base_pools, 't) socket) list \<Rightarrow> store \<Rightarrow> 't sub_socket" where
  "NewSub c opts st =
     (let s = newSocket c Sub opts (new_base_pools st);
          s1 = s\<lparr>pools := (pools s)\<lparr>bq := newQReader\<rparr>\<rparr> in
      socket.extend s1 (sub_socket.fields []))"

definition NewXSub ::
    "gocontext option \<Rightarrow> ((base_pools, 't) socket \<Rightarrow> (base_pools, 't) socket) list \<Rightarrow> store
       \<Rightarrow> (base_pools, 't) socket" where
  "NewXSub c opts st = newSocket c XSub opts (new_base_pools st)"

text \<open>\<^verbatim>\<open>value.(string)\<close> panics for a value of another type.\<close>

definition sub_SetOption ::
    "ctx \<Rightarrow> string \<Rightarrow> go_any \<Rightarrow> 't sub_socket \<Rightarrow> (go_error option \<times> 't sub_socket) blocking" where
  "sub_SetOption deadline name v s =
     (case socket_SetOption name v s of
        (Some e, s1) \<Rightarrow> Returns (Some e, s1)
      | (None, s1) \<Rightarrow>
          (case (if name = OptionSubscribe then Some (1 :: int, 1 :: byte)
                 else if name = OptionUnsubscribe then Some (0, 0) else None) of
             None \<Rightarrow> Returns (Some ErrBadProperty, s1)
           | Some (n, cmd) \<Rightarrow>
               (case v of
                  AnyString k \<Rightarrow>
                    (let s2 = sub_subscribe k n s1; topic = [cmd] @ bytes_of_string k in
                     if length (conns s2) > 0 then socket_Send deadline (NewMsg topic) s2
                     else Returns (None, s2))
                | _ \<Rightarrow> Panics)))"

section \<open>Lemmas on the publisher's reader\<close>

lemma isTopic_iff: "isTopic m \<longleftrightarrow> (\<exists>b t. Frames m = [b # t] \<and> (b = 0 \<or> b = 1))"
proof (cases "Frames m")
  case Nil
  then show ?thesis by (simp add: isTopic_def)
next
  case (Cons f fs)
  then show ?thesis by (cases f; cases fs) (auto simp: isTopic_def Let_def)
qed

lemma subscribe_topic:
  "Frames m = [b # t] \<Longrightarrow> subscribe m c =
     Some (if b = 0 then c\<lparr>topics := strset_del (string_of_bytes t) (topics c)\<rparr>
           else if b = 1 then c\<lparr>topics := strset_put (string_of_bytes t) (topics c)\<rparr> else c)"
  by (simp add: subscribe_def Let_def)

text \<open>A command never makes the reader panic, and never reaches its queue.\<close>

lemma pubQReader_listen_cases:
  assumes "pubQReader_listen c r (q, st) = res"
  shows "res \<noteq> Panics \<and>
    (\<forall>q' st'. res = Returns (q', st') \<longrightarrow> buf (pq_c q') = buf (pq_c q) \<or>
       (\<exists>m. \<not> isTopic m \<and> msg_err m = None \<and> buf (pq_c q') = buf (pq_c q) @ [m]))"
proof -
  obtain m st1 where m: "st_read r st = (m, st1)" by (metis surj_pair)
  show ?thesis
  proof (cases "c \<noteq> None \<or> msg_err m \<noteq> None")
    case True
    with m have "pubQReader_listen c r (q, st) = Returns (pubQReader_leave r (q, st1))"
      by (cases "c = None") (simp_all add: pubQReader_listen_def)
    with assms show ?thesis
      by (auto simp: pubQReader_leave_def pubQReader_rmConn_def split: prod.splits)
  next
    case False
    show ?thesis
    proof (cases "isTopic m")
      case True
      then obtain b t where "Frames m = [b # t]" by (auto simp: isTopic_iff)
      with assms m False True subscribe_topic [OF this] show ?thesis
        by (auto simp: pubQReader_listen_def)
    next
      case data: False
      with assms m False show ?thesis
        by (auto simp: pubQReader_listen_def dest!: chan_send_buf split: send_result.splits)
    qed
  qed
qed

section \<open>Lemmas on the publisher's writer\<close>

text \<open>
  Well-formed: the subscribers are distinct, each has an open channel of its own, a channel
  never holds more than its capacity (one message handed over, if that is 0), and each channel
  has at most one goroutine.
\<close>

definition queue_limit :: "msg chan \<Rightarrow> nat" where
  "queue_limit ch = max 1 (cap ch)"

definition pub_wf :: "pubMWriter \<Rightarrow> bool" where
  "pub_wf w =
     (distinct (map fst (sub_list w)) \<and> distinct (map snd (sub_list w)) \<and>
      (\<forall>(c, a) \<in> set (sub_list w). a < length (chans w) \<and> \<not> chan_closed (chans w ! a)) \<and>
      (\<forall>a < length (chans w). length (buf (chans w ! a)) \<le> queue_limit (chans w ! a)) \<and>
      (\<forall>d \<in> set (drainers w). dr_chan d < length (chans w)) \<and> distinct (map dr_chan (drainers w)))"

lemma sub_send_open: "\<not> chan_closed ch \<Longrightarrow> sub_send m a ds ch \<noteq> SendPanics"
  by (simp add: sub_send_def chan_send_def)

lemma sub_send_Sent:
  "sub_send m a ds ch = Sent ch' \<Longrightarrow>
     buf ch' = buf ch @ [m] \<and> cap ch' = cap ch \<and> chan_closed ch' = chan_closed ch \<and>
     length (buf ch') \<le> queue_limit ch"
  by (auto simp: sub_send_def chan_send_def queue_limit_def split: if_splits)

lemma pub_write_loop_other:
  "pub_write_loop m t env ds st i sl cs = Some (e, cs') \<Longrightarrow>
     length cs' = length cs \<and> (\<forall>a. a \<notin> snd ` set sl \<longrightarrow> cs' ! a = cs ! a)"
proof (induction m t env ds st i sl cs rule: pub_write_loop.induct)
  case (2 m topic env ds st i c a rest cs)
  then show ?case
    by (auto split: if_splits blocking.splits sum.splits)
qed simp

text \<open>The \<^verbatim>\<open>select\<close> of one subscriber.\<close>

abbreviation sub_select :: "nat \<times> ctx \<Rightarrow> msg send_result \<Rightarrow> (go_error + msg chan) blocking" where
  "sub_select ev r \<equiv> go_select (fst ev) [case_done (snd ev) Inl,
     (case r of Sent ch \<Rightarrow> Returns (Inr ch) | SendBlocks \<Rightarrow> Waits | SendPanics \<Rightarrow> Panics)]"

lemma sub_select_cases:
  assumes "r \<noteq> SendPanics"
  obtains (blocked) "sub_select ev r = Waits" "r = SendBlocks" "snd ev = None"
    | (done1) e where "sub_select ev r = Returns (Inl e)" "snd ev = Some e"
    | (sent) ch where "sub_select ev r = Returns (Inr ch)" "r = Sent ch"
proof (cases r)
  case (Sent ch)
  then show ?thesis using done1 sent
    by (cases "snd ev"; cases "fst ev mod 2 = 0") (auto simp: go_select_def Let_def numeral_2_eq_2 [symmetric])
next
  case SendBlocks
  then show ?thesis using done1 blocked by (cases "snd ev") auto
qed (use assms in simp)

lemma pub_write_loop_spec:
  "distinct (map snd sl) \<Longrightarrow> \<forall>(c, a) \<in> set sl. a < length cs \<and> \<not> chan_closed (cs ! a) \<Longrightarrow>
     \<exists>e cs'. pub_write_loop m t env ds st i sl cs = Some (e, cs') \<and>
       (\<forall>(c, a) \<in> set sl. cs' ! a = cs ! a \<or>
          subscribed (cells st c) t \<and> sub_send m a ds (cs ! a) = Sent (cs' ! a)) \<and>
       ((\<forall>j. snd (env j) = None) \<longrightarrow> e = None \<and>
          (\<forall>(c, a) \<in> set sl. cs' ! a =
             (if subscribed (cells st c) t
              then case sub_send m a ds (cs ! a) of Sent ch \<Rightarrow> ch | _ \<Rightarrow> cs ! a else cs ! a)))"
proof (induction sl arbitrary: i cs)
  case Nil
  then show ?case by simp
next
  case (Cons ca rest)
  obtain c a where ca: "ca = (c, a)" by (cases ca)
  have fresh: "a \<notin> snd ` set rest" "a < length cs" "\<not> chan_closed (cs ! a)"
    using Cons.prems ca by auto
  have rest: "\<forall>(d, b) \<in> set rest. b < length cs \<and> \<not> chan_closed (cs ! b)" "distinct (map snd rest)"
    using Cons.prems ca by auto
  from Cons.IH [OF rest(2,1), of "Suc i"] obtain e cs' where
    same: "pub_write_loop m t env ds st (Suc i) rest cs = Some (e, cs')"
      "\<forall>(c, a) \<in> set rest. cs' ! a = cs ! a \<or>
          subscribed (cells st c) t \<and> sub_send m a ds (cs ! a) = Sent (cs' ! a)"
      "(\<forall>j. snd (env j) = None) \<longrightarrow> e = None \<and>
          (\<forall>(c, a) \<in> set rest. cs' ! a =
             (if subscribed (cells st c) t
              then case sub_send m a ds (cs ! a) of Sent ch \<Rightarrow> ch | _ \<Rightarrow> cs ! a else cs ! a))"
    by blast
  have keep: "cs' ! a = cs ! a" using pub_write_loop_other [OF same(1)] fresh(1) by blast
  show ?case
  proof (cases "subscribed (cells st c) t")
    case False
    with same keep ca show ?thesis by auto
  next
    case True
    show ?thesis
    proof (cases rule: sub_select_cases [OF sub_send_open [OF fresh(3)],
          where ev = "env i" and m1 = m and a1 = a and ds1 = ds,
          case_names blocked done1 sent])
      case blocked
      with True same keep ca show ?thesis by auto
    next
      case (done1 e1)
      with True ca show ?thesis by (intro exI [of _ "Some e1"] exI [of _ cs]) auto
    next
      case (sent ch)
      have upd: "cs[a := ch] ! snd x = cs ! snd x" if "x \<in> set rest" for x
        using that fresh(1) by (cases "a = snd x") auto
      have rest2: "\<forall>(d, b) \<in> set rest. b < length (cs[a := ch]) \<and> \<not> chan_closed (cs[a := ch] ! b)"
        using rest(1) by (simp add: split_beta upd cong: ball_cong)
      from Cons.IH [OF rest(2) rest2, of "Suc i"] obtain e2 cs2 where
        loop: "pub_write_loop m t env ds st (Suc i) rest (cs[a := ch]) = Some (e2, cs2)"
          "\<forall>(c, b) \<in> set rest. cs2 ! b = cs[a := ch] ! b \<or>
              subscribed (cells st c) t \<and> sub_send m b ds (cs[a := ch] ! b) = Sent (cs2 ! b)"
          "(\<forall>j. snd (env j) = None) \<longrightarrow> e2 = None \<and>
              (\<forall>(c, b) \<in> set rest. cs2 ! b =
                 (if subscribed (cells st c) t
                  then case sub_send m b ds (cs[a := ch] ! b) of Sent ch \<Rightarrow> ch | _ \<Rightarrow> cs[a := ch] ! b
                  else cs[a := ch] ! b))"
        by blast
      have "cs2 ! a = ch" using pub_write_loop_other [OF loop(1)] fresh(1,2) by simp
      moreover have "pub_write_loop m t env ds st i (ca # rest) cs = Some (e2, cs2)"
        using True sent(1) loop(1) ca by simp
      moreover have "\<forall>(c, b) \<in> set rest. cs2 ! b = cs ! b \<or>
          subscribed (cells st c) t \<and> sub_send m b ds (cs ! b) = Sent (cs2 ! b)"
        using loop(2) by (simp add: split_beta upd cong: ball_cong)
      moreover have "(\<forall>j. snd (env j) = None) \<longrightarrow> e2 = None \<and>
          (\<forall>(c, b) \<in> set rest. cs2 ! b =
             (if subscribed (cells st c) t
              then case sub_send m b ds (cs ! b) of Sent ch \<Rightarrow> ch | _ \<Rightarrow> cs ! b else cs ! b))"
        using loop(3) by (simp add: split_beta upd cong: ball_cong send_result.case_cong)
      ultimately show ?thesis using True sent(2) ca by auto
    qed
  qed
qed

section \<open>The publisher as a transition system\<close>

text \<open>
  Messages are published; subscribers come and go; the goroutines take messages from their
  queues and send them; the high-water mark is changed; the network and the subscription
  commands may do anything to the connections. Channels are named by their place in the heap.
\<close>

datatype pub_event = Published msg "nat list" | Written nat conn_id msg

record pub_sys =
  pw :: pubMWriter
  pst :: store
  plog :: "pub_event list"

definition pub_init :: "store \<Rightarrow> pub_sys" where
  "pub_init st = \<lparr>pw = newPubMWriter, pst = st, plog = []\<rparr>"

text \<open>The channels that a write has put something into.\<close>

definition grown :: "pubMWriter \<Rightarrow> pubMWriter \<Rightarrow> nat list" where
  "grown w w' = filter (\<lambda>a. length (buf (chans w' ! a)) \<noteq> length (buf (chans w ! a))) [0..<length (chans w)]"

inductive pub_step :: "pub_sys \<Rightarrow> pub_sys \<Rightarrow> bool" where
  published: "pubMWriter_write env m (pw s) (pst s) = Some (e, w) \<Longrightarrow>
     pub_step s (s\<lparr>pw := w, plog := plog s @ [Published m (grown (pw s) w)]\<rparr>)"
| joined: "pubMWriter_addConn c (pw s) = Some w \<Longrightarrow> c \<notin> fst ` set (sub_list (pw s)) \<Longrightarrow>
     pub_step s (s\<lparr>pw := w\<rparr>)"
| left: "pubMWriter_rmConn c (pw s, pst s) = Some (w, st) \<Longrightarrow> pub_step s (s\<lparr>pw := w, pst := st\<rparr>)"
| hwm_set: "pub_step s (s\<lparr>pw := (pw s)\<lparr>hwm := n\<rparr>\<rparr>)"
| received: "j < length (drainers (pw s)) \<Longrightarrow> drain_recv j (pw s) = Returns w \<Longrightarrow>
     pub_step s (s\<lparr>pw := w\<rparr>)"
| written: "j < length (drainers (pw s)) \<Longrightarrow> drain_send j (pw s, pst s) = Returns (w, st) \<Longrightarrow>
     dr_msg (drainers (pw s) ! j) = Some m \<Longrightarrow>
     pub_step s (s\<lparr>pw := w, pst := st,
       plog := plog s @ [Written (dr_chan (drainers (pw s) ! j)) (dr_conn (drainers (pw s) ! j)) m]\<rparr>)"
| anything: "pub_step s (s\<lparr>pst := st\<rparr>)"

inductive pub_reach :: "pub_sys \<Rightarrow> bool" where
  pub_start: "pub_reach (pub_init st)"
| pub_next: "pub_reach s \<Longrightarrow> pub_step s t \<Longrightarrow> pub_reach t"

text \<open>What was published, what was queued on a channel, and what was written from it.\<close>

definition published_msgs :: "pub_event list \<Rightarrow> msg list" where
  "published_msgs = List.map_filter (\<lambda>e. case e of Published m _ \<Rightarrow> Some m | _ \<Rightarrow> None)"

definition queued_on :: "nat \<Rightarrow> pub_event list \<Rightarrow> msg list" where
  "queued_on a = List.map_filter
     (\<lambda>e. case e of Published m qs \<Rightarrow> (if a \<in> set qs then Some m else None) | _ \<Rightarrow> None)"

definition written_from :: "nat \<Rightarrow> pub_event list \<Rightarrow> msg list" where
  "written_from a = List.map_filter
     (\<lambda>e. case e of Written b _ m \<Rightarrow> (if a = b then Some m else None) | _ \<Rightarrow> None)"

lemma map_filter_append [simp]:
  "List.map_filter f (xs @ ys) = List.map_filter f xs @ List.map_filter f ys"
  by (simp add: List.map_filter_def)

lemma log_filters [simp]:
  "published_msgs [] = []" "queued_on a [] = []" "written_from a [] = []"
  "published_msgs (h @ h') = published_msgs h @ published_msgs h'"
  "queued_on a (h @ h') = queued_on a h @ queued_on a h'"
  "written_from a (h @ h') = written_from a h @ written_from a h'"
  "published_msgs [Published m qs] = [m]" "published_msgs [Written b c m] = []"
  "queued_on a [Published m qs] = (if a \<in> set qs then [m] else [])" "queued_on a [Written b c m] = []"
  "written_from a [Published m qs] = []" "written_from a [Written b c m] = (if a = b then [m] else [])"
  by (simp_all add: published_msgs_def queued_on_def written_from_def List.map_filter_def)

text \<open>The message a channel's goroutine holds.\<close>

definition held :: "nat \<Rightarrow> drainer list \<Rightarrow> msg list" where
  "held a ds = List.map_filter (\<lambda>d. if dr_chan d = a then dr_msg d else None) ds"

definition pub_inv :: "pub_sys \<Rightarrow> bool" where
  "pub_inv s =
     (pub_wf (pw s) \<and>
      (\<forall>a < length (chans (pw s)).
         queued_on a (plog s) = written_from a (plog s) @ held a (drainers (pw s)) @ buf (chans (pw s) ! a)) \<and>
      (\<forall>a. length (chans (pw s)) \<le> a \<longrightarrow> queued_on a (plog s) = [] \<and> written_from a (plog s) = []) \<and>
      (\<forall>a. subseq (queued_on a (plog s)) (published_msgs (plog s))))"

lemma held_other: "a \<notin> dr_chan ` set ds \<Longrightarrow> held a ds = []"
  by (induction ds) (auto simp: held_def List.map_filter_def)

lemma held_append [simp]: "held a (ds @ ds') = held a ds @ held a ds'"
  by (simp add: held_def)

lemma held_Cons:
  "held a (d # ds) = (if dr_chan d = a then (case dr_msg d of None \<Rightarrow> [] | Some m \<Rightarrow> [m]) else []) @ held a ds"
  by (simp add: held_def List.map_filter_def split: option.splits)

text \<open>The list around one goroutine, whose channel is its own.\<close>

lemma held_split:
  assumes "j < length ds" and "distinct (map dr_chan ds)"
  shows "held a ds = (if dr_chan (ds ! j) = a then (case dr_msg (ds ! j) of None \<Rightarrow> [] | Some m \<Rightarrow> [m])
                      else held a (take j ds @ drop (Suc j) ds))"
    and "dr_chan d = dr_chan (ds ! j) \<Longrightarrow>
      held a (ds[j := d]) = (if dr_chan d = a then (case dr_msg d of None \<Rightarrow> [] | Some m \<Rightarrow> [m]) else held a ds)"
    and "dr_chan (ds ! j) = a \<Longrightarrow> held a (take j ds @ drop (Suc j) ds) = []"
proof -
  have ds: "ds = take j ds @ ds ! j # drop (Suc j) ds" using assms(1) by (simp add: id_take_nth_drop)
  have "distinct (map dr_chan (take j ds @ ds ! j # drop (Suc j) ds))"
    using assms(2) ds by simp
  then have no: "dr_chan (ds ! j) \<notin> dr_chan ` set (take j ds)" "dr_chan (ds ! j) \<notin> dr_chan ` set (drop (Suc j) ds)"
    by auto
  have h: "held a ds = held a (take j ds) @
      (if dr_chan (ds ! j) = a then (case dr_msg (ds ! j) of None \<Rightarrow> [] | Some m \<Rightarrow> [m]) else []) @
      held a (drop (Suc j) ds)"
    by (subst ds) (simp add: held_Cons)
  show "dr_chan (ds ! j) = a \<Longrightarrow> held a (take j ds @ drop (Suc j) ds) = []"
    using no by (auto simp: held_other)
  then show "held a ds = (if dr_chan (ds ! j) = a then (case dr_msg (ds ! j) of None \<Rightarrow> [] | Some m \<Rightarrow> [m])
                      else held a (take j ds @ drop (Suc j) ds))"
    using h by auto
  assume "dr_chan d = dr_chan (ds ! j)"
  moreover have "ds[j := d] = take j ds @ d # drop (Suc j) ds"
    using assms(1) by (simp add: upd_conv_take_nth_drop)
  ultimately show "held a (ds[j := d]) =
      (if dr_chan d = a then (case dr_msg d of None \<Rightarrow> [] | Some m \<Rightarrow> [m]) else held a ds)"
    using h no by (auto simp: held_Cons held_other)
qed

section \<open>Each operation of the writer\<close>

lemma pubMWriter_write_effect:
  assumes "pub_wf w" and "pubMWriter_write env m w st = Some (e, w')"
  shows "sub_list w' = sub_list w \<and> drainers w' = drainers w \<and> length (chans w') = length (chans w) \<and>
    (\<forall>a < length (chans w). chans w' ! a = chans w ! a \<or>
       sub_send m a (drainers w) (chans w ! a) = Sent (chans w' ! a)) \<and>
    (\<forall>a < length (chans w). buf (chans w' ! a) = buf (chans w ! a) @ (if a \<in> set (grown w w') then [m] else []))
    \<and> pub_wf w'"
proof -
  from assms(1) have d: "distinct (map snd (sub_list w))"
      "\<forall>(c, a) \<in> set (sub_list w). a < length (chans w) \<and> \<not> chan_closed (chans w ! a)"
    by (auto simp: pub_wf_def)
  from assms(2) obtain cs where l: "pub_write_loop m (msg_topic m) env (drainers w) st 0 (sub_list w) (chans w) = Some (e, cs)"
      and w': "w' = w\<lparr>chans := cs\<rparr>"
    by (auto simp: pubMWriter_write_def split: option.splits)
  note other = pub_write_loop_other [OF l]
  have eff: "cs ! a = chans w ! a \<or> sub_send m a (drainers w) (chans w ! a) = Sent (cs ! a)" for a
  proof (cases "a \<in> snd ` set (sub_list w)")
    case True
    with pub_write_loop_spec [OF d, of m "msg_topic m" env "drainers w" st 0] l show ?thesis by fastforce
  next
    case False
    with other show ?thesis by blast
  qed
  have sent: "sub_send m a (drainers w) (chans w ! a) = Sent (cs ! a) \<Longrightarrow>
      buf (cs ! a) = buf (chans w ! a) @ [m] \<and> cap (cs ! a) = cap (chans w ! a) \<and>
      chan_closed (cs ! a) = chan_closed (chans w ! a) \<and> length (buf (cs ! a)) \<le> queue_limit (chans w ! a)" for a
    by (rule sub_send_Sent)
  have grow: "buf (cs ! a) = buf (chans w ! a) @ (if a \<in> set (grown w w') then [m] else [])"
    if "a < length (chans w)" for a
    using eff [of a] sent [of a] that by (auto simp: grown_def w')
  have same: "chan_closed (cs ! a) = chan_closed (chans w ! a)" for a
    using eff [of a] sent [of a] by auto
  have lim: "length (buf (cs ! a)) \<le> queue_limit (cs ! a)" if "a < length (chans w)" for a
  proof -
    have "length (buf (chans w ! a)) \<le> queue_limit (chans w ! a)" using assms(1) that by (simp add: pub_wf_def)
    then show ?thesis using eff [of a] sent [of a] by (auto simp: queue_limit_def)
  qed
  have "sub_list w' = sub_list w" by (simp add: sub_list_def w')
  with assms(1) other same lim have "pub_wf w'"
    by (auto simp: pub_wf_def w')
  with other eff grow w' \<open>sub_list w' = sub_list w\<close> show ?thesis by simp
qed

lemma pubMWriter_addConn_effect:
  assumes "pub_wf w" and "pubMWriter_addConn c w = Some w'" and "c \<notin> fst ` set (sub_list w)"
  shows "pub_wf w' \<and> sub_list w' = sub_list w @ [(c, length (chans w))] \<and>
    chans w' = chans w @ [make_chan (nat (hwm w))] \<and>
    drainers w' = drainers w @ [\<lparr>dr_chan = length (chans w), dr_conn = c, dr_msg = None\<rparr>]"
proof -
  from assms(2) obtain sl where sl: "subscribers w = Some sl"
      and w': "w' = w\<lparr>chans := chans w @ [make_chan (nat (hwm w))],
                subscribers := Some (AList.update c (length (chans w)) sl),
                drainers := drainers w @ [\<lparr>dr_chan = length (chans w), dr_conn = c, dr_msg = None\<rparr>]\<rparr>"
    by (auto simp: pubMWriter_addConn_def Let_def split: if_splits option.splits)
  have "c \<notin> fst ` set sl" using assms(3) sl by (simp add: sub_list_def)
  then have upd: "AList.update c v sl = sl @ [(c, v)]" for v
    by (induction sl) auto
  have list: "sub_list w' = sub_list w @ [(c, length (chans w))]"
    using sl by (simp add: sub_list_def w' upd)
  have "pub_wf w'"
    unfolding pub_wf_def list
    using assms(1,3) by (fastforce simp: pub_wf_def w' nth_append make_chan_def less_Suc_eq)
  with list show ?thesis by (simp add: w')
qed

lemma pubMWriter_rmConn_effect:
  assumes "pub_wf w"
  shows "\<exists>w' st'. pubMWriter_rmConn c (w, st) = Some (w', st') \<and> pub_wf w' \<and>
    sub_list w' = AList.delete c (sub_list w) \<and> drainers w' = drainers w \<and>
    length (chans w') = length (chans w) \<and> (\<forall>a. buf (chans w' ! a) = buf (chans w ! a))"
proof (cases "map_of (sub_list w) c")
  case None
  then have "AList.delete c (sub_list w) = sub_list w"
    by (metis AList.delete_id map_of_eq_None_iff)
  with None assms show ?thesis by (simp add: pubMWriter_rmConn_def)
next
  case (Some a)
  then have mem: "(c, a) \<in> set (sub_list w)" by (rule map_of_SomeD)
  with assms have a: "a < length (chans w)" "\<not> chan_closed (chans w ! a)" by (auto simp: pub_wf_def)
  obtain sl where sl: "subscribers w = Some sl"
    using mem by (cases "subscribers w") (auto simp: sub_list_def)
  obtain e st1 where st1: "st_Close c st = (e, st1)" by (metis surj_pair)
  let ?w' = "w\<lparr>subscribers := Some (AList.delete c sl), chans := (chans w)[a := chan_close (chans w ! a)]\<rparr>"
  have run: "pubMWriter_rmConn c (w, st) = Some (?w', st1)"
    using Some st1 sl a by (simp add: pubMWriter_rmConn_def close_at_def Let_def)
  have list: "sub_list ?w' = AList.delete c (sub_list w)" by (simp add: sub_list_def sl)
  have other: "b \<noteq> a" if "(d, b) \<in> set (AList.delete c (sub_list w))" for d b
  proof
    assume "b = a"
    from that have "(d, b) \<in> set (sub_list w)" "d \<noteq> c" by (auto simp: AList.delete_eq)
    moreover have "distinct (map snd (sub_list w))" using assms by (simp add: pub_wf_def)
    ultimately show False using mem \<open>b = a\<close>
      by (metis eq_key_imp_eq_value fst_conv inj_onD distinct_map snd_conv)
  qed
  have upd: "(chans w)[a := x] ! b = (if b = a then x else chans w ! b)" for x b
    using a(1) by simp
  have "pub_wf ?w'"
    unfolding pub_wf_def list
    using assms other
    by (auto simp: pub_wf_def AList.delete_eq distinct_map_filter upd chan_close_def queue_limit_def
        split: if_splits)
  moreover have "buf (chans ?w' ! b) = buf (chans w ! b)" for b
    using a(1) by (cases "b = a") (simp_all add: chan_close_def)
  ultimately show ?thesis using run list by simp
qed

lemma drain_recv_effect:
  assumes "pub_wf w" and "j < length (drainers w)" and "drain_recv j w = Returns w'"
  shows "pub_wf w' \<and> length (chans w') = length (chans w) \<and>
    (\<forall>a < length (chans w). held a (drainers w') @ buf (chans w' ! a) = held a (drainers w) @ buf (chans w ! a))"
proof -
  let ?d = "drainers w ! j"
  let ?c = "dr_chan ?d"
  have dd: "distinct (map dr_chan (drainers w))" using assms(1) by (simp add: pub_wf_def)
  have none: "dr_msg ?d = None" using assms(3) by (auto simp: drain_recv_def Let_def split: if_splits)
  have c: "?c < length (chans w)" using assms(1,2) by (auto simp: pub_wf_def)
  have upd: "(chans w)[?c := x] ! b = (if b = ?c then x else chans w ! b)" for x b using c by simp
  show ?thesis
  proof (cases "chan_recv (chans w ! ?c)")
    case (Received m ch)
    let ?d' = "?d\<lparr>dr_msg := Some m\<rparr>"
    from assms(3) Received none have w': "w' = w\<lparr>chans := (chans w)[?c := ch], drainers := (drainers w)[j := ?d']\<rparr>"
      by (simp add: drain_recv_def Let_def)
    have ch: "buf (chans w ! ?c) = m # buf ch" "cap ch = cap (chans w ! ?c)"
        "chan_closed ch = chan_closed (chans w ! ?c)"
      using Received by (auto simp: chan_recv_def split: list.splits if_splits)
    have dm: "map dr_chan ((drainers w)[j := ?d']) = map dr_chan (drainers w)"
      using assms(2) by (simp add: map_update list_update_same_conv)
    have ds: "dr_chan ` set ((drainers w)[j := ?d']) = dr_chan ` set (drainers w)"
      using arg_cong [OF dm, of set] by simp
    have "pub_wf w'"
    proof -
      have "length (buf (chans w ! ?c)) \<le> queue_limit (chans w ! ?c)"
        using assms(1) c by (simp add: pub_wf_def)
      then have "length (buf ch) \<le> queue_limit ch" using ch by (simp add: queue_limit_def)
      moreover have "\<forall>d \<in> set ((drainers w)[j := ?d']). dr_chan d < length (chans w)"
        using ds assms(1) by (metis (no_types, lifting) image_iff pub_wf_def)
      ultimately show ?thesis
        using assms(1) dm ch(3) unfolding pub_wf_def w'
        by (auto simp: sub_list_def upd)
    qed
    moreover have "held a ((drainers w)[j := ?d']) @ buf ((chans w)[?c := ch] ! a)
        = held a (drainers w) @ buf (chans w ! a)" for a
      using held_split(2) [OF assms(2) dd, of ?d' a] held_split(1) [OF assms(2) dd, of a]
        held_split(3) [OF assms(2) dd, of a] none ch(1)
      by (auto simp: upd)
    ultimately show ?thesis by (simp add: w')
  next
    case ChanClosed
    let ?ds = "take j (drainers w) @ drop (Suc j) (drainers w)"
    from assms(3) ChanClosed none have w': "w' = w\<lparr>drainers := ?ds\<rparr>"
      by (simp add: drain_recv_def Let_def)
    have "set ?ds \<subseteq> set (drainers w)" using set_take_subset set_drop_subset by fastforce
    moreover have "distinct (map dr_chan ?ds)"
      using dd by (subst (asm) id_take_nth_drop [OF assms(2)]) auto
    ultimately have "pub_wf w'" using assms(1) by (auto simp: pub_wf_def w' sub_list_def)
    moreover have "held a ?ds = held a (drainers w)" for a
      using held_split(1) [OF assms(2) dd, of a] held_split(3) [OF assms(2) dd, of a] none by auto
    ultimately show ?thesis by (simp add: w')
  next
    case RecvBlocks
    with assms(3) none show ?thesis by (simp add: drain_recv_def Let_def)
  qed
qed

lemma drain_send_effect:
  assumes "pub_wf w" and "j < length (drainers w)" and "drain_send j (w, st) = Returns (w', st')"
    and "dr_msg (drainers w ! j) = Some m"
  shows "pub_wf w' \<and> chans w' = chans w \<and>
    held a (drainers w) = (if dr_chan (drainers w ! j) = a then [m] else []) @ held a (drainers w')"
proof -
  let ?d = "drainers w ! j"
  let ?d' = "?d\<lparr>dr_msg := None\<rparr>"
  have dd: "distinct (map dr_chan (drainers w))" using assms(1) by (simp add: pub_wf_def)
  from assms(3,4) have w': "w' = w\<lparr>drainers := (drainers w)[j := ?d']\<rparr>"
    by (auto simp: drain_send_def Let_def split: prod.splits)
  have dm: "map dr_chan ((drainers w)[j := ?d']) = map dr_chan (drainers w)"
    using assms(2) by (simp add: map_update list_update_same_conv)
  have "\<forall>d \<in> set ((drainers w)[j := ?d']). dr_chan d < length (chans w)"
    using arg_cong [OF dm, of set] assms(1) by (metis (no_types, lifting) image_iff list.set_map pub_wf_def)
  with assms(1) dm have "pub_wf w'" by (simp add: pub_wf_def w' sub_list_def)
  moreover have "held a (drainers w) = (if dr_chan ?d = a then [m] else []) @ held a ((drainers w)[j := ?d'])"
    using held_split(2) [OF assms(2) dd, of ?d' a] held_split(1) [OF assms(2) dd, of a] assms(4)
    by (auto split: if_splits)
  ultimately show ?thesis by (simp add: w')
qed

lemma pub_step_inv: "pub_step s t \<Longrightarrow> pub_inv s \<Longrightarrow> pub_inv t"
proof (induction rule: pub_step.induct)
  case (published env m s e w)
  from published.prems have wf: "pub_wf (pw s)" by (simp add: pub_inv_def)
  note eff = pubMWriter_write_effect [OF wf published.hyps]
  have none: "a \<notin> set (grown (pw s) w)" if "length (chans (pw s)) \<le> a" for a
    using that by (auto simp: grown_def)
  show ?case
    using published.prems eff none
    by (auto simp: pub_inv_def intro: list_emb_append_mono)
next
  case (joined c s w)
  from joined.prems have wf: "pub_wf (pw s)" by (simp add: pub_inv_def)
  note eff = pubMWriter_addConn_effect [OF wf joined.hyps]
  have "dr_chan d < length (chans (pw s))" if "d \<in> set (drainers (pw s))" for d
    using wf that by (simp add: pub_wf_def)
  then have "held (length (chans (pw s))) (drainers (pw s)) = []"
    by (intro held_other) (metis image_iff less_irrefl)
  with joined.prems eff show ?case
    by (auto simp: pub_inv_def nth_append less_Suc_eq make_chan_def held_Cons)
      (simp_all add: held_def List.map_filter_def)
next
  case (left c s w st)
  from left.prems have wf: "pub_wf (pw s)" by (simp add: pub_inv_def)
  from pubMWriter_rmConn_effect [OF wf, of c "pst s"] left.hyps left.prems show ?case
    by (auto simp: pub_inv_def)
next
  case (hwm_set s n)
  then show ?case by (simp add: pub_inv_def pub_wf_def sub_list_def)
next
  case (received j s w)
  from received.prems have wf: "pub_wf (pw s)" by (simp add: pub_inv_def)
  from drain_recv_effect [OF wf received.hyps] received.prems show ?case
    by (auto simp: pub_inv_def)
next
  case (written j s w st m)
  from written.prems have wf: "pub_wf (pw s)" by (simp add: pub_inv_def)
  have "dr_chan (drainers (pw s) ! j) < length (chans (pw s))"
    using wf written.hyps(1) by (auto simp: pub_wf_def)
  with drain_send_effect [OF wf written.hyps] written.prems show ?case
    by (auto simp: pub_inv_def)
next
  case (anything s st)
  then show ?case by (simp add: pub_inv_def)
qed

lemma pub_reach_inv: "pub_reach s \<Longrightarrow> pub_inv s"
proof (induction rule: pub_reach.induct)
  case (pub_start st)
  show ?case by (simp add: pub_inv_def pub_init_def newPubMWriter_def pub_wf_def sub_list_def)
next
  case (pub_next s t)
  then show ?case by (blast intro: pub_step_inv)
qed

section \<open>Lemmas on the subscriber\<close>

lemma sub_Topics_loop_append: "sub_Topics_loop ks ts = ts @ ks"
  by (induction ks arbitrary: ts) auto

lemma sub_Topics_sort: "sub_Topics s = sort (subs s)"
  by (simp add: sub_Topics_def sub_Topics_loop_append)

text \<open>The command message for a topic, and what it does to the topics of the publisher's end.\<close>

definition command :: "byte \<Rightarrow> string \<Rightarrow> msg" where
  "command b t = NewMsg ([b] @ bytes_of_string t)"

definition apply_command :: "byte \<Rightarrow> string \<Rightarrow> string set \<Rightarrow> string set" where
  "apply_command b t ts = (if b = 0 then ts - {t} else insert t ts)"

lemma Frames_command [simp]: "Frames (command b t) = [b # bytes_of_string t]"
  by (simp add: command_def NewMsg_def)

lemma encodable_command: "length t < 2 ^ 32 - 1 \<Longrightarrow> encodable (Frames (command b t))"
  by (simp add: encodable_def)

text \<open>Sending to a connection that takes everything.\<close>

definition takes_all :: "conn \<Rightarrow> bool" where
  "takes_all c = (\<not> Closed c \<and> healthy (wr (rw c)))"

lemma st_SendMsg_takes_all:
  assumes "takes_all (cells st c)"
  shows "\<exists>st'. st_SendMsg m c st = (None, st') \<and> takes_all (cells st' c) \<and>
    out (cells st' c) = out (cells st c) @ frames_wire (Frames m) \<and>
    (\<forall>j. j \<noteq> c \<longrightarrow> cells st' j = cells st j)"
proof -
  from SendMsg_healthy [of "cells st c" m] assms obtain w where
    w: "SendMsg m (cells st c) = (None, set_wr w (cells st c), False)" "healthy w"
       "written w = out (cells st c) @ frames_wire (Frames m)"
    by (auto simp: takes_all_def)
  moreover have "\<not> Closed (set_wr w (cells st c))" using assms by (simp add: takes_all_def Closed_def)
  ultimately show ?thesis by (simp add: st_SendMsg_def on_cell_def takes_all_def)
qed

lemma mwriter_write_loop_takes_all:
  "distinct ws1 \<Longrightarrow> \<forall>c \<in> set ws1. takes_all (cells st c) \<Longrightarrow>
     \<exists>st'. mwriter_write_loop m ws1 err st = (err, st') \<and>
       (\<forall>c \<in> set ws1. out (cells st' c) = out (cells st c) @ frames_wire (Frames m))"
proof (induction ws1 arbitrary: st)
  case Nil
  then show ?case by simp
next
  case (Cons w ws1)
  from st_SendMsg_takes_all [of st w m] Cons.prems(2) obtain st1 where
    s: "st_SendMsg m w st = (None, st1)" "out (cells st1 w) = out (cells st w) @ frames_wire (Frames m)"
       "\<forall>j. j \<noteq> w \<longrightarrow> cells st1 j = cells st j" by auto
  with Cons.prems have "\<forall>c \<in> set ws1. takes_all (cells st1 c)" by auto
  with Cons.IH [of st1] Cons.prems(1) obtain st' where
    st': "mwriter_write_loop m ws1 err st1 = (err, st')"
       "\<forall>c \<in> set ws1. out (cells st' c) = out (cells st1 c) @ frames_wire (Frames m)" by auto
  have "cells st' w = cells st1 w"
    using mwriter_write_loop_other [OF st'(1)] Cons.prems(1) by simp
  with s st' Cons.prems(1) show ?case by (auto intro!: exI [of _ st'])
qed

lemma resend_loop_takes_all:
  "takes_all (cells st c) \<Longrightarrow>
     out (cells (resend_loop ts c st) c) = out (cells st c) @ concat (map (\<lambda>t. frames_wire (Frames (command 1 t))) ts)"
proof (induction ts arbitrary: st)
  case Nil
  then show ?case by simp
next
  case (Cons t ts)
  from st_SendMsg_takes_all [OF Cons.prems, of "command 1 t"] obtain st' where
    "st_SendMsg (command 1 t) c st = (None, st')" "takes_all (cells st' c)"
    "out (cells st' c) = out (cells st c) @ frames_wire (Frames (command 1 t))" by blast
  with Cons.IH [of st'] show ?case by (simp add: command_def)
qed

text \<open>What \<^verbatim>\<open>SetOption\<close> sends when there is a connection.\<close>

lemma option_names: "OptionUnsubscribe \<noteq> OptionSubscribe" "OptionSubscribe \<noteq> OptionUnsubscribe"
  by (simp_all add: OptionUnsubscribe_def OptionSubscribe_def)

lemma sub_subscribe_frame [sock_simps, simp]:
  "conns (sub_subscribe t n s) = conns s" "pools (sub_subscribe t n s) = pools s"
  "sck_ctx (sub_subscribe t n s) = sck_ctx s"
  by (simp_all add: sub_subscribe_def)

lemma sub_SetOption_sends:
  assumes "name = OptionSubscribe \<or> name = OptionUnsubscribe" and "conns s \<noteq> []"
  shows "sub_SetOption d name (AnyString t) s =
    socket_Send d (command (if name = OptionSubscribe then 1 else 0) t)
      (sub_subscribe t (if name = OptionSubscribe then 1 else 0)
        (s\<lparr>props := (props s)(name := Some (AnyString t))\<rparr>))"
  using assms
  by (elim disjE) (simp_all add: sub_SetOption_def socket_SetOption_def command_def option_names Let_def)

text \<open>The publisher's reader on commands that have arrived.\<close>

fun listen_n :: "nat \<Rightarrow> conn_id \<Rightarrow> pubQReader \<times> store \<Rightarrow> (pubQReader \<times> store) blocking" where
  "listen_n 0 r qs = Returns qs"
| "listen_n (Suc n) r qs =
     (case pubQReader_listen None r qs of Returns qs1 \<Rightarrow> listen_n n r qs1 | b \<Rightarrow> b)"

lemma listen_command:
  assumes "length t < 2 ^ 32 - 1" and "b = 0 \<or> b = 1"
    and "inp (cells st r) = frames_wire (Frames (command b t)) @ rest"
  shows "\<exists>st'. pubQReader_listen None r (q, st) = Returns (q, st') \<and> inp (cells st' r) = rest \<and>
    set (topics (cells st' r)) = apply_command b t (set (topics (cells st r)))"
proof -
  from conn_read_wire [OF encodable_command [OF assms(1)] assms(3)] obtain rd1 where
    rd1: "conn_read (cells st r) = (NewMsgFrom (Frames (command b t)), set_rd rd1 (cells st r), False)"
       "content rd1 = rest" by blast
  have top: "isTopic (NewMsgFrom (Frames (command b t)))"
    using assms(2) by (auto simp: isTopic_iff NewMsgFrom_def)
  have "subscribe (NewMsgFrom (Frames (command b t))) k =
      Some (if b = 0 then k\<lparr>topics := strset_del t (topics k)\<rparr> else k\<lparr>topics := strset_put t (topics k)\<rparr>)" for k
    using assms(2) subscribe_topic [of "NewMsgFrom (Frames (command b t))" b "bytes_of_string t" k]
    by (auto simp: NewMsgFrom_def)
  with rd1 top assms(2) show ?thesis
    by (auto simp: pubQReader_listen_def st_read_def on_cell_def apply_command_def NewMsgFrom_def
        empty_msg_def set_rd_def)
qed

lemma listen_commands:
  "\<forall>t \<in> set ts. length t < 2 ^ 32 - 1 \<Longrightarrow>
   inp (cells st r) = concat (map (\<lambda>t. frames_wire (Frames (command 1 t))) ts) @ rest \<Longrightarrow>
     \<exists>st'. listen_n (length ts) r (q, st) = Returns (q, st') \<and> inp (cells st' r) = rest \<and>
       set (topics (cells st' r)) = set (topics (cells st r)) \<union> set ts"
proof (induction ts arbitrary: st)
  case Nil
  then show ?case by simp
next
  case (Cons t ts)
  have "inp (cells st r) = frames_wire (Frames (command 1 t)) @
      (concat (map (\<lambda>t. frames_wire (Frames (command 1 t))) ts) @ rest)"
    using Cons.prems(2) by simp
  from listen_command [OF _ _ this, of q] Cons.prems(1) obtain st1 where
    "pubQReader_listen None r (q, st) = Returns (q, st1)"
    "inp (cells st1 r) = concat (map (\<lambda>t. frames_wire (Frames (command 1 t))) ts) @ rest"
    "set (topics (cells st1 r)) = apply_command 1 t (set (topics (cells st r)))" by auto
  with Cons.IH [of st1] Cons.prems(1) show ?case by (auto simp: apply_command_def)
qed

section \<open>The pools of a publisher as a socket uses them\<close>

lemma delete_keys: "distinct (map fst l) \<Longrightarrow> map fst (AList.delete c l) = remove1 c (map fst l)"
proof -
  assume "distinct (map fst l)"
  moreover have "map fst (AList.delete c l) = filter (\<lambda>k. c \<noteq> k) (map fst l)"
    by (simp add: AList.delete_eq filter_map comp_def split_def)
  ultimately show ?thesis
    by (simp add: distinct_remove1_removeAll removeAll_filter_not_eq eq_commute [of c])
qed

lemma update_fresh: "c \<notin> set (map fst l) \<Longrightarrow> AList.update c v l = l @ [(c, v)]"
  by (induction l) auto

lemma pubMWriter_addConn_keys:
  "pubMWriter_addConn c w = Some w' \<Longrightarrow> c \<notin> set (map fst (sub_list w)) \<Longrightarrow>
     map fst (sub_list w') = map fst (sub_list w) @ [c]"
  using update_fresh [of c "sub_list w"]
  by (auto simp: pubMWriter_addConn_def Let_def sub_list_def split: if_splits option.splits)

lemma pubMWriter_rmConn_keys:
  "pubMWriter_rmConn c (w, st) = Some (w', st') \<Longrightarrow> distinct (map fst (sub_list w)) \<Longrightarrow>
     map fst (sub_list w') = remove1 c (map fst (sub_list w))"
proof (cases "map_of (sub_list w) c")
  case None
  then have "c \<notin> set (map fst (sub_list w))" by (simp add: map_of_eq_None_iff)
  moreover assume "pubMWriter_rmConn c (w, st) = Some (w', st')"
  ultimately show ?thesis using None by (simp add: pubMWriter_rmConn_def remove1_idem)
next
  case (Some a)
  assume r: "pubMWriter_rmConn c (w, st) = Some (w', st')" "distinct (map fst (sub_list w))"
  with Some have "sub_list w' = AList.delete c (sub_list w)"
    by (auto simp: pubMWriter_rmConn_def Let_def sub_list_def split: prod.splits option.splits)
  with delete_keys [OF r(2)] show ?thesis by simp
qed

lemma pub_ops_simps:
  "op_addR pub_ops c p = Some p' \<longleftrightarrow> p' = p\<lparr>pub_r := pubQReader_addConn c (pub_r p)\<rparr>"
  "op_addW pub_ops c p = Some p' \<longleftrightarrow> (\<exists>w. pubMWriter_addConn c (pub_w p) = Some w \<and> p' = p\<lparr>pub_w := w\<rparr>)"
  "op_rmR pub_ops c p = Some p' \<longleftrightarrow> p' = p\<lparr>pub_r := pubQReader_rmConn c (pub_r p)\<rparr>"
  "op_rmW pub_ops c p = Some p' \<longleftrightarrow>
     (\<exists>w st. pubMWriter_rmConn c (pub_w p, pub_st p) = Some (w, st) \<and> p' = p\<lparr>pub_w := w, pub_st := st\<rparr>)"
  "get_store pub_ops p = pub_st p" "put_store pub_ops st p = p\<lparr>pub_st := st\<rparr>"
  by (auto simp: pub_ops_def)

interpretation publisher: socket_pools pub_ops "\<lambda>p. pq_rs (pub_r p)" "\<lambda>p. map fst (sub_list (pub_w p))"
proof
  fix c :: conn_id and p p' :: pub_pools
  assume a: "op_addW pub_ops c p = Some p'" "c \<notin> set (map fst (sub_list (pub_w p)))"
  then obtain w where w: "pubMWriter_addConn c (pub_w p) = Some w" "p' = p\<lparr>pub_w := w\<rparr>"
    by (auto simp: pub_ops_simps)
  from pubMWriter_addConn_keys [OF w(1) a(2)] w(2)
  show "map fst (sub_list (pub_w p')) = map fst (sub_list (pub_w p)) @ [c] \<and> pq_rs (pub_r p') = pq_rs (pub_r p)"
    by simp
next
  fix c :: conn_id and p p' :: pub_pools
  assume a: "op_rmW pub_ops c p = Some p'" "distinct (map fst (sub_list (pub_w p)))"
  then obtain w st where w: "pubMWriter_rmConn c (pub_w p, pub_st p) = Some (w, st)"
      "p' = p\<lparr>pub_w := w, pub_st := st\<rparr>" by (auto simp: pub_ops_simps)
  from pubMWriter_rmConn_keys [OF w(1) a(2)] w(2)
  show "map fst (sub_list (pub_w p')) = remove1 c (map fst (sub_list (pub_w p))) \<and> pq_rs (pub_r p') = pq_rs (pub_r p)"
    by simp
qed (simp_all add: pub_ops_simps pubq_pool.members_add pubq_pool.members_rm subset_insertI distinct_remove1)

section \<open>Properties\<close>

text \<open>
  C10: Publishing while the socket is open: every subscriber one of whose topics is a prefix of
  the message's first frame, and whose queue has room, gets the message at the end of its
  queue; all other queues stay as they are, in whatever order the subscribers are visited; and
  the call returns no error.
\<close>

theorem pub_write_filters:
  assumes "pub_wf w" and "\<forall>i. snd (env i) = None"
  shows "\<exists>w'. pubMWriter_write env m w st = Some (None, w') \<and> sub_list w' = sub_list w \<and>
    (\<forall>(c, a) \<in> set (sub_list w).
       buf (chans w' ! a) = buf (chans w ! a) @
         (if (\<exists>k \<in> set (topics (cells st c)). prefix k (msg_topic m)) \<and>
             (length (buf (chans w ! a)) < cap (chans w ! a) \<or>
              cap (chans w ! a) = 0 \<and> buf (chans w ! a) = [] \<and> receiver_waits a (drainers w))
          then [m] else []))"
proof -
  from assms(1) have d: "distinct (map snd (sub_list w))"
      "\<forall>(c, a) \<in> set (sub_list w). a < length (chans w) \<and> \<not> chan_closed (chans w ! a)"
    by (auto simp: pub_wf_def)
  from pub_write_loop_spec [OF d, of m "msg_topic m" env "drainers w" st 0] assms(2) obtain cs where
    l: "pub_write_loop m (msg_topic m) env (drainers w) st 0 (sub_list w) (chans w) = Some (None, cs)"
      "\<forall>(c, a) \<in> set (sub_list w). cs ! a =
         (if subscribed (cells st c) (msg_topic m)
          then case sub_send m a (drainers w) (chans w ! a) of Sent ch \<Rightarrow> ch | _ \<Rightarrow> chans w ! a
          else chans w ! a)"
    by auto
  have "buf (cs ! a) = buf (chans w ! a) @
         (if (\<exists>k \<in> set (topics (cells st c)). prefix k (msg_topic m)) \<and>
             (length (buf (chans w ! a)) < cap (chans w ! a) \<or>
              cap (chans w ! a) = 0 \<and> buf (chans w ! a) = [] \<and> receiver_waits a (drainers w))
          then [m] else [])" if "(c, a) \<in> set (sub_list w)" for c a
  proof -
    have "\<not> chan_closed (chans w ! a)" using d(2) that by blast
    moreover have "cs ! a =
         (if subscribed (cells st c) (msg_topic m)
          then case sub_send m a (drainers w) (chans w ! a) of Sent ch \<Rightarrow> ch | _ \<Rightarrow> chans w ! a
          else chans w ! a)" using l(2) that by blast
    ultimately show ?thesis
      by (simp add: conn_topics.matches_iff sub_send_def chan_send_def)
  qed
  with l(1) show ?thesis by (auto simp: pubMWriter_write_def sub_list_def)
qed

text \<open>Two subscribers, to \<open>a\<close> and to \<open>b\<close>.\<close>

definition demo_pub :: pubMWriter where
  "demo_pub = the (pubMWriter_addConn 2 (the (pubMWriter_addConn 1 newPubMWriter)))"

definition demo_pub_store :: store where
  "demo_pub_store = fresh_store\<lparr>cells := (\<lambda>i. (cells fresh_store i)\<lparr>topics := [if i = 1 then ''a'' else ''b'']\<rparr>)\<rparr>"

lemma demo_pub_eq:
  "demo_pub = newPubMWriter\<lparr>subscribers := Some [(1, 0), (2, 1)], chans := [make_chan 1000, make_chan 1000],
     drainers := [\<lparr>dr_chan = 0, dr_conn = 1, dr_msg = None\<rparr>, \<lparr>dr_chan = 1, dr_conn = 2, dr_msg = None\<rparr>]\<rparr>"
  by (simp add: demo_pub_def newPubMWriter_def pubMWriter_addConn_def DefaultSendHwm_def)

lemma demo_pub_wf: "pub_wf demo_pub"
  by (simp add: demo_pub_eq pub_wf_def sub_list_def make_chan_def nth_Cons' less_Suc_eq)

theorem pub_write_filters_witness:
  "\<exists>w'. pubMWriter_write (\<lambda>_. (0, None)) (NewMsg (bytes_of_string ''ab'')) demo_pub demo_pub_store = Some (None, w')
     \<and> buf (chans w' ! 0) = [NewMsg (bytes_of_string ''ab'')] \<and> buf (chans w' ! 1) = []"
proof -
  have t: "msg_topic (NewMsg (bytes_of_string ''ab'')) = ''ab''"
    by (simp add: msg_topic_def NewMsg_def)
  from pub_write_filters [OF demo_pub_wf, of "\<lambda>_. (0, None)" "NewMsg (bytes_of_string ''ab'')" demo_pub_store]
  obtain w' where w': "pubMWriter_write (\<lambda>_. (0, None)) (NewMsg (bytes_of_string ''ab'')) demo_pub demo_pub_store
      = Some (None, w')"
    "\<forall>(c, a) \<in> set (sub_list demo_pub).
       buf (chans w' ! a) = buf (chans demo_pub ! a) @
         (if (\<exists>k \<in> set (topics (cells demo_pub_store c)). prefix k ''ab'') \<and>
             (length (buf (chans demo_pub ! a)) < cap (chans demo_pub ! a) \<or>
              cap (chans demo_pub ! a) = 0 \<and> buf (chans demo_pub ! a) = [] \<and>
              receiver_waits a (drainers demo_pub))
          then [NewMsg (bytes_of_string ''ab'')] else [])"
    unfolding t by auto
  then show ?thesis
    by (simp add: demo_pub_eq sub_list_def make_chan_def demo_pub_store_def)
qed


lemma demo_pub_reach: "pub_reach \<lparr>pw = demo_pub, pst = demo_pub_store, plog = []\<rparr>"
proof -
  let ?w1 = "the (pubMWriter_addConn 1 newPubMWriter)"
  have w1: "pubMWriter_addConn 1 newPubMWriter = Some ?w1" "sub_list ?w1 = [(1, 0)]"
    by (simp_all add: pubMWriter_addConn_def newPubMWriter_def DefaultSendHwm_def sub_list_def)
  have w2: "pubMWriter_addConn 2 ?w1 = Some demo_pub"
    by (simp add: demo_pub_def pubMWriter_addConn_def newPubMWriter_def DefaultSendHwm_def)
  from pub_next [OF pub_start [of demo_pub_store] joined [of 1 _ ?w1]] w1
  have "pub_reach \<lparr>pw = ?w1, pst = demo_pub_store, plog = []\<rparr>"
    by (simp add: pub_init_def newPubMWriter_def sub_list_def)
  from pub_next [OF this joined [of 2 _ demo_pub]] w1 w2 show ?thesis by simp
qed




text \<open>
  The publisher's reader consumes subscription commands: a command that arrives changes
  the topics of its connection and nothing in the queue, anything else is queued, and the
  goroutine never panics. So a queue without commands stays without: \<^verbatim>\<open>Recv\<close> on an XPUB socket
  never returns one.
\<close>

theorem pub_commands_consumed:
  assumes "\<not> list_ex isTopic (buf (pq_c q))" and "st_read r st = (m, st1)" and "msg_err m = None"
  shows "pubQReader_listen None r (q, st) \<noteq> Panics \<and>
    (if isTopic m
     then \<exists>b t k. Frames m = [b # t] \<and> pubQReader_listen None r (q, st) = Returns (q, st1\<lparr>cells := (cells st1)(r := k)\<rparr>) \<and>
            set (topics k) = apply_command b (string_of_bytes t) (set (topics (cells st1 r)))
     else \<forall>q' st'. pubQReader_listen None r (q, st) = Returns (q', st') \<longrightarrow>
            buf (pq_c q') = buf (pq_c q) @ [m] \<and> \<not> list_ex isTopic (buf (pq_c q')) \<and> st' = st1)"
proof -
  have "pubQReader_listen None r (q, st) \<noteq> Panics" using pubQReader_listen_cases [OF refl] by blast
  moreover have "if isTopic m
     then \<exists>b t k. Frames m = [b # t] \<and> pubQReader_listen None r (q, st) = Returns (q, st1\<lparr>cells := (cells st1)(r := k)\<rparr>) \<and>
            set (topics k) = apply_command b (string_of_bytes t) (set (topics (cells st1 r)))
     else \<forall>q' st'. pubQReader_listen None r (q, st) = Returns (q', st') \<longrightarrow>
            buf (pq_c q') = buf (pq_c q) @ [m] \<and> \<not> list_ex isTopic (buf (pq_c q')) \<and> st' = st1"
  proof (cases "isTopic m")
    case True
    then obtain b t where f: "Frames m = [b # t]" "b = 0 \<or> b = 1" by (auto simp: isTopic_iff)
    with True assms(2,3) subscribe_topic [OF f(1), of "cells st1 r"] show ?thesis
      by (auto simp: pubQReader_listen_def apply_command_def)
  next
    case False
    with assms show ?thesis
      by (auto simp: pubQReader_listen_def dest!: chan_send_buf split: send_result.splits)
  qed
  ultimately show ?thesis by blast
qed

theorem pub_commands_consumed_witness:
  "\<exists>st. set (topics (cells st 1)) = {''a''} \<and>
     pubQReader_listen None 1 (newPubQReader, fresh_store\<lparr>cells := (\<lambda>_. new_conn
       (bytes_NewReader [0, 0, 0, 0, 2, 1, 97]) \<lparr>wr_script = [], written = []\<rparr>)\<rparr>) = Returns (newPubQReader, st)"
proof -
  let ?st = "fresh_store\<lparr>cells := (\<lambda>_. new_conn (bytes_NewReader [0, 0, 0, 0, 2, 1, 97])
     \<lparr>wr_script = [], written = []\<rparr>)\<rparr>"
  have c: "Frames (fst (st_read 1 ?st)) = [[1, 97]]" "msg_err (fst (st_read 1 ?st)) = None"
      "topics (cells (snd (st_read 1 ?st)) 1) = []"
    by code_simp+
  have "\<not> list_ex isTopic (buf (pq_c newPubQReader))" by (simp add: newPubQReader_def make_chan_def)
  from pub_commands_consumed [OF this prod.collapse [symmetric, of "st_read 1 ?st"] c(2)]
  obtain b t k where k: "Frames (fst (st_read 1 ?st)) = [b # t]"
      "pubQReader_listen None 1 (newPubQReader, ?st) =
         Returns (newPubQReader, (snd (st_read 1 ?st))\<lparr>cells := (cells (snd (st_read 1 ?st)))(1 := k)\<rparr>)"
      "set (topics k) = apply_command b (string_of_bytes t) (set (topics (cells (snd (st_read 1 ?st)) 1)))"
    using c(1) by (auto simp: isTopic_iff split: if_splits)
  have "string_of_bytes [97] = ''a''" by code_simp
  with k(1,3) c have "set (topics k) = {''a''}" by (simp add: apply_command_def)
  with k(2) show ?thesis by (intro exI [of _ "(snd (st_read 1 ?st))\<lparr>cells := (cells (snd (st_read 1 ?st)))(1 := k)\<rparr>"]) simp
qed

text \<open>
  \<^verbatim>\<open>Recv\<close> on an XPUB socket that has been closed, with nothing queued, returns the empty
  message and no error.
\<close>

theorem xpub_closed_Recv_silent:
  assumes "ctx_err (sck_ctx s) = Some e" and "buf (pq_c (pub_r (pools s))) = []"
    and "\<not> chan_closed (pq_c (pub_r (pools s)))"
  shows "xpub_Recv pick s = Returns ((empty_msg, None), s)"
  using assms
  by (simp add: xpub_Recv_def pubQReader_read_def child_ctx_def sem_lock_ready_def case_recv_def
      chan_recv_def empty_msg_def)

theorem xpub_closed_Recv_silent_witness:
  "xpub_Recv 0 (snd (socket_Close pub_ops (NewXPub None [] fresh_store :: (pub_pools, nat) socket)))
     = Returns ((empty_msg, None), snd (socket_Close pub_ops (NewXPub None [] fresh_store)))"
  by (rule xpub_closed_Recv_silent [of _ CtxCanceled])
    (simp_all add: socket_Close_def NewXPub_def newSocket_def newDefaultSocket_def pub_ops_def new_pub_pools_def
      newPubQReader_def make_chan_def)

text \<open>
  A subscriber and its publishers agree on its topics: \<^verbatim>\<open>SetOption\<close> to subscribe or
  unsubscribe, while every connection takes what it is sent, returns no error and writes to
  each connection one command, which makes a publisher that had the subscriber's topics have
  its new ones.
\<close>

theorem sub_SetOption_syncs:
  assumes "name = OptionSubscribe \<or> name = OptionUnsubscribe" and "length t < 2 ^ 32 - 1"
    and "conns s \<noteq> []" and "ws (bw (pools s)) = conns s" and "distinct (conns s)"
    and "chan_recv (wsem (bw (pools s))) = ChanClosed"
    and "\<forall>c \<in> set (conns s). takes_all (cells (bst (pools s)) c)"
  shows "\<exists>s' bytes. sub_SetOption None name (AnyString t) s = Returns (None, s') \<and>
    set (subs s') = (if name = OptionSubscribe then insert t (set (subs s)) else set (subs s) - {t}) \<and>
    (\<forall>c \<in> set (conns s). out (cells (bst (pools s')) c) = out (cells (bst (pools s)) c) @ bytes) \<and>
    (\<forall>q ps r rest. inp (cells ps r) = bytes @ rest \<and> set (topics (cells ps r)) = set (subs s) \<longrightarrow>
       (\<exists>ps'. pubQReader_listen None r (q, ps) = Returns (q, ps') \<and> inp (cells ps' r) = rest \<and>
          set (topics (cells ps' r)) = set (subs s')))"
proof -
  let ?b = "if name = OptionSubscribe then 1 else 0 :: byte"
  let ?n = "if name = OptionSubscribe then 1 else 0 :: int"
  let ?s1 = "s\<lparr>props := (props s)(name := Some (AnyString t))\<rparr>"
  let ?s2 = "sub_subscribe t ?n ?s1"
  have s2: "pools ?s2 = pools s" "conns ?s2 = conns s" "sck_ctx ?s2 = sck_ctx s"
      "set (subs ?s2) = (if name = OptionSubscribe then insert t (set (subs s)) else set (subs s) - {t})"
    by (simp_all add: sub_subscribe_def)
  from mwriter_write_loop_takes_all [of "conns s" "bst (pools s)" "command ?b t" None] assms(5,7) obtain st where
    st: "mwriter_write_loop (command ?b t) (conns s) None (bst (pools s)) = (None, st)"
      "\<forall>c \<in> set (conns s). out (cells st c) = out (cells (bst (pools s)) c) @ frames_wire (Frames (command ?b t))"
    by auto
  have "mwriter_write (child_ctx None ?s2) (command ?b t) (bw (pools s)) (bst (pools s)) = Returns (None, st)"
    using st(1) assms(4,6) by (simp add: mwriter_write_def sem_lock_ready_def)
  then have "socket_Send None (command ?b t) ?s2 = Returns (None, ?s2\<lparr>pools := (pools s)\<lparr>bst := st\<rparr>\<rparr>)"
    unfolding socket_Send_def s2(1) by simp
  with sub_SetOption_sends [OF assms(1,3)]
  have "sub_SetOption None name (AnyString t) s = Returns (None, ?s2\<lparr>pools := (pools s)\<lparr>bst := st\<rparr>\<rparr>)"
    by simp
  moreover have "\<exists>ps'. pubQReader_listen None r (q, ps) = Returns (q, ps') \<and> inp (cells ps' r) = rest \<and>
          set (topics (cells ps' r)) = set (subs ?s2)"
    if "inp (cells ps r) = frames_wire (Frames (command ?b t)) @ rest" "set (topics (cells ps r)) = set (subs s)"
    for q ps r rest
  proof -
    from listen_command [OF assms(2) _ that(1), of q] that(2) s2(4) show ?thesis
      by (auto simp: apply_command_def)
  qed
  ultimately show ?thesis
    using st(2)
    by (intro exI [of _ "?s2\<lparr>pools := (pools s)\<lparr>bst := st\<rparr>\<rparr>"] exI [of _ "frames_wire (Frames (command ?b t))"])
      (simp add: s2(4))
qed

definition demo_sub :: "nat sub_socket" where
  "demo_sub = (NewSub None [] fresh_store)\<lparr>conns := [1],
     pools := (new_base_pools fresh_store)\<lparr>bw := mwriter_addConn 1 newMWriter\<rparr>\<rparr>"

theorem sub_SetOption_syncs_witness:
  "\<exists>s'. sub_SetOption None OptionSubscribe (AnyString ''a'') demo_sub = Returns (None, s') \<and> set (subs s') = {''a''}"
proof -
  have d: "conns demo_sub = [1]" "ws (bw (pools demo_sub)) = [1]" "set (subs demo_sub) = {}"
      "chan_recv (wsem (bw (pools demo_sub))) = ChanClosed" "bst (pools demo_sub) = fresh_store"
    by (simp_all add: demo_sub_def new_base_pools_def mwriter_addConn_def newMWriter_def newSemaphore_def make_chan_def
        sem_enable_def chan_recv_def chan_close_def NewSub_def Let_def socket.defs sub_socket.defs)
  have "takes_all (cells fresh_store 1)"
    by (simp add: takes_all_def fresh_store_def new_conn_def Closed_def healthy_def)
  with sub_SetOption_syncs [of OptionSubscribe "''a''" demo_sub] d show ?thesis by auto
qed

text \<open>
  A new connection gets all the topics: when the callback of \<^verbatim>\<open>NewSub\<close> has run on a
  connection that takes what it is sent, the publisher at its other end, once it has read as
  many commands as the subscriber has topics, has exactly those.
\<close>

theorem sub_resubscribes:
  assumes "takes_all (cells (bst (pools s)) c)" and "out (cells (bst (pools s)) c) = []"
    and "list_all (\<lambda>t. length t < 2 ^ 32 - 1) (subs s)"
    and "inp (cells ps r) = out (cells (bst (pools (sub_onConnAdded c s))) c)" and "topics (cells ps r) = []"
  shows "\<exists>ps'. listen_n (length (subs s)) r (q, ps) = Returns (q, ps') \<and>
           set (topics (cells ps' r)) = set (subs s) \<and> inp (cells ps' r) = []"
proof -
  have "out (cells (bst (pools (sub_onConnAdded c s))) c) =
      concat (map (\<lambda>t. frames_wire (Frames (command 1 t))) (sort (subs s)))"
    using resend_loop_takes_all [OF assms(1), of "sub_Topics s"] assms(2)
    by (simp add: sub_onConnAdded_def sub_Topics_sort)
  with assms(4) have "inp (cells ps r) = concat (map (\<lambda>t. frames_wire (Frames (command 1 t))) (sort (subs s))) @ []"
    by simp
  from listen_commands [OF _ this, of q] assms(3,5) show ?thesis by (auto simp: list_all_iff)
qed

theorem sub_resubscribes_witness:
  "\<exists>ps'. listen_n 2 1 (newPubQReader, fresh_store\<lparr>cells := (\<lambda>_. new_conn (bytes_NewReader
        (out (cells (bst (pools (sub_onConnAdded 1 (demo_sub\<lparr>subs := [''b'', ''a'']\<rparr>)))) 1)))
        \<lparr>wr_script = [], written = []\<rparr>)\<rparr>) = Returns (newPubQReader, ps') \<and>
     set (topics (cells ps' 1)) = {''a'', ''b''}"
proof -
  let ?s = "demo_sub\<lparr>subs := [''b'', ''a'']\<rparr>"
  let ?ps = "fresh_store\<lparr>cells := (\<lambda>_. new_conn (bytes_NewReader
        (out (cells (bst (pools (sub_onConnAdded 1 ?s))) 1))) \<lparr>wr_script = [], written = []\<rparr>)\<rparr>"
  have b: "bst (pools ?s) = fresh_store" by (simp add: demo_sub_def new_base_pools_def)
  then have f: "takes_all (cells (bst (pools ?s)) 1)" "out (cells (bst (pools ?s)) 1) = []"
    by (simp_all add: takes_all_def fresh_store_def new_conn_def Closed_def healthy_def)
  have p: "inp (cells ?ps 1) = out (cells (bst (pools (sub_onConnAdded 1 ?s))) 1)" "topics (cells ?ps 1) = []"
    by (simp_all add: new_conn_def)
  have "list_all (\<lambda>t. length t < 2 ^ 32 - 1) (subs ?s)" by simp
  from sub_resubscribes [OF f this p, of newPubQReader] show ?thesis by (auto simp: numeral_2_eq_2)
qed

text \<open>
  \<^verbatim>\<open>Topics\<close> of a subscriber lists its topics in order, each once; \<^verbatim>\<open>Topics\<close> of a publisher
  lists, each once, the topics of all its connections.
\<close>

theorem Topics_listed:
  assumes "distinct (subs s)"
  shows "sub_Topics s = sorted_list_of_set (set (subs s)) \<and>
    distinct (pub_Topics p) \<and> xpub_Topics p = pub_Topics p \<and>
    set (pub_Topics p) = (\<Union>c \<in> set (conns p). set (topics (cells (pub_st (pools p)) c)))"
  using assms topics_outer_spec [of "[]" "pub_st (pools p)" "conns p"]
  by (simp add: sub_Topics_sort sort_eq_of_set pub_Topics_def xpub_Topics_def socket_topics_def pub_ops_def)

theorem Topics_listed_witness:
  "sub_Topics (demo_sub\<lparr>subs := [''b'', ''a'']\<rparr>) = sorted_list_of_set {''b'', ''a''}"
  using Topics_listed [of "demo_sub\<lparr>subs := [''b'', ''a'']\<rparr>" "NewPub None [] fresh_store :: (pub_pools, nat) socket"]
  by simp

end
