(* ===== verification/Quic.thy ===== *)
theory Quic
  imports Transport "HOL-Library.Multiset"
begin

text \<open>
  \<^verbatim>\<open>transport_quic.go\<close>, \<^verbatim>\<open>pool.go\<close> and \<^verbatim>\<open>qlog.go\<close>: how a QUIC connection and its stream are
  made, with what is closed again when a step fails; the listener; and the pool that shares
  connections. The QUIC library and the operating system are parameters: a record of the
  results that their calls return. What the code does with them is a trace of events.
\<close>

section \<open>Configurations\<close>

definition defaultInitialStreamWindow :: int where "defaultInitialStreamWindow = push_bit 20 8"
definition defaultMaxStreamWindow :: int where "defaultMaxStreamWindow = push_bit 20 16"
definition defaultInitialConnWindow :: int where "defaultInitialConnWindow = push_bit 20 16"
definition defaultMaxConnWindow :: int where "defaultMaxConnWindow = push_bit 20 32"
definition defaultKeepAlivePeriod :: int where "defaultKeepAlivePeriod = 5 * 1000000000"
definition defaultMaxIdleTimeout :: int where "defaultMaxIdleTimeout = 15 * 1000000000"

text \<open>The tracer of the library, driven by \<^verbatim>\<open>QLOGDIR\<close>, or the one of \<^verbatim>\<open>qlog.go\<close> for a directory.\<close>

datatype tracer = DefaultConnectionTracer | QlogTracer string

definition makeQlogTracer :: "string \<Rightarrow> tracer" where
  "makeQlogTracer dir = QlogTracer dir"

text \<open>
  The file a tracer writes for a connection, and the function that \<^verbatim>\<open>makeQlogTracer\<close> returns: no
  trace (\<open>None\<close>) when the directory or the file cannot be made, else one that writes the file.
\<close>

fun TrimRight :: "string \<Rightarrow> char \<Rightarrow> string" where
  "TrimRight s c = rev (dropWhile (\<lambda>d. d = c) (rev s))"

definition qlog_path :: "string \<Rightarrow> bool \<Rightarrow> string \<Rightarrow> string" where
  "qlog_path dir isClient connID =
     (let role = (if isClient then ''client'' else ''server'') in
      TrimRight dir (CHR ''/'') @ ''/'' @ connID @ ''_'' @ role @ ''.sqlog'')"

definition qlog_trace ::
    "(string \<Rightarrow> go_error option) \<Rightarrow> (string \<Rightarrow> go_error option) \<Rightarrow> string \<Rightarrow> bool \<Rightarrow> string \<Rightarrow> string option" where
  "qlog_trace MkdirAll Create dir isClient connID =
     (if MkdirAll dir \<noteq> None then None
      else let path = qlog_path dir isClient connID in
           if Create path \<noteq> None then None else Some path)"

lemma qlog_path_injective:
  "qlog_path dir isClient connID = qlog_path dir isClient' connID' \<longleftrightarrow> isClient = isClient' \<and> connID = connID'"
  by (auto simp: qlog_path_def Let_def split: if_splits)

text \<open>Two traces of one directory never share a file.\<close>

lemma qlog_trace_injective:
  "qlog_trace mk cr dir isClient connID = Some path \<Longrightarrow> qlog_trace mk cr dir isClient' connID' = Some path \<Longrightarrow>
     isClient = isClient' \<and> connID = connID'"
  by (auto simp: qlog_trace_def Let_def qlog_path_injective split: if_splits)

text \<open>\<^verbatim>\<open>bufferedWriteCloser.Close\<close>: flush, then close; the second result is whether it closed.\<close>

definition bufferedWriteCloser_Close ::
    "go_error option \<Rightarrow> go_error option \<Rightarrow> go_error option \<times> bool" where
  "bufferedWriteCloser_Close flush close =
     (case flush of Some e \<Rightarrow> (Some e, False) | None \<Rightarrow> (close, True))"

record quic_config =
  InitialStreamReceiveWindow :: int
  MaxStreamReceiveWindow :: int
  InitialConnectionReceiveWindow :: int
  MaxConnectionReceiveWindow :: int
  KeepAlivePeriod :: int
  MaxIdleTimeout :: int
  Tracer :: tracer
  Allow0RTT :: bool
  EnableDatagrams :: bool

definition defaultQUICConfig :: quic_config where
  "defaultQUICConfig =
     \<lparr>InitialStreamReceiveWindow = defaultInitialStreamWindow,
      MaxStreamReceiveWindow = defaultMaxStreamWindow,
      InitialConnectionReceiveWindow = defaultInitialConnWindow,
      MaxConnectionReceiveWindow = defaultMaxConnWindow,
      KeepAlivePeriod = defaultKeepAlivePeriod, MaxIdleTimeout = defaultMaxIdleTimeout,
      Tracer = DefaultConnectionTracer, Allow0RTT = False, EnableDatagrams = False\<rparr>"

definition defaultServerQUICConfig :: quic_config where
  "defaultServerQUICConfig = defaultQUICConfig\<lparr>Allow0RTT := True\<rparr>"

definition datagramServerQUICConfig :: quic_config where
  "datagramServerQUICConfig = defaultServerQUICConfig\<lparr>EnableDatagrams := True\<rparr>"

definition datagramClientQUICConfig :: quic_config where
  "datagramClientQUICConfig = defaultQUICConfig\<lparr>EnableDatagrams := True\<rparr>"

definition with_tracer :: "gocontext \<Rightarrow> quic_config \<Rightarrow> quic_config" where
  "with_tracer c qcfg =
     (let dir = qlogDirFromContext c in
      if dir \<noteq> '''' then qcfg\<lparr>Tracer := makeQlogTracer dir\<rparr> else qcfg)"

definition client_tls :: "gocontext \<Rightarrow> tls_config" where
  "client_tls c = (case clientTLSFromContext c of None \<Rightarrow> InsecureClientTLSConfig | Some t \<Rightarrow> t)"

section \<open>Addresses\<close>

fun strip_prefix :: "string list \<Rightarrow> string \<Rightarrow> string" where
  "strip_prefix [] addr = addr"
| "strip_prefix (p # ps) addr = (if prefix p addr then drop (length p) addr else strip_prefix ps addr)"

definition parseQUICAddr :: "string \<Rightarrow> string" where
  "parseQUICAddr addr = strip_prefix [''quic://'', ''quic+udp://'', ''udp://''] addr"

section \<open>Dialling\<close>

text \<open>UDP sockets, QUIC connections and streams are numbers.\<close>

type_synonym udp_id = nat
type_synonym qconn_id = nat
type_synonym stream_id = nat

text \<open>\<open>DialQUIC\<close> is \<^verbatim>\<open>DialEarly\<close> or \<^verbatim>\<open>Dial\<close> of the library.\<close>

datatype quic_event =
    ListenUDP udp_id
  | CloseUDP udp_id
  | DialQUIC qconn_id tls_config quic_config
  | ListenQUIC tls_config quic_config
  | CloseListener
  | CloseControl
  | CloseWithError qconn_id string
  | OpenStream qconn_id stream_id

record streamConn =
  sc_stream :: stream_id
  sc_qconn :: qconn_id
  sc_transport :: "udp_id option"
  sc_local :: udp_id

text \<open>
  The results of the calls in the order the code makes them; \<open>dl_handshake\<close> is the \<^verbatim>\<open>select\<close>
  that waits for the handshake: \<open>None\<close> when it completes, the context's error otherwise.
\<close>

record dial_net =
  dl_resolve :: "go_error + string"
  dl_udp :: "go_error + udp_id"
  dl_early :: "go_error + qconn_id"
  dl_handshake :: "go_error option"
  dl_stream :: "go_error + stream_id"
  dl_next :: "go_error + qconn_id"
  dl_stream2 :: "go_error + stream_id"

definition isErr0RTTRejected :: "go_error option \<Rightarrow> bool" where
  "isErr0RTTRejected err = (case err of None \<Rightarrow> False | Some e \<Rightarrow> errors_Is e Err0RTTRejected)"

fun err_of :: "go_error + 'a \<Rightarrow> go_error option" where
  "err_of (Inl e) = Some e"
| "err_of (Inr _) = None"

text \<open>The end of \<^verbatim>\<open>Dial\<close>, once a stream has been asked for on connection \<open>q\<close>.\<close>

definition finish_dial ::
    "udp_id \<Rightarrow> qconn_id \<Rightarrow> go_error + stream_id \<Rightarrow> quic_event list \<Rightarrow> (go_error + streamConn) \<times> quic_event list" where
  "finish_dial u q stream tr =
     (case stream of
        Inl e \<Rightarrow>
          (Inl (Wrapf ''quicmq: open stream: %w'' [] e),
           tr @ [CloseWithError q ''stream open failed'', CloseUDP u])
      | Inr s \<Rightarrow>
          (Inr \<lparr>sc_stream = s, sc_qconn = q, sc_transport = Some u, sc_local = u\<rparr>, tr @ [OpenStream q s]))"

definition quicTransport_Dial ::
    "dial_net \<Rightarrow> gocontext \<Rightarrow> string \<Rightarrow> (go_error + streamConn) \<times> quic_event list" where
  "quicTransport_Dial net c addr =
     (let tlsCfg = client_tls c in
      case dl_resolve net of
        Inl e \<Rightarrow> (Inl (Wrapf ''quicmq: resolve addr %q: %w'' [Str addr] e), [])
      | Inr udpAddr \<Rightarrow>
     (case dl_udp net of
        Inl e \<Rightarrow> (Inl (Wrapf ''quicmq: listen udp: %w'' [] e), [])
      | Inr u \<Rightarrow>
          let qcfg = with_tracer c defaultQUICConfig in
     (case dl_early net of
        Inl e \<Rightarrow> (Inl (Wrapf ''quicmq: dial %q: %w'' [Str addr] e), [ListenUDP u, CloseUDP u])
      | Inr q \<Rightarrow>
          let tr = [ListenUDP u, DialQUIC q tlsCfg qcfg] in
     (case dl_handshake net of
        Some e \<Rightarrow>
          (Inl (Wrapf ''quicmq: handshake for %q: %w'' [Str addr] e),
           tr @ [CloseWithError q ''context cancelled during handshake'', CloseUDP u])
      | None \<Rightarrow>
          if isErr0RTTRejected (err_of (dl_stream net))
          then (case dl_next net of
                  Inl e \<Rightarrow>
                    (Inl (Wrapf ''quicmq: 0-RTT fallback for %q: %w'' [Str addr] e),
                     tr @ [CloseWithError q ''0-RTT rejected, 1-RTT fallback failed'', CloseUDP u])
                | Inr q2 \<Rightarrow> finish_dial u q2 (dl_stream2 net) tr)
          else finish_dial u q (dl_stream net) tr))))"

text \<open>\<^verbatim>\<open>Close\<close> of a \<^verbatim>\<open>streamConn\<close>: the stream only.\<close>

definition streamConn_Close :: "(stream_id \<Rightarrow> go_error option) \<Rightarrow> streamConn \<Rightarrow> go_error option \<times> quic_event list" where
  "streamConn_Close close_stream sc = (close_stream (sc_stream sc), [])"

section \<open>The pool\<close>

record poolEntry =
  pe_qconn :: qconn_id
  pe_udp :: udp_id

type_synonym connPool = "(string \<times> poolEntry) list"

definition NewConnectionPool :: connPool where
  "NewConnectionPool = []"

text \<open>\<open>dead\<close> tells of which QUIC connections the context is done.\<close>

definition pool_Dial ::
    "dial_net \<Rightarrow> (qconn_id \<Rightarrow> bool) \<Rightarrow> gocontext \<Rightarrow> string \<Rightarrow> connPool
       \<Rightarrow> (go_error + streamConn) \<times> connPool \<times> quic_event list" where
  "pool_Dial net dead c addr0 p =
     (let addr = parseQUICAddr addr0; tlsCfg = client_tls c;
          (ok, p1, tr1) =
            (case map_of p addr of
               None \<Rightarrow> (None, p, [])
             | Some entry \<Rightarrow>
                 if dead (pe_qconn entry)
                 then (None, AList.delete addr p, [CloseUDP (pe_udp entry)])
                 else (Some entry, p, []));
          (entry, p2, tr2) =
            (case ok of
               Some entry \<Rightarrow> (Inr entry, p1, [])
             | None \<Rightarrow>
                (case dl_resolve net of
                   Inl e \<Rightarrow> (Inl (Wrapf ''quicmq: pool resolve %q: %w'' [Str addr] e), p1, [])
                 | Inr udpAddr \<Rightarrow>
                (case dl_udp net of
                   Inl e \<Rightarrow> (Inl (Wrapf ''quicmq: pool udp: %w'' [] e), p1, [])
                 | Inr u \<Rightarrow>
                     let qcfg = with_tracer c defaultQUICConfig in
                (case dl_early net of
                   Inl e \<Rightarrow> (Inl (Wrapf ''quicmq: pool dial %q: %w'' [Str addr] e), p1, [ListenUDP u, CloseUDP u])
                 | Inr q \<Rightarrow>
                     let tr = [ListenUDP u, DialQUIC q tlsCfg qcfg] in
                (case dl_handshake net of
                   Some e \<Rightarrow> (Inl e, p1, tr @ [CloseWithError q ''cancelled'', CloseUDP u])
                 | None \<Rightarrow>
                     let entry = \<lparr>pe_qconn = q, pe_udp = u\<rparr> in
                     (Inr entry, AList.update addr entry p1, tr))))))
      in case entry of
          Inl e \<Rightarrow> (Inl e, p2, tr1 @ tr2)
        | Inr en \<Rightarrow>
            (case dl_stream net of
               Inl e \<Rightarrow> (Inl (Wrapf ''quicmq: pool open stream: %w'' [] e), p2, tr1 @ tr2)
             | Inr s \<Rightarrow>
                 (Inr \<lparr>sc_stream = s, sc_qconn = pe_qconn en, sc_transport = None, sc_local = pe_udp en\<rparr>,
                  p2, tr1 @ tr2 @ [OpenStream (pe_qconn en) s])))"

definition pool_Listen :: "go_error + unit" where
  "pool_Listen = Inl (Errorf ''quicmq: ConnectionPool does not support Listen'' [])"

text \<open>\<open>close_q\<close> is what \<^verbatim>\<open>CloseWithError\<close> of a connection returns, \<open>text_of\<close> the text of an error.\<close>

fun pool_Close_loop ::
    "(qconn_id \<Rightarrow> go_error option) \<Rightarrow> (go_error \<Rightarrow> string) \<Rightarrow> connPool \<Rightarrow> connPool \<Rightarrow> string list
       \<Rightarrow> quic_event list \<Rightarrow> string list \<times> connPool \<times> quic_event list" where
  "pool_Close_loop close_q text_of [] p errs tr = (errs, p, tr)"
| "pool_Close_loop close_q text_of ((addr, e) # rest) p errs tr =
     (let errs1 = (case close_q (pe_qconn e) of None \<Rightarrow> errs | Some err \<Rightarrow> errs @ [text_of err]) in
      pool_Close_loop close_q text_of rest (AList.delete addr p) errs1
        (tr @ [CloseWithError (pe_qconn e) ''pool closed'', CloseUDP (pe_udp e)]))"

fun strings_Join :: "string list \<Rightarrow> string \<Rightarrow> string" where
  "strings_Join [] sep = []"
| "strings_Join [s] sep = s"
| "strings_Join (s # t # ss) sep = s @ sep @ strings_Join (t # ss) sep"

definition pool_Close ::
    "(qconn_id \<Rightarrow> go_error option) \<Rightarrow> (go_error \<Rightarrow> string) \<Rightarrow> connPool
       \<Rightarrow> go_error option \<times> connPool \<times> quic_event list" where
  "pool_Close close_q text_of p =
     (case pool_Close_loop close_q text_of p p [] [] of
        (errs, p1, tr) \<Rightarrow>
          (if length errs > 0
           then Some (Errorf ''quicmq: pool close: %s'' [Str (strings_Join errs ''; '')]) else None, p1, tr))"

definition pool_Len :: "connPool \<Rightarrow> nat" where
  "pool_Len p = length p"

definition pool_LocalAddr :: "string \<Rightarrow> connPool \<Rightarrow> udp_id option" where
  "pool_LocalAddr addr p = map_option pe_udp (map_of p addr)"

section \<open>Listening\<close>

text \<open>
  \<open>acceptCh\<close> and \<open>closeCh\<close>; \<open>l_once\<close> is the \<^verbatim>\<open>sync.Once\<close>. \<open>l_listening\<close> tells whether the
  goroutine \<^verbatim>\<open>acceptLoop\<close> runs, \<open>l_handlers\<close> the connections whose \<^verbatim>\<open>handleConn\<close> does.
\<close>

record quicListener =
  l_udp :: udp_id
  acceptCh :: "streamConn chan"
  closeCh :: "unit chan"
  l_once :: bool
  l_listening :: bool
  l_handlers :: "qconn_id list"

definition quicTransport_Listen ::
    "(gocontext \<Rightarrow> tls_config) \<Rightarrow> go_error + string \<Rightarrow> go_error + udp_id \<Rightarrow> go_error option \<Rightarrow> gocontext \<Rightarrow> string
       \<Rightarrow> (go_error + quicListener) \<times> quic_event list" where
  "quicTransport_Listen generate resolve udp listen c addr =
     (let tlsCfg = (case serverTLSFromContext c of None \<Rightarrow> generate c | Some t \<Rightarrow> t) in
      case resolve of
        Inl e \<Rightarrow> (Inl (Wrapf ''quicmq: resolve addr %q: %w'' [Str addr] e), [])
      | Inr udpAddr \<Rightarrow>
     (case udp of
        Inl e \<Rightarrow> (Inl (Wrapf ''quicmq: listen udp on %q: %w'' [Str addr] e), [])
      | Inr u \<Rightarrow>
          let qcfg = with_tracer c defaultServerQUICConfig in
     (case listen of
        Some e \<Rightarrow> (Inl (Wrapf ''quicmq: quic listen: %w'' [] e), [ListenUDP u, CloseUDP u])
      | None \<Rightarrow>
          (Inr \<lparr>l_udp = u, acceptCh = make_chan 16, closeCh = make_chan 0, l_once = False,
                l_listening = True, l_handlers = []\<rparr>,
           [ListenUDP u, ListenQUIC tlsCfg qcfg]))))"

definition is_closing :: "quicListener \<Rightarrow> bool" where
  "is_closing l = (chan_recv (closeCh l) \<noteq> RecvBlocks)"

text \<open>One round of \<^verbatim>\<open>acceptLoop\<close>; \<open>accepted\<close> is what the library's \<^verbatim>\<open>Accept\<close> returns.\<close>

definition acceptLoop :: "go_error + qconn_id \<Rightarrow> quicListener \<Rightarrow> quicListener" where
  "acceptLoop accepted l =
     (if is_closing l then l\<lparr>l_listening := False\<rparr>
      else case accepted of
          Inl e \<Rightarrow> l\<lparr>l_listening := False\<rparr>
        | Inr q \<Rightarrow> l\<lparr>l_handlers := l_handlers l @ [q]\<rparr>)"

text \<open>
  One round of \<^verbatim>\<open>handleConn\<close>, in two steps: a stream is accepted; then it is handed over, or
  closed when the listener is closing. The results are whether the goroutine goes on, and the
  streams it closed.
\<close>

definition handleConn_accept :: "go_error + stream_id \<Rightarrow> qconn_id \<Rightarrow> quicListener \<Rightarrow> streamConn option" where
  "handleConn_accept accepted q l =
     (if is_closing l then None
      else case accepted of
          Inl e \<Rightarrow> None
        | Inr s \<Rightarrow> Some \<lparr>sc_stream = s, sc_qconn = q, sc_transport = None, sc_local = l_udp l\<rparr>)"

definition handleConn_hand ::
    "nat \<Rightarrow> streamConn \<Rightarrow> quicListener \<Rightarrow> (bool \<times> stream_id list \<times> quicListener) blocking" where
  "handleConn_hand pick sc l =
     go_select pick
       [(case chan_send sc (acceptCh l) of
           Sent ch \<Rightarrow> Returns (True, [], l\<lparr>acceptCh := ch\<rparr>) | SendBlocks \<Rightarrow> Waits | SendPanics \<Rightarrow> Panics),
        (if is_closing l then Returns (False, [sc_stream sc], l) else Waits)]"

definition quicListener_Accept ::
    "nat \<Rightarrow> quicListener \<Rightarrow> ((go_error + streamConn) \<times> quicListener) blocking" where
  "quicListener_Accept pick l =
     go_select pick
       [(case chan_recv (acceptCh l) of
           Received conn ch \<Rightarrow> Returns (Inr conn, l\<lparr>acceptCh := ch\<rparr>)
         | ChanClosed \<Rightarrow> Returns (Inl (Errorf ''quicmq: listener closed'' []), l)
         | RecvBlocks \<Rightarrow> Waits),
        (if is_closing l then Returns (Inl (Errorf ''quicmq: listener closed'' []), l) else Waits)]"

text \<open>\<open>close_ql\<close> is what closing the library's listener returns. Closing a closed channel panics.\<close>

definition quicListener_Close ::
    "go_error option \<Rightarrow> quicListener \<Rightarrow> (go_error option \<times> quicListener \<times> quic_event list) option" where
  "quicListener_Close close_ql l =
     (let l1 = (if l_once l then Some l
                else if chan_closed (closeCh l) then None
                else Some (l\<lparr>l_once := True, closeCh := chan_close (closeCh l)\<rparr>)) in
      map_option (\<lambda>l2. (close_ql, l2, [CloseListener, CloseUDP (l_udp l2)])) l1)"
section \<open>Accounting for UDP sockets\<close>

text \<open>The UDP sockets that are open after a trace, with how often.\<close>

fun udp_step :: "quic_event \<Rightarrow> udp_id multiset \<Rightarrow> udp_id multiset" where
  "udp_step (ListenUDP u) m = add_mset u m"
| "udp_step (CloseUDP u) m = m - {#u#}"
| "udp_step _ m = m"

definition open_udps :: "quic_event list \<Rightarrow> udp_id multiset" where
  "open_udps tr = fold udp_step tr {#}"

fun is_dial :: "quic_event \<Rightarrow> bool" where
  "is_dial (DialQUIC q t cfg) = True"
| "is_dial _ = False"

fun is_qclose :: "quic_event \<Rightarrow> bool" where
  "is_qclose (CloseWithError q s) = True"
| "is_qclose _ = False"

text \<open>Connections are dialled with these settings only.\<close>

fun dialled_with :: "gocontext \<Rightarrow> quic_event \<Rightarrow> bool" where
  "dialled_with c (DialQUIC q t cfg) =
     (t = client_tls c \<and> \<not> Allow0RTT cfg \<and>
      Tracer cfg = (if qlogDirFromContext c \<noteq> '''' then QlogTracer (qlogDirFromContext c)
                    else DefaultConnectionTracer))"
| "dialled_with c _ = True"

lemma with_tracer_client:
  "\<not> Allow0RTT (with_tracer c defaultQUICConfig)"
  "Tracer (with_tracer c defaultQUICConfig) =
     (if qlogDirFromContext c \<noteq> '''' then QlogTracer (qlogDirFromContext c) else DefaultConnectionTracer)"
  by (simp_all add: with_tracer_def defaultQUICConfig_def makeQlogTracer_def Let_def)

text \<open>The sockets of the entries of a pool.\<close>

definition entry_udps :: "connPool \<Rightarrow> udp_id multiset" where
  "entry_udps p = image_mset (\<lambda>x. pe_udp (snd x)) (mset p)"

definition pool_ok :: "connPool \<Rightarrow> udp_id multiset \<Rightarrow> bool" where
  "pool_ok p m = (distinct (map fst p) \<and> m = entry_udps p)"

lemma delete_entry_mset:
  "distinct (map fst p) \<Longrightarrow> map_of p a = Some e \<Longrightarrow> mset p = add_mset (a, e) (mset (AList.delete a p))"
proof (induction p)
  case Nil
  then show ?case by simp
next
  case (Cons x p)
  obtain k v where x: "x = (k, v)" by (cases x)
  show ?case
  proof (cases "k = a")
    case True
    with Cons.prems x have "AList.delete a p = p" by (auto intro: AList.delete_id)
    with Cons.prems True x show ?thesis by simp
  next
    case False
    with Cons x show ?thesis by simp
  qed
qed

lemma entry_udps_delete:
  "distinct (map fst p) \<Longrightarrow> map_of p a = Some e \<Longrightarrow>
     entry_udps (AList.delete a p) = entry_udps p - {#pe_udp e#}"
  using delete_entry_mset [of p a e] by (simp add: entry_udps_def)

lemma update_new: "map_of p a = None \<Longrightarrow> AList.update a e p = p @ [(a, e)]"
  by (induction p) (auto split: if_splits)

lemma map_of_delete_same: "map_of (AList.delete a p) a = None"
  by (simp add: AList.delete_conv')

text \<open>
  The three stages of \<^verbatim>\<open>pool_Dial\<close>: a dead entry is dropped, a missing one is made, and a stream
  is opened.
\<close>

definition pool_drop :: "(qconn_id \<Rightarrow> bool) \<Rightarrow> string \<Rightarrow> connPool \<Rightarrow> poolEntry option \<times> connPool \<times> quic_event list" where
  "pool_drop dead addr p =
     (case map_of p addr of
        None \<Rightarrow> (None, p, [])
      | Some entry \<Rightarrow>
          if dead (pe_qconn entry)
          then (None, AList.delete addr p, [CloseUDP (pe_udp entry)])
          else (Some entry, p, []))"

lemma pool_drop_ok:
  assumes "pool_drop dead addr p = (ok, p1, tr)" and "pool_ok p m"
  shows "pool_ok p1 (fold udp_step tr m) \<and>
    (case ok of None \<Rightarrow> map_of p1 addr = None
     | Some e \<Rightarrow> p1 = p \<and> tr = [] \<and> map_of p addr = Some e \<and> \<not> dead (pe_qconn e))"
  using assms
  by (auto simp: pool_drop_def pool_ok_def entry_udps_delete AList.distinct_delete map_of_delete_same
      split: option.splits if_splits)

definition pool_make ::
    "dial_net \<Rightarrow> gocontext \<Rightarrow> string \<Rightarrow> poolEntry option \<Rightarrow> connPool
       \<Rightarrow> (go_error + poolEntry) \<times> connPool \<times> quic_event list" where
  "pool_make net c addr ok p1 =
     (case ok of
        Some entry \<Rightarrow> (Inr entry, p1, [])
      | None \<Rightarrow>
         (case dl_resolve net of
            Inl e \<Rightarrow> (Inl (Wrapf ''quicmq: pool resolve %q: %w'' [Str addr] e), p1, [])
          | Inr udpAddr \<Rightarrow>
         (case dl_udp net of
            Inl e \<Rightarrow> (Inl (Wrapf ''quicmq: pool udp: %w'' [] e), p1, [])
          | Inr u \<Rightarrow>
         (case dl_early net of
            Inl e \<Rightarrow> (Inl (Wrapf ''quicmq: pool dial %q: %w'' [Str addr] e), p1, [ListenUDP u, CloseUDP u])
          | Inr q \<Rightarrow>
              let tr = [ListenUDP u, DialQUIC q (client_tls c) (with_tracer c defaultQUICConfig)] in
         (case dl_handshake net of
            Some e \<Rightarrow> (Inl e, p1, tr @ [CloseWithError q ''cancelled'', CloseUDP u])
          | None \<Rightarrow>
              let entry = \<lparr>pe_qconn = q, pe_udp = u\<rparr> in
              (Inr entry, AList.update addr entry p1, tr))))))"

lemma pool_make_ok:
  assumes "pool_make net c addr ok p1 = (r, p2, tr)" and "pool_ok p1 m"
    and "ok = None \<Longrightarrow> map_of p1 addr = None"
  shows "pool_ok p2 (fold udp_step tr m) \<and> list_all (dialled_with c) tr \<and>
    (\<forall>e. r = Inr e \<longrightarrow> ok = Some e \<or> map_of p2 addr = Some e)"
proof (cases ok)
  case (Some e)
  with assms show ?thesis by (auto simp: pool_make_def)
next
  case None
  with assms(3) have absent: "map_of p1 addr = None" by simp
  then have new: "AList.update addr en p1 = p1 @ [(addr, en)]" for en by (rule update_new)
  from absent have "addr \<notin> set (map fst p1)" by (simp add: map_of_eq_None_iff)
  with assms(1,2) None new absent show ?thesis
    by (auto simp: pool_make_def pool_ok_def entry_udps_def Let_def with_tracer_client map_add_def
        split: sum.splits option.splits)
qed

lemma pool_Dial_stages:
  "pool_Dial net dead c addr0 p =
     (case pool_drop dead (parseQUICAddr addr0) p of
        (ok, p1, tr1) \<Rightarrow>
          (case pool_make net c (parseQUICAddr addr0) ok p1 of
             (Inl e, p2, tr2) \<Rightarrow> (Inl e, p2, tr1 @ tr2)
           | (Inr en, p2, tr2) \<Rightarrow>
               (case dl_stream net of
                  Inl e \<Rightarrow> (Inl (Wrapf ''quicmq: pool open stream: %w'' [] e), p2, tr1 @ tr2)
                | Inr s \<Rightarrow>
                    (Inr \<lparr>sc_stream = s, sc_qconn = pe_qconn en, sc_transport = None, sc_local = pe_udp en\<rparr>,
                     p2, tr1 @ tr2 @ [OpenStream (pe_qconn en) s]))))"
  unfolding pool_Dial_def pool_drop_def pool_make_def Let_def
  by (simp split: option.splits sum.splits prod.splits)

lemma pool_Dial_ok:
  assumes "pool_Dial net dead c addr p = (r, p', tr)" and "pool_ok p m"
  shows "pool_ok p' (fold udp_step tr m) \<and> list_all (dialled_with c) tr \<and>
    (\<forall>sc. r = Inr sc \<longrightarrow>
       map_of p' (parseQUICAddr addr) = Some \<lparr>pe_qconn = sc_qconn sc, pe_udp = sc_local sc\<rparr>)"
proof -
  obtain ok p1 tr1 where d: "pool_drop dead (parseQUICAddr addr) p = (ok, p1, tr1)" by (metis surj_pair)
  obtain r1 p2 tr2 where k: "pool_make net c (parseQUICAddr addr) ok p1 = (r1, p2, tr2)" by (metis surj_pair)
  note dok = pool_drop_ok [OF d assms(2)]
  have "ok = None \<Longrightarrow> map_of p1 (parseQUICAddr addr) = None" using dok by simp
  note kok = pool_make_ok [OF k conjunct1 [OF dok] this]
  have tr1: "list_all (dialled_with c) tr1"
    using d by (auto simp: pool_drop_def split: option.splits if_splits)
  have entry: "r1 = Inr e \<Longrightarrow> map_of p2 (parseQUICAddr addr) = Some e" for e
  proof (cases ok)
    case (Some e1)
    moreover assume "r1 = Inr e"
    ultimately have "e1 = e" "p2 = p1" using k by (auto simp: pool_make_def)
    with Some dok show ?thesis by simp
  next
    case None
    moreover assume "r1 = Inr e"
    ultimately show ?thesis using kok by simp
  qed
  show ?thesis
  proof (cases r1)
    case (Inl e)
    with assms(1) d k have "r = Inl e" "p' = p2" "tr = tr1 @ tr2" by (auto simp: pool_Dial_stages)
    with kok tr1 show ?thesis by simp
  next
    case (Inr en)
    then show ?thesis
      using assms(1) d k kok tr1 entry [OF Inr]
      by (auto simp: pool_Dial_stages split: sum.splits)
  qed
qed

lemma pool_Close_loop_ok:
  "\<forall>x \<in> set es. map_of p (fst x) = Some (snd x) \<Longrightarrow> distinct (map fst es) \<Longrightarrow> pool_ok p m \<Longrightarrow>
     pool_Close_loop close_q text_of es p errs tr0 = (errs', p', tr') \<Longrightarrow>
     \<exists>tr. tr' = tr0 @ tr \<and> pool_ok p' (fold udp_step tr m) \<and>
       set (map fst p') = set (map fst p) - set (map fst es) \<and>
       length (filter is_qclose tr) = length es \<and> list_all (\<lambda>e. \<not> is_dial e) tr \<and>
       errs' = errs @ List.map_filter (\<lambda>x. map_option text_of (close_q (pe_qconn (snd x)))) es"
proof (induction es arbitrary: p m errs tr0)
  case Nil
  then show ?case by (auto simp: List.map_filter_def)
next
  case (Cons x es)
  obtain a e where x: "x = (a, e)" by (cases x)
  let ?p1 = "AList.delete a p"
  let ?m1 = "m - {#pe_udp e#}"
  have a: "map_of p a = Some e" using Cons.prems(1) x by simp
  have d: "distinct (map fst p)" using Cons.prems(3) by (simp add: pool_ok_def)
  have h1: "\<forall>y \<in> set es. map_of ?p1 (fst y) = Some (snd y)"
    using Cons.prems(1,2) x by (auto simp: AList.delete_conv')
  have h2: "pool_ok ?p1 ?m1"
    using Cons.prems(3) entry_udps_delete [OF d a] by (simp add: pool_ok_def AList.distinct_delete)
  have h3: "pool_Close_loop close_q text_of es ?p1
      (case close_q (pe_qconn e) of None \<Rightarrow> errs | Some err \<Rightarrow> errs @ [text_of err])
      (tr0 @ [CloseWithError (pe_qconn e) ''pool closed'', CloseUDP (pe_udp e)]) = (errs', p', tr')"
    using Cons.prems(4) x by (simp add: Let_def)
  have h0: "distinct (map fst es)" using Cons.prems(2) by simp
  from Cons.IH [OF h1 h0 h2 h3] obtain tr where tr: "tr' = (tr0 @ [CloseWithError (pe_qconn e) ''pool closed'', CloseUDP (pe_udp e)]) @ tr"
      "pool_ok p' (fold udp_step tr ?m1)" "set (map fst p') = set (map fst ?p1) - set (map fst es)"
      "length (filter is_qclose tr) = length es" "list_all (\<lambda>e. \<not> is_dial e) tr"
      "errs' = (case close_q (pe_qconn e) of None \<Rightarrow> errs | Some err \<Rightarrow> errs @ [text_of err]) @
         List.map_filter (\<lambda>x. map_option text_of (close_q (pe_qconn (snd x)))) es"
    by blast
  let ?tr = "[CloseWithError (pe_qconn e) ''pool closed'', CloseUDP (pe_udp e)] @ tr"
  have "set (map fst p') = set (map fst p) - set (map fst (x # es))"
    unfolding tr(3) by (auto simp: x AList.delete_eq)
  moreover have "errs' = errs @ List.map_filter (\<lambda>x. map_option text_of (close_q (pe_qconn (snd x)))) (x # es)"
    unfolding tr(6) by (simp add: x List.map_filter_def split: option.split)
  ultimately show ?case
    using tr(1,2,4,5) by (intro exI [of _ ?tr]) simp
qed

section \<open>The pool over time\<close>

inductive pool_reach :: "connPool \<Rightarrow> quic_event list \<Rightarrow> bool" where
  pool_new: "pool_reach NewConnectionPool []"
| pool_dialled: "pool_reach p tr \<Longrightarrow> pool_Dial net dead c addr p = (r, p', tr') \<Longrightarrow> pool_reach p' (tr @ tr')"
| pool_closed: "pool_reach p tr \<Longrightarrow> pool_Close close_q text_of p = (e, p', tr') \<Longrightarrow> pool_reach p' (tr @ tr')"

lemma pool_Close_ok:
  assumes "pool_ok p m" and "pool_Close close_q text_of p = (e, p', tr)"
  shows "p' = [] \<and> fold udp_step tr m = {#} \<and> length (filter is_qclose tr) = length p \<and>
    (e = None) = list_all (\<lambda>x. close_q (pe_qconn (snd x)) = None) p"
proof -
  from assms(2) obtain errs where l: "pool_Close_loop close_q text_of p p [] [] = (errs, p', tr)"
      and e: "(e = None) = (errs = [])"
    by (auto simp: pool_Close_def split: prod.splits if_splits)
  from assms(1) have d: "distinct (map fst p)" by (simp add: pool_ok_def)
  then have "\<forall>x \<in> set p. map_of p (fst x) = Some (snd x)" by simp
  from pool_Close_loop_ok [OF this d assms(1) l] obtain tr2 where tr2: "tr = tr2" "pool_ok p' (fold udp_step tr2 m)"
      "set (map fst p') = set (map fst p) - set (map fst p)" "length (filter is_qclose tr2) = length p"
      "errs = List.map_filter (\<lambda>x. map_option text_of (close_q (pe_qconn (snd x)))) p"
    by auto
  from tr2(3) have "p' = []" by simp
  moreover have "(errs = []) = list_all (\<lambda>x. close_q (pe_qconn (snd x)) = None) p"
    unfolding tr2(5) by (auto simp: List.map_filter_def list_all_iff filter_empty_conv)
  ultimately show ?thesis using tr2 e by (simp add: pool_ok_def entry_udps_def)
qed

lemma pool_reach_ok: "pool_reach p tr \<Longrightarrow> pool_ok p (open_udps tr)"
proof (induction rule: pool_reach.induct)
  case pool_new
  show ?case by (simp add: pool_ok_def NewConnectionPool_def open_udps_def entry_udps_def)
next
  case (pool_dialled p tr net dead c addr r p' tr')
  from pool_Dial_ok [OF pool_dialled.hyps(2) pool_dialled.IH] show ?case by (simp add: open_udps_def)
next
  case (pool_closed p tr close_q text_of e p' tr')
  from pool_Close_ok [OF pool_closed.IH pool_closed.hyps(2)] show ?case
    by (simp add: open_udps_def pool_ok_def entry_udps_def)
qed

section \<open>Properties\<close>


text \<open>
  C31: The UDP sockets a pool has opened and not closed are exactly those of its entries, one
  for each, whatever was dialled, failed or died, and however often; no address has two entries.
\<close>

theorem pool_udp_accounting:
  assumes "pool_reach p tr"
  shows "open_udps tr = image_mset (\<lambda>x. pe_udp (snd x)) (mset p) \<and> size (open_udps tr) = pool_Len p \<and>
    distinct (map fst p)"
  using pool_reach_ok [OF assms] by (simp add: pool_ok_def entry_udps_def pool_Len_def)

definition demo_dial :: dial_net where
  "demo_dial = \<lparr>dl_resolve = Inr ''a'', dl_udp = Inr 1, dl_early = Inr 2, dl_handshake = None, dl_stream = Inr 3,
                dl_next = Inl EOF, dl_stream2 = Inl EOF\<rparr>"

definition demo_ctx :: gocontext where
  "demo_ctx = \<lparr>ctx_err = None, ctx_values = []\<rparr>"

lemma demo_pool_reach:
  "pool_reach [(''h:1'', \<lparr>pe_qconn = 2, pe_udp = 1\<rparr>)]
     [ListenUDP 1, DialQUIC 2 InsecureClientTLSConfig defaultQUICConfig, OpenStream 2 3]"
proof -
  have "pool_Dial demo_dial (\<lambda>_. False) demo_ctx ''quic://h:1'' NewConnectionPool =
      (Inr \<lparr>sc_stream = 3, sc_qconn = 2, sc_transport = None, sc_local = 1\<rparr>, [(''h:1'', \<lparr>pe_qconn = 2, pe_udp = 1\<rparr>)],
       [ListenUDP 1, DialQUIC 2 InsecureClientTLSConfig defaultQUICConfig, OpenStream 2 3])"
    by (simp add: pool_Dial_def demo_dial_def demo_ctx_def NewConnectionPool_def parseQUICAddr_def Let_def
        client_tls_def clientTLSFromContext_def Value_def with_tracer_def qlogDirFromContext_def)
  from pool_dialled [OF pool_new this] show ?thesis by simp
qed

theorem pool_udp_accounting_witness:
  "open_udps [ListenUDP 1, DialQUIC 2 InsecureClientTLSConfig defaultQUICConfig, OpenStream 2 3] = {#1#}"
  using pool_udp_accounting [OF demo_pool_reach] by simp

text \<open>
  Sockets that share a pool share connections: while the connection to an address lives,
  dialling the address again, with or without its scheme, opens a stream on that connection and
  nothing else; and a dial that succeeds leaves its connection in the pool under the address.
\<close>

theorem pool_reuse:
  assumes "pool_reach p tr" and "map_of p addr = Some e" and "\<not> dead (pe_qconn e)"
    and "dl_stream net = Inr s" and "parseQUICAddr addr0 = addr"
  shows "pool_Dial net dead c addr0 p =
      (Inr \<lparr>sc_stream = s, sc_qconn = pe_qconn e, sc_transport = None, sc_local = pe_udp e\<rparr>, p,
       [OpenStream (pe_qconn e) s]) \<and>
    pool_LocalAddr addr p = Some (pe_udp e) \<and>
    parseQUICAddr (''quic://'' @ x) = x \<and>
    (\<forall>net2 dead2 c2 a r p2 tr2. pool_Dial net2 dead2 c2 a p = (Inr r, p2, tr2) \<longrightarrow>
       map_of p2 (parseQUICAddr a) = Some \<lparr>pe_qconn = sc_qconn r, pe_udp = sc_local r\<rparr>)"
proof -
  have "pool_Dial net dead c addr0 p =
      (Inr \<lparr>sc_stream = s, sc_qconn = pe_qconn e, sc_transport = None, sc_local = pe_udp e\<rparr>, p,
       [OpenStream (pe_qconn e) s])"
    using assms(2-5) by (simp add: pool_Dial_stages pool_drop_def pool_make_def)
  moreover have "\<forall>net2 dead2 c2 a r p2 tr2. pool_Dial net2 dead2 c2 a p = (Inr r, p2, tr2) \<longrightarrow>
       map_of p2 (parseQUICAddr a) = Some \<lparr>pe_qconn = sc_qconn r, pe_udp = sc_local r\<rparr>"
    using pool_Dial_ok [OF _ pool_reach_ok [OF assms(1)]] by blast
  ultimately show ?thesis using assms(2) by (simp add: pool_LocalAddr_def parseQUICAddr_def)
qed

theorem pool_reuse_witness:
  "pool_Dial (demo_dial\<lparr>dl_stream := Inr 4\<rparr>) (\<lambda>_. False) demo_ctx ''udp://h:1'' [(''h:1'', \<lparr>pe_qconn = 2, pe_udp = 1\<rparr>)] =
     (Inr \<lparr>sc_stream = 4, sc_qconn = 2, sc_transport = None, sc_local = 1\<rparr>, [(''h:1'', \<lparr>pe_qconn = 2, pe_udp = 1\<rparr>)],
      [OpenStream 2 4])"
  using pool_reuse [OF demo_pool_reach, of "''h:1''" "\<lparr>pe_qconn = 2, pe_udp = 1\<rparr>" "\<lambda>_. False"
      "demo_dial\<lparr>dl_stream := Inr 4\<rparr>" 4 "''udp://h:1''"]
  by (simp add: parseQUICAddr_def)

text \<open>
  Closing a pool tells each of its connections to close, closes all its UDP sockets and
  empties it, and returns an error exactly when closing some connection does.
\<close>

theorem pool_Close_all:
  assumes "pool_reach p tr" and "pool_Close close_q text_of p = (e, p', tr')"
  shows "p' = [] \<and> open_udps (tr @ tr') = {#} \<and> length (filter is_qclose tr') = pool_Len p \<and>
    (e = None) = list_all (\<lambda>x. close_q (pe_qconn (snd x)) = None) p"
  using pool_Close_ok [OF pool_reach_ok [OF assms(1)] assms(2)]
  by (simp add: open_udps_def pool_Len_def)

theorem pool_Close_all_witness:
  "fst (snd (pool_Close (\<lambda>_. None) (\<lambda>_. []) [(''h:1'', \<lparr>pe_qconn = 2, pe_udp = 1\<rparr>)])) = []"
proof -
  obtain e p' tr where c: "pool_Close (\<lambda>_. None) (\<lambda>_. []) [(''h:1'', \<lparr>pe_qconn = 2, pe_udp = 1\<rparr>)] = (e, p', tr)"
    by (metis surj_pair)
  from pool_Close_all [OF demo_pool_reach c] c show ?thesis by simp
qed

text \<open>The life of a listener.\<close>

inductive listener_reach :: "quicListener \<Rightarrow> bool" where
  listening: "quicTransport_Listen generate resolve udp listen c addr = (Inr l, tr) \<Longrightarrow> listener_reach l"
| looped: "listener_reach l \<Longrightarrow> listener_reach (acceptLoop r l)"
| handed: "listener_reach l \<Longrightarrow> handleConn_hand pick sc l = Returns (b, ss, l') \<Longrightarrow> listener_reach l'"
| accepted: "listener_reach l \<Longrightarrow> quicListener_Accept pick l = Returns (r, l') \<Longrightarrow> listener_reach l'"
| closed_l: "listener_reach l \<Longrightarrow> quicListener_Close close_ql l = Some (e, l', tr) \<Longrightarrow> listener_reach l'"

definition listener_ok :: "quicListener \<Rightarrow> bool" where
  "listener_ok l = (l_once l = chan_closed (closeCh l) \<and> buf (closeCh l) = [] \<and> \<not> chan_closed (acceptCh l) \<and>
                    length (buf (acceptCh l)) \<le> 16 \<and> cap (acceptCh l) = 16)"

lemma handleConn_hand_Returns:
  "handleConn_hand pick sc l = Returns (b, ss, l') \<Longrightarrow>
     if b then chan_send sc (acceptCh l) = Sent (acceptCh l') \<and> ss = [] \<and> l' = l\<lparr>acceptCh := acceptCh l'\<rparr>
     else ss = [sc_stream sc] \<and> l' = l \<and> is_closing l"
  unfolding handleConn_hand_def
  by (drule go_select_Returns) (auto split: send_result.splits if_splits)

lemma quicListener_Accept_Returns:
  "quicListener_Accept pick l = Returns (r, l') \<Longrightarrow>
     (\<exists>conn. r = Inr conn \<and> chan_recv (acceptCh l) = Received conn (acceptCh l') \<and> l' = l\<lparr>acceptCh := acceptCh l'\<rparr>)
     \<or> (l' = l \<and> (\<exists>e. r = Inl e))"
  unfolding quicListener_Accept_def
  by (drule go_select_Returns) (auto split: recv_result.splits if_splits)

lemma listener_reach_ok: "listener_reach l \<Longrightarrow> listener_ok l"
proof (induction rule: listener_reach.induct)
  case (listening generate resolve udp listen c addr l tr)
  then show ?case
    by (auto simp: quicTransport_Listen_def Let_def listener_ok_def make_chan_def
        split: sum.splits option.splits)
next
  case (looped l r)
  then show ?case by (auto simp: acceptLoop_def listener_ok_def split: sum.splits)
next
  case (handed l pick sc b ss l')
  show ?case
  proof (cases b)
    case True
    with handleConn_hand_Returns [OF handed.hyps(2)] obtain ch where
      "chan_send sc (acceptCh l) = Sent ch" "l' = l\<lparr>acceptCh := ch\<rparr>" by auto
    with handed.IH show ?thesis by (auto simp: listener_ok_def chan_send_def split: if_splits)
  next
    case False
    with handleConn_hand_Returns [OF handed.hyps(2)] handed.IH show ?thesis by simp
  qed
next
  case (accepted l pick r l')
  from quicListener_Accept_Returns [OF accepted.hyps(2)] show ?case
  proof
    assume "\<exists>conn. r = Inr conn \<and> chan_recv (acceptCh l) = Received conn (acceptCh l') \<and> l' = l\<lparr>acceptCh := acceptCh l'\<rparr>"
    then obtain conn ch where "chan_recv (acceptCh l) = Received conn ch" "l' = l\<lparr>acceptCh := ch\<rparr>" by blast
    with accepted.IH show ?thesis by (auto simp: listener_ok_def chan_recv_def split: list.splits if_splits)
  qed (use accepted.IH in simp)
next
  case (closed_l l close_ql e l' tr)
  then show ?case by (auto simp: quicListener_Close_def Let_def listener_ok_def chan_close_def split: if_splits)
qed

text \<open>
  However a listener has been used, closing it does not panic, and once it is closed:
  closing it again only closes the UDP socket again, \<^verbatim>\<open>Accept\<close> never waits, no goroutine is stuck
  handing a stream over, each stream that is not handed over is closed, and no new connection
  or stream is taken on.
\<close>

theorem listener_closed:
  assumes "listener_reach l"
  shows "\<exists>l'. quicListener_Close close_ql l = Some (close_ql, l', [CloseListener, CloseUDP (l_udp l)]) \<and>
    quicListener_Close close_ql2 l' = Some (close_ql2, l', [CloseListener, CloseUDP (l_udp l)]) \<and>
    quicListener_Accept pick l' \<noteq> Waits \<and> quicListener_Accept pick l' \<noteq> Panics \<and>
    handleConn_accept accepted q l' = None \<and> l_listening (acceptLoop r l') = False \<and>
    (\<exists>goes_on closed1 l''. handleConn_hand pick sc l' = Returns (goes_on, closed1, l'') \<and>
       (if goes_on then buf (acceptCh l'') = buf (acceptCh l') @ [sc] \<and> closed1 = []
        else closed1 = [sc_stream sc] \<and> l'' = l'))"
proof -
  from listener_reach_ok [OF assms] have ok: "listener_ok l" .
  let ?l' = "if l_once l then l else l\<lparr>l_once := True, closeCh := chan_close (closeCh l)\<rparr>"
  have close: "quicListener_Close close_ql l = Some (close_ql, ?l', [CloseListener, CloseUDP (l_udp l)])"
    using ok by (simp add: quicListener_Close_def listener_ok_def)
  have again: "quicListener_Close close_ql2 ?l' = Some (close_ql2, ?l', [CloseListener, CloseUDP (l_udp l)])"
    by (simp add: quicListener_Close_def)
  have cl: "is_closing ?l'" and open1: "\<not> chan_closed (acceptCh ?l')"
    using ok by (simp_all add: is_closing_def listener_ok_def chan_recv_def chan_close_def)
  have acc: "quicListener_Accept pick ?l' \<noteq> Waits \<and> quicListener_Accept pick ?l' \<noteq> Panics"
    using cl by (simp add: quicListener_Accept_def go_select_two split: recv_result.split)
  have "chan_send sc (acceptCh ?l') \<noteq> SendPanics"
    using open1 by (simp add: chan_send_def)
  then have hand: "handleConn_hand pick sc ?l' \<noteq> Waits \<and> handleConn_hand pick sc ?l' \<noteq> Panics"
    unfolding handleConn_hand_def go_select_two
    using cl by (cases "chan_send sc (acceptCh ?l')"; cases "even pick") simp_all
  then obtain goes_on closed1 l'' where h: "handleConn_hand pick sc ?l' = Returns (goes_on, closed1, l'')"
    by (cases "handleConn_hand pick sc ?l'") auto
  have "if goes_on then buf (acceptCh l'') = buf (acceptCh ?l') @ [sc] \<and> closed1 = []
        else closed1 = [sc_stream sc] \<and> l'' = ?l'"
    using handleConn_hand_Returns [OF h] by (auto dest!: chan_send_buf split: if_splits)
  with close again acc h cl show ?thesis
    by (intro exI [of _ ?l']) (auto simp: handleConn_accept_def acceptLoop_def)
qed

theorem listener_closed_witness:
  "\<exists>l l'. listener_reach l \<and> quicListener_Close None l = Some (None, l', [CloseListener, CloseUDP 5]) \<and>
     quicListener_Accept 0 l' \<noteq> Waits"
proof -
  let ?l = "\<lparr>l_udp = 5, acceptCh = make_chan 16, closeCh = make_chan 0, l_once = False,
             l_listening = True, l_handlers = []\<rparr>"
  have "quicTransport_Listen (\<lambda>_. empty_tls) (Inr ''a'') (Inr 5) None demo_ctx ''a'' =
      (Inr ?l, [ListenUDP 5, ListenQUIC empty_tls defaultServerQUICConfig])"
    by (simp add: quicTransport_Listen_def demo_ctx_def serverTLSFromContext_def Value_def with_tracer_def
        qlogDirFromContext_def Let_def)
  then have "listener_reach ?l" by (rule listening)
  moreover from listener_closed [OF this, of None None 0 "Inr 0" 0 "Inr 0" "\<lparr>sc_stream = 0, sc_qconn = 0, sc_transport = None, sc_local = 0\<rparr>"]
  obtain l' where
    "quicListener_Close None ?l = Some (None, l', [CloseListener, CloseUDP 5])" "quicListener_Accept 0 l' \<noteq> Waits"
    by auto
  ultimately show ?thesis by blast
qed

end
