(* ===== verification/Datagram.thy ===== *)
theory Datagram
  imports Socket Quic
begin

text \<open>
  \<^verbatim>\<open>datagram.go\<close>: the publisher and the subscriber over unreliable datagrams, with their
  subscription commands on a reliable control stream. The formats of datagrams and commands are
  in the theory \<open>Wire\<close>.
\<close>

section \<open>Peers\<close>

record dgpeer =
  dg_qconn :: qconn_id
  dg_topics :: strset

fun prefix_loop :: "strset \<Rightarrow> string \<Rightarrow> bool" where
  "prefix_loop [] topic = False"
| "prefix_loop (k # ks) topic = (if k = '''' \<or> prefix k topic then True else prefix_loop ks topic)"

definition dgpeer_subscribed :: "dgpeer \<Rightarrow> string \<Rightarrow> bool" where
  "dgpeer_subscribed p topic = prefix_loop (dg_topics p) topic"

lemma prefix_loop_iff: "prefix_loop ks topic \<longleftrightarrow> (\<exists>k \<in> set ks. prefix k topic)"
  by (induction ks) auto

interpretation peer_topics: topic_filter dgpeer_subscribed "\<lambda>p. set (dg_topics p)"
  by unfold_locales (simp add: dgpeer_subscribed_def prefix_loop_iff)

section \<open>The publisher\<close>

text \<open>A \<^verbatim>\<open>*dgpeer\<close> is the number of a cell of \<open>peers\<close>.\<close>

record dpub_socket =
  dp_ctx :: gocontext
  peerList :: "nat list"
  peers :: "nat \<Rightarrow> dgpeer"
  dp_ql :: bool
  dp_udp :: "udp_id option"
  dp_addr :: "udp_id option"
  dp_props :: "string \<Rightarrow> go_any option"
  dp_log :: "string option"

definition fresh_ctx :: "gocontext option \<Rightarrow> gocontext" where
  "fresh_ctx c = (case c of None \<Rightarrow> \<lparr>ctx_err = None, ctx_values = []\<rparr> | Some k \<Rightarrow> k)"

text \<open>The options are applied to a temporary socket, of which the logger is kept.\<close>

definition NewDatagramPub ::
    "gocontext option \<Rightarrow> ((unit, 't) socket \<Rightarrow> (unit, 't) socket) list \<Rightarrow> dpub_socket" where
  "NewDatagramPub c opts =
     (let tmp = newSocket (Some (fresh_ctx c)) DatagramPub opts () in
      \<lparr>dp_ctx = fresh_ctx c, peerList = [], peers = (\<lambda>_. \<lparr>dg_qconn = 0, dg_topics = []\<rparr>), dp_ql = False,
       dp_udp = None, dp_addr = None, dp_props = Map.empty, dp_log = sck_log tmp\<rparr>)"

definition dpub_Listen ::
    "tls_config \<Rightarrow> go_error + string \<Rightarrow> go_error + udp_id \<Rightarrow> go_error option \<Rightarrow> string \<Rightarrow> dpub_socket
       \<Rightarrow> go_error option \<times> dpub_socket \<times> quic_event list" where
  "dpub_Listen generated resolve udp listen ep1 s =
     (case splitAddr ep1 of
        Inl e \<Rightarrow> (Some e, s, [])
      | Inr (_, addr) \<Rightarrow>
     (case resolve of
        Inl e \<Rightarrow> (Some (Wrapf ''quicmq: datagram pub resolve %q: %w'' [Str ep1] e), s, [])
      | Inr udpAddr \<Rightarrow>
     (case udp of
        Inl e \<Rightarrow> (Some (Wrapf ''quicmq: datagram pub udp listen %q: %w'' [Str ep1] e), s\<lparr>dp_udp := None\<rparr>, [])
      | Inr u \<Rightarrow>
          let s1 = s\<lparr>dp_udp := Some u\<rparr> in
     (case listen of
        Some e \<Rightarrow>
          (Some (Wrapf ''quicmq: datagram pub quic listen: %w'' [] e), s1\<lparr>dp_ql := False\<rparr>,
           [ListenUDP u, CloseUDP u])
      | None \<Rightarrow>
          (None, s1\<lparr>dp_ql := True, dp_addr := Some u\<rparr>,
           [ListenUDP u, ListenQUIC generated datagramServerQUICConfig])))))"

text \<open>One round of \<^verbatim>\<open>acceptLoop\<close>, for the new peer object \<open>i\<close>.\<close>

definition dpub_accept :: "go_error + qconn_id \<Rightarrow> nat \<Rightarrow> dpub_socket \<Rightarrow> dpub_socket" where
  "dpub_accept accepted i s =
     (case accepted of
        Inl e \<Rightarrow> s
      | Inr q \<Rightarrow>
          s\<lparr>peers := (peers s)(i := \<lparr>dg_qconn = q, dg_topics = []\<rparr>), peerList := peerList s @ [i]\<rparr>)"

text \<open>The deferred call of \<^verbatim>\<open>handlePeer\<close>, and its loop: a command, or the end of the stream.\<close>

definition handlePeer_leave :: "nat \<Rightarrow> dpub_socket \<Rightarrow> dpub_socket" where
  "handlePeer_leave i s = s\<lparr>peerList := rm_from i (peerList s)\<rparr>"

definition handlePeer_round :: "nat \<Rightarrow> reader \<Rightarrow> dpub_socket \<Rightarrow> bool \<times> reader \<times> dpub_socket" where
  "handlePeer_round i stream s =
     (case readSubCmd stream of
        (Inl e, r) \<Rightarrow> (False, r, handlePeer_leave i s)
      | (Inr (sub, topic), r) \<Rightarrow>
          let p = peers s i;
              p1 = (if sub then p\<lparr>dg_topics := strset_put topic (dg_topics p)\<rparr>
                    else p\<lparr>dg_topics := strset_del topic (dg_topics p)\<rparr>) in
          (True, r, s\<lparr>peers := (peers s)(i := p1)\<rparr>))"

definition handlePeer_start :: "go_error + reader \<Rightarrow> nat \<Rightarrow> dpub_socket \<Rightarrow> reader option \<times> dpub_socket" where
  "handlePeer_start accepted i s =
     (case accepted of Inl e \<Rightarrow> (None, handlePeer_leave i s) | Inr stream \<Rightarrow> (Some stream, s))"

text \<open>
  \<^verbatim>\<open>Send\<close>: \<open>supports\<close> and \<open>send\<close> are what the library says of a connection and of a datagram sent
  on it. The loop collects the first error, the peers whose send failed, and what was sent.
\<close>

fun dpub_send_loop ::
    "(qconn_id \<Rightarrow> bool) \<Rightarrow> (qconn_id \<Rightarrow> bytes \<Rightarrow> go_error option) \<Rightarrow> (nat \<Rightarrow> dgpeer) \<Rightarrow> string \<Rightarrow> bytes
       \<Rightarrow> nat list \<Rightarrow> go_error option \<Rightarrow> nat list \<Rightarrow> (qconn_id \<times> bytes) list
       \<Rightarrow> go_error option \<times> nat list \<times> (qconn_id \<times> bytes) list" where
  "dpub_send_loop supports send ps topic data [] firstErr dead tr = (firstErr, dead, tr)"
| "dpub_send_loop supports send ps topic data (i # rest) firstErr dead tr =
     (let peer = ps i; q = dg_qconn peer in
      if \<not> dgpeer_subscribed peer topic
      then dpub_send_loop supports send ps topic data rest firstErr dead tr
      else if \<not> supports q then dpub_send_loop supports send ps topic data rest firstErr dead tr
      else case send q data of
          Some err \<Rightarrow>
            dpub_send_loop supports send ps topic data rest (first_err firstErr (Some err)) (dead @ [i])
              (tr @ [(q, data)])
        | None \<Rightarrow> dpub_send_loop supports send ps topic data rest firstErr dead (tr @ [(q, data)]))"

fun remove_dead :: "nat list \<Rightarrow> nat list \<Rightarrow> nat list" where
  "remove_dead [] pl = pl"
| "remove_dead (d # ds) pl = remove_dead ds (rm_from d pl)"

definition dpub_Send ::
    "(qconn_id \<Rightarrow> bool) \<Rightarrow> (qconn_id \<Rightarrow> bytes \<Rightarrow> go_error option) \<Rightarrow> msg \<Rightarrow> dpub_socket
       \<Rightarrow> go_error option \<times> dpub_socket \<times> (qconn_id \<times> bytes) list" where
  "dpub_Send supports send m s =
     (if length (Frames m) = 0 then (None, s, [])
      else let topic = string_of_bytes (Frames m ! 0); data = serializeMsgDatagram m in
           case dpub_send_loop supports send (peers s) topic data (peerList s) None [] [] of
             (firstErr, dead, tr) \<Rightarrow>
               (firstErr,
                if length dead > 0 then s\<lparr>peerList := remove_dead dead (peerList s)\<rparr> else s, tr))"

definition dpub_SendMulti ::
    "(qconn_id \<Rightarrow> bool) \<Rightarrow> (qconn_id \<Rightarrow> bytes \<Rightarrow> go_error option) \<Rightarrow> msg \<Rightarrow> dpub_socket
       \<Rightarrow> go_error option \<times> dpub_socket \<times> (qconn_id \<times> bytes) list" where
  "dpub_SendMulti supports send m s = dpub_Send supports send (m\<lparr>multipart := True\<rparr>) s"

definition dpub_Recv :: "msg \<times> go_error option" where
  "dpub_Recv = (empty_msg, Some (Errorf ''quicmq: DatagramPub cannot Recv'' []))"

definition dpub_Dial :: "string \<Rightarrow> go_error option" where
  "dpub_Dial ep1 = Some (Errorf ''quicmq: DatagramPub cannot Dial'' [])"

definition dpub_Type :: socket_type where "dpub_Type = DatagramPub"

definition dpub_Addr :: "dpub_socket \<Rightarrow> udp_id option" where "dpub_Addr s = dp_addr s"

definition dpub_GetOption :: "string \<Rightarrow> dpub_socket \<Rightarrow> go_any option \<times> go_error option" where
  "dpub_GetOption name s =
     (case dp_props s name of None \<Rightarrow> (None, Some ErrBadProperty) | Some v \<Rightarrow> (Some v, None))"

definition dpub_SetOption :: "string \<Rightarrow> go_any \<Rightarrow> dpub_socket \<Rightarrow> go_error option \<times> dpub_socket" where
  "dpub_SetOption name v s = (None, s\<lparr>dp_props := (dp_props s)(name := Some v)\<rparr>)"

definition cancel :: "gocontext \<Rightarrow> gocontext" where
  "cancel c = (if ctx_err c = None then c\<lparr>ctx_err := Some CtxCanceled\<rparr> else c)"

definition dpub_Close :: "dpub_socket \<Rightarrow> go_error option \<times> dpub_socket \<times> quic_event list" where
  "dpub_Close s =
     (None, s\<lparr>dp_ctx := cancel (dp_ctx s)\<rparr>,
      (if dp_ql s then [CloseListener] else []) @ (case dp_udp s of None \<Rightarrow> [] | Some u \<Rightarrow> [CloseUDP u]))"

section \<open>The subscriber\<close>

text \<open>\<open>ds_ctrl\<close> is the control stream, as the bytes written to it.\<close>

record dsub_socket =
  ds_ctx :: gocontext
  ds_topics :: strset
  ds_qconn :: "qconn_id option"
  ds_ctrl :: "writer option"
  ds_udp :: "udp_id option"
  ds_timeout :: duration
  ds_props :: "string \<Rightarrow> go_any option"
  ds_log :: "string option"

definition NewDatagramSub ::
    "gocontext option \<Rightarrow> ((unit, 't) socket \<Rightarrow> (unit, 't) socket) list \<Rightarrow> dsub_socket" where
  "NewDatagramSub c opts =
     (let tmp = newSocket (Some (fresh_ctx c)) DatagramSub opts () in
      \<lparr>ds_ctx = fresh_ctx c, ds_topics = [], ds_qconn = None, ds_ctrl = None, ds_udp = None,
       ds_timeout = timeout tmp, ds_props = Map.empty, ds_log = sck_log tmp\<rparr>)"

text \<open>The results of the calls \<^verbatim>\<open>Dial\<close> makes, in order; a stream is opened as a writer.\<close>

record dsub_net =
  dn_resolve :: "go_error + string"
  dn_udp :: "go_error + udp_id"
  dn_dial :: "go_error + qconn_id"
  dn_supports :: bool
  dn_stream :: "go_error + writer"

fun resubscribe_loop :: "strset \<Rightarrow> writer \<Rightarrow> writer" where
  "resubscribe_loop [] w = w"
| "resubscribe_loop (topic # rest) w = resubscribe_loop rest (snd (writeSubCmd w True topic))"

definition dsub_Dial ::
    "dsub_net \<Rightarrow> string \<Rightarrow> dsub_socket \<Rightarrow> go_error option \<times> dsub_socket \<times> quic_event list" where
  "dsub_Dial net ep1 s =
     (case splitAddr ep1 of
        Inl e \<Rightarrow> (Some e, s, [])
      | Inr (_, addr) \<Rightarrow>
     (case dn_resolve net of
        Inl e \<Rightarrow> (Some (Wrapf ''quicmq: datagram sub resolve %q: %w'' [Str ep1] e), s, [])
      | Inr udpAddr \<Rightarrow>
     (case dn_udp net of
        Inl e \<Rightarrow> (Some (Wrapf ''quicmq: datagram sub udp: %w'' [] e), s\<lparr>ds_udp := None\<rparr>, [])
      | Inr u \<Rightarrow>
          let s1 = s\<lparr>ds_udp := Some u\<rparr> in
     (case dn_dial net of
        Inl e \<Rightarrow>
          (Some (Wrapf ''quicmq: datagram sub dial %q: %w'' [Str ep1] e), s1, [ListenUDP u, CloseUDP u])
      | Inr q \<Rightarrow>
          let tr = [ListenUDP u, DialQUIC q InsecureClientTLSConfig datagramClientQUICConfig] in
          if \<not> dn_supports net
          then (Some (Errorf ''quicmq: server at %q does not support QUIC datagrams'' [Str ep1]), s1,
                tr @ [CloseWithError q ''no datagram support'', CloseUDP u])
          else (case dn_stream net of
                  Inl e \<Rightarrow>
                    (Some (Wrapf ''quicmq: datagram sub control stream: %w'' [] e), s1,
                     tr @ [CloseWithError q ''control stream open failed'', CloseUDP u])
                | Inr w \<Rightarrow>
                    (None, s1\<lparr>ds_qconn := Some q, ds_ctrl := Some (resubscribe_loop (ds_topics s1) w)\<rparr>, tr))))))"

text \<open>\<open>None\<close> is the panic of \<^verbatim>\<open>value.(string)\<close>.\<close>

definition dsub_command :: "bool \<Rightarrow> string \<Rightarrow> dsub_socket \<Rightarrow> go_error option \<times> dsub_socket" where
  "dsub_command sub topic s =
     (case ds_ctrl s of
        None \<Rightarrow> (None, s)
      | Some w \<Rightarrow> (case writeSubCmd w sub topic of (e, w1) \<Rightarrow> (e, s\<lparr>ds_ctrl := Some w1\<rparr>)))"

definition dsub_SetOption :: "string \<Rightarrow> go_any \<Rightarrow> dsub_socket \<Rightarrow> (go_error option \<times> dsub_socket) option" where
  "dsub_SetOption name v s =
     (if name = OptionSubscribe
      then (case v of
              AnyString topic \<Rightarrow>
                Some (dsub_command True topic (s\<lparr>ds_topics := strset_put topic (ds_topics s)\<rparr>))
            | _ \<Rightarrow> None)
      else if name = OptionUnsubscribe
      then (case v of
              AnyString topic \<Rightarrow>
                Some (dsub_command False topic (s\<lparr>ds_topics := strset_del topic (ds_topics s)\<rparr>))
            | _ \<Rightarrow> None)
      else Some (None, s\<lparr>ds_props := (ds_props s)(name := Some v)\<rparr>))"

definition matchesTopic :: "msg \<Rightarrow> dsub_socket \<Rightarrow> bool" where
  "matchesTopic m s =
     (if length (Frames m) = 0 then False
      else prefix_loop (ds_topics s) (string_of_bytes (Frames m ! 0)))"

text \<open>
  \<^verbatim>\<open>Recv\<close>: the datagrams that arrive before the context is done, and the error of the receive
  that fails then. A datagram that is malformed or does not match is dropped.
\<close>

fun dsub_recv_loop :: "dsub_socket \<Rightarrow> bytes list \<Rightarrow> go_error \<Rightarrow> (msg \<times> go_error option) \<times> bytes list" where
  "dsub_recv_loop s [] e = ((empty_msg, Some e), [])"
| "dsub_recv_loop s (data # rest) e =
     (case deserializeMsgDatagram data of
        (m, Some err) \<Rightarrow> dsub_recv_loop s rest e
      | (m, None) \<Rightarrow> if matchesTopic m s then ((m, None), rest) else dsub_recv_loop s rest e)"

definition dsub_Recv :: "dsub_socket \<Rightarrow> bytes list \<Rightarrow> go_error \<Rightarrow> (msg \<times> go_error option) \<times> bytes list" where
  "dsub_Recv s arriving e =
     (if ds_qconn s = None
      then ((empty_msg, Some (Errorf ''quicmq: DatagramSub not connected'' [])), arriving)
      else dsub_recv_loop s arriving e)"

fun dsub_Topics_loop :: "strset \<Rightarrow> string list \<Rightarrow> string list" where
  "dsub_Topics_loop [] o1 = o1"
| "dsub_Topics_loop (t # ts) o1 = dsub_Topics_loop ts (o1 @ [t])"

definition dsub_Topics :: "dsub_socket \<Rightarrow> string list" where
  "dsub_Topics s = sort (dsub_Topics_loop (ds_topics s) [])"

definition dsub_Send :: "msg \<Rightarrow> go_error option" where
  "dsub_Send m = Some (Errorf ''quicmq: DatagramSub cannot Send'' [])"

definition dsub_SendMulti :: "msg \<Rightarrow> go_error option" where
  "dsub_SendMulti m = Some (Errorf ''quicmq: DatagramSub cannot Send'' [])"

definition dsub_Listen :: "string \<Rightarrow> go_error option" where
  "dsub_Listen ep1 = Some (Errorf ''quicmq: DatagramSub cannot Listen'' [])"

definition dsub_Type :: socket_type where "dsub_Type = DatagramSub"

definition dsub_Addr :: "dsub_socket \<Rightarrow> udp_id option" where "dsub_Addr s = None"

definition dsub_GetOption :: "string \<Rightarrow> dsub_socket \<Rightarrow> go_any option \<times> go_error option" where
  "dsub_GetOption name s =
     (case ds_props s name of None \<Rightarrow> (None, Some ErrBadProperty) | Some v \<Rightarrow> (Some v, None))"

definition dsub_Close :: "dsub_socket \<Rightarrow> go_error option \<times> dsub_socket \<times> quic_event list" where
  "dsub_Close s =
     (None, s\<lparr>ds_ctx := cancel (ds_ctx s)\<rparr>,
      (if ds_ctrl s = None then [] else [CloseControl]) @
      (case ds_qconn s of None \<Rightarrow> [] | Some q \<Rightarrow> [CloseWithError q ''socket closed'']) @
      (case ds_udp s of None \<Rightarrow> [] | Some u \<Rightarrow> [CloseUDP u]))"

interpretation sub_topics: topic_filter "\<lambda>s t. prefix_loop (ds_topics s) t" "\<lambda>s. set (ds_topics s)"
  by unfold_locales (simp add: prefix_loop_iff)
section \<open>Lemmas on the publisher\<close>

text \<open>The peers a message goes to.\<close>

definition recipients :: "(qconn_id \<Rightarrow> bool) \<Rightarrow> (nat \<Rightarrow> dgpeer) \<Rightarrow> string \<Rightarrow> nat list \<Rightarrow> nat list" where
  "recipients supports ps topic pl =
     filter (\<lambda>i. (\<exists>k \<in> set (dg_topics (ps i)). prefix k topic) \<and> supports (dg_qconn (ps i))) pl"

lemma dpub_send_loop_spec:
  "dpub_send_loop supports send ps topic data pl firstErr dead tr =
     (let to = recipients supports ps topic pl; failed = filter (\<lambda>i. send (dg_qconn (ps i)) data \<noteq> None) to in
      (if firstErr \<noteq> None then firstErr
       else case failed of [] \<Rightarrow> None | i # _ \<Rightarrow> send (dg_qconn (ps i)) data,
       dead @ failed, tr @ map (\<lambda>i. (dg_qconn (ps i), data)) to))"
proof (induction pl arbitrary: firstErr dead tr)
  case Nil
  then show ?case by (simp add: recipients_def)
next
  case (Cons i pl)
  show ?case
  proof (cases "dgpeer_subscribed (ps i) topic \<and> supports (dg_qconn (ps i))")
    case True
    then show ?thesis
      by (cases "send (dg_qconn (ps i)) data"; cases firstErr)
        (simp_all add: Cons Let_def recipients_def peer_topics.matches_iff)
  next
    case False
    then show ?thesis
      by (auto simp: Cons Let_def recipients_def peer_topics.matches_iff)
  qed
qed

lemma remove_dead_filter: "distinct pl \<Longrightarrow> remove_dead ds pl = filter (\<lambda>i. i \<notin> set ds) pl"
proof (induction ds arbitrary: pl)
  case Nil
  then show ?case by simp
next
  case (Cons d ds)
  have "rm_from d pl = filter (\<lambda>i. d \<noteq> i) pl"
    using Cons.prems by (simp add: rm_from_remove1 distinct_remove1_removeAll removeAll_filter_not_eq)
  with Cons show ?case by (auto intro: filter_cong)
qed

section \<open>Lemmas on the control stream\<close>

definition run_command :: "bool \<times> string \<Rightarrow> strset \<Rightarrow> strset" where
  "run_command c ts = (if fst c then strset_put (snd c) ts else strset_del (snd c) ts)"

definition commands_of :: "strset \<Rightarrow> (bool \<times> string) list" where
  "commands_of ts = map (\<lambda>t. (True, t)) ts"

lemma set_run_command [simp]:
  "set (run_command c ts) = (if fst c then insert (snd c) (set ts) else set ts - {snd c})"
  by (simp add: run_command_def)

lemma fold_commands_of: "set (fold run_command (commands_of ts) us) = set us \<union> set ts"
  by (induction ts arbitrary: us) (auto simp: commands_of_def)

lemma fold_run_command_cong:
  "set us = set vs \<Longrightarrow> set (fold run_command cs us) = set (fold run_command cs vs)"
proof (induction cs arbitrary: us vs)
  case Nil
  then show ?case by simp
next
  case (Cons c cs)
  from Cons.IH [of "run_command c us" "run_command c vs"] Cons.prems show ?case by simp
qed

lemma resubscribe_loop_healthy:
  "healthy w \<Longrightarrow> healthy (resubscribe_loop ts w) \<and>
     written (resubscribe_loop ts w) = written w @ concat (map subcmd_enc (commands_of ts))"
proof (induction ts arbitrary: w)
  case Nil
  then show ?case by (simp add: commands_of_def)
next
  case (Cons t ts)
  from writer_Write_healthy [OF Cons.prems, of "subcmd_frame True t"] obtain w1 where
    "writeSubCmd w True t = (None, w1)" "healthy w1" "written w1 = written w @ subcmd_enc (True, t)"
    by (auto simp: writeSubCmd_def subcmd_enc_def)
  with Cons.IH [of w1] show ?case by (simp add: commands_of_def)
qed

text \<open>
  A subscriber over time, with a control stream that takes everything and topics that fit a
  frame: \<open>cmds\<close> are the commands it has written.
\<close>

inductive dsub_reach :: "dsub_socket \<Rightarrow> (bool \<times> string) list \<Rightarrow> bool" where
  ds_new: "dsub_reach (NewDatagramSub c (opts :: ((unit, nat) socket \<Rightarrow> (unit, nat) socket) list)) []"
| ds_subscribe: "dsub_reach s cmds \<Longrightarrow> length t < 2 ^ 32 - 1 \<Longrightarrow> name = OptionSubscribe \<or> name = OptionUnsubscribe \<Longrightarrow>
     dsub_SetOption name (AnyString t) s = Some (e, s') \<Longrightarrow>
     dsub_reach s' (cmds @ (if ds_ctrl s = None then [] else [(name = OptionSubscribe, t)]))"
| ds_other: "dsub_reach s cmds \<Longrightarrow> name \<noteq> OptionSubscribe \<Longrightarrow> name \<noteq> OptionUnsubscribe \<Longrightarrow>
     dsub_SetOption name v s = Some (e, s') \<Longrightarrow> dsub_reach s' cmds"
| ds_dial: "dsub_reach s cmds \<Longrightarrow> healthy w \<Longrightarrow> written w = [] \<Longrightarrow> dn_stream net = Inr w \<Longrightarrow>
     dsub_Dial net ep1 s = (None, s', tr) \<Longrightarrow> dsub_reach s' (commands_of (ds_topics s))"
| ds_dial_failed: "dsub_reach s cmds \<Longrightarrow> dsub_Dial net ep1 s = (Some e, s', tr) \<Longrightarrow> dsub_reach s' cmds"

definition dsub_inv :: "dsub_socket \<Rightarrow> (bool \<times> string) list \<Rightarrow> bool" where
  "dsub_inv s cmds =
     (list_all (\<lambda>t. length t < 2 ^ 32 - 1) (ds_topics s) \<and> list_all subcmd_ok cmds \<and> distinct (ds_topics s) \<and>
      (case ds_ctrl s of
         None \<Rightarrow> cmds = []
       | Some w \<Rightarrow> healthy w \<and> written w = concat (map subcmd_enc cmds) \<and>
                  set (fold run_command cmds []) = set (ds_topics s)))"

lemma dsub_Dial_ok:
  "dsub_Dial net ep1 s = (None, s', tr) \<Longrightarrow> dn_stream net = Inr w \<Longrightarrow>
     ds_topics s' = ds_topics s \<and> ds_ctrl s' = Some (resubscribe_loop (ds_topics s) w)"
  by (auto simp: dsub_Dial_def Let_def split: sum.splits if_splits prod.splits)

lemma dsub_Dial_failed:
  "dsub_Dial net ep1 s = (Some e, s', tr) \<Longrightarrow> ds_topics s' = ds_topics s \<and> ds_ctrl s' = ds_ctrl s"
  by (auto simp: dsub_Dial_def Let_def split: sum.splits if_splits prod.splits)

lemma option_names_differ: "OptionUnsubscribe \<noteq> OptionSubscribe"
  by (simp add: OptionUnsubscribe_def OptionSubscribe_def)

lemma dsub_SetOption_topic:
  assumes "name = OptionSubscribe \<or> name = OptionUnsubscribe"
  shows "dsub_SetOption name (AnyString t) s =
    Some (dsub_command (name = OptionSubscribe) t
      (s\<lparr>ds_topics := run_command (name = OptionSubscribe, t) (ds_topics s)\<rparr>))"
  using assms option_names_differ by (auto simp: dsub_SetOption_def run_command_def)

lemma dsub_command_healthy:
  assumes "ds_ctrl s = Some w" and "healthy w"
  shows "\<exists>w1. dsub_command sub t s = (None, s\<lparr>ds_ctrl := Some w1\<rparr>) \<and> healthy w1 \<and>
    written w1 = written w @ subcmd_enc (sub, t)"
  using writer_Write_healthy [OF assms(2), of "subcmd_frame sub t"] assms(1)
  by (auto simp: dsub_command_def writeSubCmd_def subcmd_enc_def)

lemma dsub_reach_inv: "dsub_reach s cmds \<Longrightarrow> dsub_inv s cmds"
proof (induction rule: dsub_reach.induct)
  case (ds_new c opts)
  show ?case by (simp add: dsub_inv_def NewDatagramSub_def Let_def)
next
  case (ds_subscribe s cmds t name e s')
  let ?c = "(name = OptionSubscribe, t)"
  let ?s1 = "s\<lparr>ds_topics := run_command ?c (ds_topics s)\<rparr>"
  have s': "dsub_command (name = OptionSubscribe) t ?s1 = (e, s')"
    using ds_subscribe.hyps(4) dsub_SetOption_topic [OF ds_subscribe.hyps(3)] by simp
  have topics: "list_all (\<lambda>t. length t < 2 ^ 32 - 1) (run_command ?c (ds_topics s))"
      "distinct (run_command ?c (ds_topics s))"
    using ds_subscribe.IH ds_subscribe.hyps(2)
    by (auto simp: dsub_inv_def run_command_def list_all_iff strset_del_def strset_put_def distinct_removeAll
        split: if_splits)
  show ?case
  proof (cases "ds_ctrl s")
    case None
    with s' have "s' = ?s1" by (simp add: dsub_command_def)
    with None topics ds_subscribe.IH show ?thesis by (simp add: dsub_inv_def)
  next
    case (Some w)
    with ds_subscribe.IH have w: "healthy w" "written w = concat (map subcmd_enc cmds)"
        "set (fold run_command cmds []) = set (ds_topics s)" by (simp_all add: dsub_inv_def)
    from dsub_command_healthy [of ?s1 w "name = OptionSubscribe" t] Some w(1) s' obtain w1 where
      w1: "s' = ?s1\<lparr>ds_ctrl := Some w1\<rparr>" "healthy w1" "written w1 = written w @ subcmd_enc ?c" by auto
    have "subcmd_ok ?c" using ds_subscribe.hyps(2) by (simp add: subcmd_ok_def)
    moreover have "set (run_command ?c (fold run_command cmds [])) = set (run_command ?c (ds_topics s))"
      using fold_run_command_cong [OF w(3), of "[?c]"] by simp
    ultimately show ?thesis
      using ds_subscribe.IH topics Some w w1 by (simp add: dsub_inv_def)
  qed
next
  case (ds_other s cmds name v e s')
  then have "s' = s\<lparr>ds_props := (ds_props s)(name := Some v)\<rparr>" by (simp add: dsub_SetOption_def)
  with ds_other.IH show ?case by (cases "ds_ctrl s") (simp_all add: dsub_inv_def)
next
  case (ds_dial s cmds w net ep1 s' tr)
  from dsub_Dial_ok [OF ds_dial.hyps(5,4)] have s': "ds_topics s' = ds_topics s"
      "ds_ctrl s' = Some (resubscribe_loop (ds_topics s) w)" by simp_all
  have "list_all subcmd_ok (commands_of (ds_topics s))"
    using ds_dial.IH by (simp add: dsub_inv_def commands_of_def list_all_iff subcmd_ok_def)
  with resubscribe_loop_healthy [OF ds_dial.hyps(2), of "ds_topics s"] ds_dial.hyps(3) s' ds_dial.IH
    fold_commands_of [of "ds_topics s" "[]"]
  show ?case by (simp add: dsub_inv_def)
next
  case (ds_dial_failed s cmds net ep1 e s' tr)
  from dsub_Dial_failed [OF ds_dial_failed.hyps(2)] ds_dial_failed.IH show ?case
    by (cases "ds_ctrl s") (simp_all add: dsub_inv_def)
qed

text \<open>The publisher's end reading commands.\<close>

fun handlePeer_n :: "nat \<Rightarrow> nat \<Rightarrow> reader \<Rightarrow> dpub_socket \<Rightarrow> bool \<times> reader \<times> dpub_socket" where
  "handlePeer_n 0 i r s = (True, r, s)"
| "handlePeer_n (Suc n) i r s =
     (case handlePeer_round i r s of
        (False, res) \<Rightarrow> (False, res)
      | (True, r1, s1) \<Rightarrow> handlePeer_n n i r1 s1)"

lemma handlePeer_n_commands:
  "list_all subcmd_ok cmds \<Longrightarrow> content r = concat (map subcmd_enc cmds) @ q \<Longrightarrow>
     \<exists>r' s'. handlePeer_n (length cmds) i r s = (True, r', s') \<and> content r' = q \<and> rd_end r' = rd_end r \<and>
       peerList s' = peerList s \<and> dg_topics (peers s' i) = fold run_command cmds (dg_topics (peers s i)) \<and>
       dg_qconn (peers s' i) = dg_qconn (peers s i) \<and> (\<forall>j. j \<noteq> i \<longrightarrow> peers s' j = peers s j)"
proof (induction cmds arbitrary: r s)
  case Nil
  then show ?case by simp
next
  case (Cons c cmds)
  have "content r = subcmd_frame (fst c) (snd c) @ (concat (map subcmd_enc cmds) @ q)"
    using Cons.prems(2) subcmd_enc_def [of c] by simp
  from readSubCmd_frame [OF this] Cons.prems(1) obtain r1 where
    r1: "readSubCmd r = (Inr (fst c, snd c), r1)" "content r1 = concat (map subcmd_enc cmds) @ q"
        "rd_end r1 = rd_end r"
    by (auto simp: subcmd_ok_def)
  let ?p = "(peers s i)\<lparr>dg_topics := run_command c (dg_topics (peers s i))\<rparr>"
  let ?s1 = "s\<lparr>peers := (peers s)(i := ?p)\<rparr>"
  have round: "handlePeer_round i r s = (True, r1, ?s1)"
    using r1(1) by (cases c) (simp add: handlePeer_round_def run_command_def Let_def)
  from Cons.IH [of r1 ?s1] Cons.prems(1) r1(2,3) round show ?case by auto
qed

section \<open>Lemmas on receiving\<close>

text \<open>A datagram that \<^verbatim>\<open>Recv\<close> drops.\<close>

definition dropped :: "dsub_socket \<Rightarrow> bytes \<Rightarrow> bool" where
  "dropped s d = (snd (deserializeMsgDatagram d) \<noteq> None \<or> \<not> matchesTopic (fst (deserializeMsgDatagram d)) s)"

lemma dsub_recv_loop_spec:
  "dsub_recv_loop s ds e =
     (case dropWhile (dropped s) ds of
        [] \<Rightarrow> ((empty_msg, Some e), [])
      | d # rest \<Rightarrow> ((fst (deserializeMsgDatagram d), None), rest))"
proof (induction ds)
  case Nil
  then show ?case by simp
next
  case (Cons d ds)
  obtain m err where m: "deserializeMsgDatagram d = (m, err)" by (cases "deserializeMsgDatagram d")
  show ?case
    by (cases err; cases "matchesTopic m s") (simp_all add: m Cons dropped_def)
qed

lemma serialized_datagram:
  "encodable (Frames m) \<Longrightarrow> deserializeMsgDatagram (serializeMsgDatagram m) = (NewMsgFrom (Frames m), None)"
  using deserialize_loop_frames_wire [of "Frames m" "bytes_NewReader (frames_wire (Frames m))" "[]" "[]"]
  by (auto simp: deserializeMsgDatagram_def serializeMsgDatagram_wire NewMsgFrom_def)

section \<open>Properties\<close>

text \<open>
  C23: A message published over datagrams is sent, once and whole, to each peer one of whose
  topics is a prefix of its first frame and whose connection supports datagrams, and to no
  other; the error is the first that a send gave; a peer whose send failed, for whatever
  reason, is dropped and the others stay in place. A message without frames is not sent.
\<close>

theorem dpub_Send_outcome:
  assumes "distinct (peerList s)" and "dpub_Send supports send m s = (e, s', tr)"
    and "to = (if Frames m = [] then [] else
                 recipients supports (peers s) (string_of_bytes (hd (Frames m))) (peerList s))"
  shows "tr = map (\<lambda>i. (dg_qconn (peers s i), serializeMsgDatagram m)) to \<and>
    e = (case filter (\<lambda>i. send (dg_qconn (peers s i)) (serializeMsgDatagram m) \<noteq> None) to of
           [] \<Rightarrow> None | i # _ \<Rightarrow> send (dg_qconn (peers s i)) (serializeMsgDatagram m)) \<and>
    peerList s' = filter (\<lambda>i. \<not> (i \<in> set to \<and> send (dg_qconn (peers s i)) (serializeMsgDatagram m) \<noteq> None))
                    (peerList s) \<and> peers s' = peers s"
proof (cases "Frames m")
  case Nil
  with assms show ?thesis by (simp add: dpub_Send_def)
next
  case (Cons f fs)
  let ?failed = "filter (\<lambda>i. send (dg_qconn (peers s i)) (serializeMsgDatagram m) \<noteq> None) to"
  have to: "to = recipients supports (peers s) (string_of_bytes f) (peerList s)" using assms(3) Cons by simp
  have r: "dpub_Send supports send m s =
      ((case ?failed of [] \<Rightarrow> None | i # _ \<Rightarrow> send (dg_qconn (peers s i)) (serializeMsgDatagram m)),
       (if length ?failed > 0 then s\<lparr>peerList := remove_dead ?failed (peerList s)\<rparr> else s),
       map (\<lambda>i. (dg_qconn (peers s i), serializeMsgDatagram m)) to)"
    using Cons by (simp add: dpub_Send_def dpub_send_loop_spec Let_def to [symmetric])
  have "peerList s' = filter (\<lambda>i. i \<notin> set ?failed) (peerList s)"
    using r assms(2) remove_dead_filter [OF assms(1), of ?failed]
    by (cases "?failed = []") auto
  moreover have "peers s' = peers s" using r assms(2) by auto
  ultimately show ?thesis using r assms(2) by auto
qed

definition demo_dpub :: dpub_socket where
  "demo_dpub = (NewDatagramPub None ([] :: ((unit, nat) socket \<Rightarrow> (unit, nat) socket) list))
     \<lparr>peerList := [1, 2], peers := (\<lambda>i. \<lparr>dg_qconn = i, dg_topics = [if i = 1 then ''a'' else ''b'']\<rparr>)\<rparr>"

theorem dpub_Send_outcome_witness:
  "peerList (fst (snd (dpub_Send (\<lambda>_. True) (\<lambda>q d. Some EOF) (NewMsg (bytes_of_string ''ab'')) demo_dpub))) = [2]"
proof -
  let ?m = "NewMsg (bytes_of_string ''ab'')"
  obtain e s' tr where r: "dpub_Send (\<lambda>_. True) (\<lambda>q d. Some EOF) ?m demo_dpub = (e, s', tr)"
    by (metis surj_pair)
  have d: "peerList demo_dpub = [1, 2]" "hd (Frames ?m) = bytes_of_string ''ab''" "Frames ?m \<noteq> []"
      "peers demo_dpub = (\<lambda>i. \<lparr>dg_qconn = i, dg_topics = [if i = 1 then ''a'' else ''b'']\<rparr>)"
    by (simp_all add: demo_dpub_def NewMsg_def)
  have "distinct (peerList demo_dpub)" by (simp add: d)
  from dpub_Send_outcome [OF this r refl] d have "peerList s' = [2]"
    by (simp add: recipients_def)
  with r show ?thesis by simp
qed

text \<open>
  C27: \<^verbatim>\<open>Recv\<close> of a connected subscriber returns the first datagram that is well-formed and
  matches one of its topics, leaving what came behind it, and otherwise the error of the receive
  that failed; and if the publisher's peer has the subscriber's topics, then what the publisher
  sends to that peer is never dropped: it is what \<^verbatim>\<open>Recv\<close> returns, frame by frame.
\<close>

theorem dsub_Recv_first_match:
  assumes "ds_qconn s \<noteq> None"
  shows "dsub_Recv s ds e =
      (case dropWhile (dropped s) ds of
         [] \<Rightarrow> ((empty_msg, Some e), [])
       | d # rest \<Rightarrow> ((fst (deserializeMsgDatagram d), None), rest)) \<and>
    (\<forall>p m. set (dg_topics p) = set (ds_topics s) \<and> encodable (Frames m) \<and>
       dgpeer_subscribed p (string_of_bytes (hd (Frames m))) \<longrightarrow>
       dsub_Recv s (serializeMsgDatagram m # ds) e = ((NewMsgFrom (Frames m), None), ds))"
proof -
  have "dsub_Recv s (serializeMsgDatagram m # ds) e = ((NewMsgFrom (Frames m), None), ds)"
    if "set (dg_topics p) = set (ds_topics s)" "encodable (Frames m)"
       "dgpeer_subscribed p (string_of_bytes (hd (Frames m)))" for p m
  proof -
    have "Frames m \<noteq> []" using that(2) by (simp add: encodable_def)
    moreover from this have "prefix_loop (ds_topics s) (string_of_bytes (Frames m ! 0))"
      using that(1,3) by (simp add: dgpeer_subscribed_def prefix_loop_iff hd_conv_nth)
    ultimately have "matchesTopic (NewMsgFrom (Frames m)) s"
      by (simp add: matchesTopic_def NewMsgFrom_def)
    with assms serialized_datagram [OF that(2)] show ?thesis by (simp add: dsub_Recv_def)
  qed
  moreover have "dsub_Recv s ds e =
      (case dropWhile (dropped s) ds of
         [] \<Rightarrow> ((empty_msg, Some e), [])
       | d # rest \<Rightarrow> ((fst (deserializeMsgDatagram d), None), rest))"
    using assms unfolding dsub_Recv_def dsub_recv_loop_spec by auto
  ultimately show ?thesis by blast
qed

definition demo_dsub :: dsub_socket where
  "demo_dsub = (NewDatagramSub None ([] :: ((unit, nat) socket \<Rightarrow> (unit, nat) socket) list))
     \<lparr>ds_qconn := Some 1, ds_topics := [''a'']\<rparr>"

theorem dsub_Recv_first_match_witness:
  "dsub_Recv demo_dsub (serializeMsgDatagram (NewMsg (bytes_of_string ''ab'')) # [[1]]) EOF =
     ((NewMsg (bytes_of_string ''ab''), None), [[1]])"
proof -
  let ?p = "\<lparr>dg_qconn = 1, dg_topics = [''a'']\<rparr>"
  let ?m = "NewMsg (bytes_of_string ''ab'')"
  have "ds_qconn demo_dsub \<noteq> None" "set (dg_topics ?p) = set (ds_topics demo_dsub)"
    by (simp_all add: demo_dsub_def)
  moreover have "encodable (Frames ?m)" "dgpeer_subscribed ?p (string_of_bytes (hd (Frames ?m)))"
    by (simp_all add: NewMsg_def encodable_def dgpeer_subscribed_def)
  ultimately have "dsub_Recv demo_dsub (serializeMsgDatagram ?m # [[1]]) EOF = ((NewMsgFrom (Frames ?m), None), [[1]])"
    using dsub_Recv_first_match [of demo_dsub "[[1]]" EOF] by blast
  then show ?thesis by (simp add: NewMsg_def NewMsgFrom_def)
qed

text \<open>
  Whatever topics were subscribed to and given up before and after dialling, and however
  often it was dialled: once the publisher has read the commands on the control stream, its peer
  has exactly the subscriber's topics.
\<close>

theorem dsub_subscriptions_agree:
  assumes "dsub_reach s cmds" and "ds_ctrl s = Some w" and "content r = written w"
    and "dg_topics (peers p i) = []"
  shows "\<exists>r' p'. handlePeer_n (length cmds) i r p = (True, r', p') \<and> content r' = [] \<and>
    set (dg_topics (peers p' i)) = set (ds_topics s) \<and> (\<forall>j. j \<noteq> i \<longrightarrow> peers p' j = peers p j) \<and>
    peerList p' = peerList p"
proof -
  from dsub_reach_inv [OF assms(1)] assms(2) have inv: "list_all subcmd_ok cmds"
      "written w = concat (map subcmd_enc cmds)" "set (fold run_command cmds []) = set (ds_topics s)"
    by (simp_all add: dsub_inv_def)
  have "content r = concat (map subcmd_enc cmds) @ []" using inv(2) assms(3) by simp
  from handlePeer_n_commands [OF inv(1) this, of i p] inv(3) assms(4) show ?thesis by auto
qed

definition demo_dsub_net :: dsub_net where
  "demo_dsub_net = \<lparr>dn_resolve = Inr ''a'', dn_udp = Inr 1, dn_dial = Inr 2, dn_supports = True,
                    dn_stream = Inr \<lparr>wr_script = [], written = []\<rparr>\<rparr>"

theorem dsub_subscriptions_agree_witness:
  "\<exists>s r' p'. dsub_reach s [(True, ''a'')] \<and>
     handlePeer_n 1 1 (bytes_NewReader (subcmd_enc (True, ''a''))) (demo_dpub\<lparr>peers := (\<lambda>i. \<lparr>dg_qconn = i, dg_topics = []\<rparr>)\<rparr>)
       = (True, r', p') \<and> set (dg_topics (peers p' 1)) = set (ds_topics s)"
proof -
  let ?n = "NewDatagramSub None ([] :: ((unit, nat) socket \<Rightarrow> (unit, nat) socket) list)"
  let ?s1 = "?n\<lparr>ds_topics := [''a'']\<rparr>"
  have n: "ds_topics ?n = []" "ds_ctrl ?n = None" by (simp_all add: NewDatagramSub_def Let_def)
  have "dsub_SetOption OptionSubscribe (AnyString ''a'') ?n = Some (None, ?s1)"
    using n by (simp add: dsub_SetOption_def dsub_command_def strset_put_def)
  from ds_subscribe [OF ds_new _ _ this] n have s1: "dsub_reach ?s1 []" by simp
  have sp: "splitAddr ''quic://h:1'' = Inr (''quic'', ''h:1'')" by code_simp
  let ?w = "\<lparr>wr_script = [], written = []\<rparr>"
  let ?s2 = "?s1\<lparr>ds_udp := Some 1, ds_qconn := Some 2, ds_ctrl := Some (resubscribe_loop [''a''] ?w)\<rparr>"
  have "\<exists>tr. dsub_Dial demo_dsub_net ''quic://h:1'' ?s1 = (None, ?s2, tr)"
    by (simp add: dsub_Dial_def sp demo_dsub_net_def Let_def)
  then obtain tr where d: "dsub_Dial demo_dsub_net ''quic://h:1'' ?s1 = (None, ?s2, tr)" by blast
  have "healthy ?w" "written ?w = []" "dn_stream demo_dsub_net = Inr ?w"
    by (simp_all add: healthy_def demo_dsub_net_def)
  from ds_dial [OF s1 this d] have s2: "dsub_reach ?s2 [(True, ''a'')]"
    by (simp add: commands_of_def)
  let ?r = "bytes_NewReader (subcmd_enc (True, ''a''))"
  let ?p = "demo_dpub\<lparr>peers := (\<lambda>i. \<lparr>dg_qconn = i, dg_topics = []\<rparr>)\<rparr>"
  have "content ?r = written (resubscribe_loop [''a''] ?w)"
    using resubscribe_loop_healthy [OF \<open>healthy ?w\<close>, of "[''a'']"] by (simp add: commands_of_def)
  moreover have "ds_ctrl ?s2 = Some (resubscribe_loop [''a''] ?w)" by simp
  ultimately obtain r' p' where "handlePeer_n (length [(True, ''a'')]) 1 ?r ?p = (True, r', p')"
      "set (dg_topics (peers p' 1)) = set (ds_topics ?s2)"
    using dsub_subscriptions_agree [OF s2, of "resubscribe_loop [''a''] ?w" ?r ?p 1] by auto
  with s2 show ?thesis by (intro exI [of _ ?s2] exI [of _ r'] exI [of _ p']) simp
qed

text \<open>
  Dialling a subscriber leaks nothing: a dial that fails closes the UDP socket it opened
  and tells the connection it made to close, and leaves the topics and the control stream as
  they were; one that succeeds keeps one UDP socket and one connection.
\<close>

theorem dsub_Dial_resources:
  "case dsub_Dial net ep1 s of
     (Some e, s', tr) \<Rightarrow> open_udps tr = {#} \<and> length (filter is_dial tr) = length (filter is_qclose tr) \<and>
       ds_topics s' = ds_topics s \<and> ds_ctrl s' = ds_ctrl s \<and> ds_qconn s' = ds_qconn s
   | (None, s', tr) \<Rightarrow> \<exists>u q. open_udps tr = {#u#} \<and> ds_udp s' = Some u \<and> ds_qconn s' = Some q \<and>
       filter is_qclose tr = [] \<and> ds_ctrl s' \<noteq> None \<and> ds_topics s' = ds_topics s"
  by (simp add: dsub_Dial_def Let_def open_udps_def split: sum.split prod.split)

text \<open>
  A peer leaves the publisher's list when its control stream ends or cannot be accepted,
  and only then; until then every command changes that peer's topics and nothing else.
\<close>

theorem handlePeer_outcomes:
  assumes "distinct (peerList s)" and "handlePeer_round i r s = (goes_on, r', s')"
  shows "if goes_on then peerList s' = peerList s \<and> (\<forall>j. j \<noteq> i \<longrightarrow> peers s' j = peers s j) \<and>
      (\<exists>sub t. fst (readSubCmd r) = Inr (sub, t) \<and>
         set (dg_topics (peers s' i)) = (if sub then insert t (set (dg_topics (peers s i)))
                                         else set (dg_topics (peers s i)) - {t}))
    else (\<exists>e. fst (readSubCmd r) = Inl e) \<and> peerList s' = filter (\<lambda>j. j \<noteq> i) (peerList s) \<and> peers s' = peers s"
  using assms
  by (auto simp: handlePeer_round_def handlePeer_leave_def rm_from_remove1 distinct_remove1_removeAll
      removeAll_filter_not_eq Let_def eq_commute split: prod.splits sum.splits if_splits)

theorem handlePeer_outcomes_witness:
  "peerList (snd (snd (handlePeer_round 1 (bytes_NewReader [0, 0]) demo_dpub))) = [2]"
proof -
  let ?res = "handlePeer_round 1 (bytes_NewReader [0, 0]) demo_dpub"
  have d: "peerList demo_dpub = [1, 2]" by (simp add: demo_dpub_def)
  have "fst ?res = False" by code_simp
  then have r: "?res = (False, fst (snd ?res), snd (snd ?res))" by (simp add: prod_eq_iff)
  have "distinct (peerList demo_dpub)" by (simp add: d)
  from handlePeer_outcomes [OF this r] d show ?thesis by simp
qed

end
