(* ===== verification/Patterns.thy ===== *)
theory Patterns
  imports ReqSocket RepSocket PubSub Datagram
begin

text \<open>
  The constructors of the request and reply sockets, whose pools take the place of the default
  ones in the socket of \<^verbatim>\<open>socket.go\<close>, and the exchange of a request and its reply between two
  sockets.
\<close>

section \<open>The pools of a REQ and of a REP socket\<close>

definition req_ops :: "req_pools pool_ops" where
  "req_ops =
     \<lparr>op_addR = (\<lambda>c p. Some (reqReader_addConn c p)), op_addW = (\<lambda>c p. Some (reqWriter_addConn c p)),
      op_rmR = (\<lambda>c p. Some (reqReader_rmConn c p)), op_rmW = (\<lambda>c p. Some (reqWriter_rmConn c p)),
      get_store = qstore, put_store = (\<lambda>st p. p\<lparr>qstore := st\<rparr>)\<rparr>"

definition rep_ops :: "rep_pools pool_ops" where
  "rep_ops =
     \<lparr>op_addR = (\<lambda>c p. Some (repReader_addConn c p)), op_addW = (\<lambda>c p. Some (repWriter_addConn c p)),
      op_rmR = (\<lambda>c p. Some (repReader_rmConn c p)), op_rmW = (\<lambda>c p. Some (repWriter_rmConn c p)),
      get_store = rstore, put_store = (\<lambda>st p. p\<lparr>rstore := st\<rparr>)\<rparr>"

definition NewReq ::
    "gocontext option \<Rightarrow> ((req_pools, 't) socket \<Rightarrow> (req_pools, 't) socket) list \<Rightarrow> store
       \<Rightarrow> (req_pools, 't) socket" where
  "NewReq c opts st = newSocket c Req opts (newReq_pools st)"

definition NewRep ::
    "gocontext option \<Rightarrow> ((rep_pools, 't) socket \<Rightarrow> (rep_pools, 't) socket) list \<Rightarrow> store
       \<Rightarrow> (rep_pools, 't) socket" where
  "NewRep c opts st = newSocket c Rep opts (newRep_pools st)"

interpretation requester: socket_pools req_ops "\<lambda>_. []" "\<lambda>p. wconns (qwriter p)"
proof
  fix c :: conn_id and p p' :: req_pools
  assume "op_rmW req_ops c p = Some p'" "distinct (wconns (qwriter p))"
  then show "wconns (qwriter p') = remove1 c (wconns (qwriter p)) \<and> [] = []"
    using req_pool.members_rm [of p c] by (auto simp: req_ops_def)
next
  fix c :: conn_id and p p' :: req_pools
  assume "op_addW req_ops c p = Some p'" "c \<notin> set (wconns (qwriter p))"
  then show "wconns (qwriter p') = wconns (qwriter p) @ [c] \<and> [] = []"
    using req_pool.members_add [of c p] by (auto simp: req_ops_def)
qed (auto simp: req_ops_def reqReader_addConn_def reqReader_rmConn_def)

lemma rep_ops_simps:
  "op_addR rep_ops c p = Some p' \<longleftrightarrow> p' = repReader_addConn c p"
  "op_addW rep_ops c p = Some p' \<longleftrightarrow> p' = repWriter_addConn c p"
  "op_rmR rep_ops c p = Some p' \<longleftrightarrow> p' = repReader_rmConn c p"
  "op_rmW rep_ops c p = Some p' \<longleftrightarrow> p' = repWriter_rmConn c p"
  "put_store rep_ops st p = p\<lparr>rstore := st\<rparr>"
  by (auto simp: rep_ops_def)

interpretation replier: socket_pools rep_ops "\<lambda>p. rr_conns (rreader p)" "\<lambda>p. rw_conns (rwriter p)"
  by unfold_locales
    (simp_all add: rep_ops_simps repReader_addConn_def repWriter_addConn_def repReader_rmConn_def
      repWriter_rmConn_def rm_from_remove1 distinct_remove1 subset_insertI)

section \<open>A request and its reply\<close>

text \<open>A requester with one connection that works and no request pending.\<close>

definition req_ready :: "conn_id \<Rightarrow> req_pools \<Rightarrow> bool" where
  "req_ready c p =
     (readyToReq (qstate p) \<and> lastConn (qstate p) = None \<and> wconns (qwriter p) = [c] \<and>
      usable (cells (qstore p) c) \<and> out (cells (qstore p) c) = [])"

text \<open>A replier with one connection that works, nothing queued and its goroutine waiting.\<close>

definition rep_waiting :: "conn_id \<Rightarrow> rep_pools \<Rightarrow> bool" where
  "rep_waiting d r =
     (rw_conns (rwriter r) = [d] \<and> usable (cells (rstore r) d) \<and>
      buf (msgCh (rreader r)) = [] \<and> cap (msgCh (rreader r)) = 10 \<and> \<not> chan_closed (msgCh (rreader r)) \<and>
      running (rwriter r) \<and> sending (rwriter r) = None \<and> \<not> sendCh_closed (rwriter r))"

definition rep_ready :: "conn_id \<Rightarrow> rep_pools \<Rightarrow> bool" where
  "rep_ready d r = (rep_waiting d r \<and> out (cells (rstore r) d) = [])"

definition short_frames :: "msg \<Rightarrow> bool" where
  "short_frames m = list_all (\<lambda>f. length f < 2 ^ 32) (Frames m)"

lemma encodable_enveloped: "short_frames m \<Longrightarrow> encodable ([] # Frames m)"
  by (simp add: short_frames_def encodable_def)

lemma st_SendMsg_inp: "st_SendMsg m c st = (None, st') \<Longrightarrow> inp (cells st' i) = inp (cells st i)"
  using SendMsg_ok [of m "cells st c"]
  by (fastforce simp: st_SendMsg_def on_cell_def split: prod.splits if_splits)

lemma req_Send_ready:
  assumes "req_ready c p"
  shows "\<exists>p1. req_Send m p = (None, p1) \<and> out (cells (qstore p1) c) = frames_wire ([] # Frames m) \<and>
    lastConn (qstate p1) = Some c \<and> \<not> readyToReq (qstate p1) \<and> wconns (qwriter p1) = [c] \<and>
    usable (cells (qstore p1) c) \<and> inp (cells (qstore p1) c) = inp (cells (qstore p) c)"
proof -
  let ?q = "(qstate p)\<lparr>readyToReq := False\<rparr>"
  from assms have p: "readyToReq (qstate p)" "wconns (qwriter p) = [c]" "usable (cells (qstore p) c)"
      "out (cells (qstore p) c) = []" by (simp_all add: req_ready_def)
  from st_SendMsg_usable [OF p(3), of "enveloped m"] obtain st where
    st: "st_SendMsg (enveloped m) c (qstore p) = (None, st)"
        "out (cells st c) = frames_wire ([] # Frames m)" "usable (cells st c)"
    using p(4) by auto
  have inp: "inp (cells st c) = inp (cells (qstore p) c)" by (rule st_SendMsg_inp [OF st(1)])
  have "reqWriter_write m (p\<lparr>qstate := ?q\<rparr>) = (None, p\<lparr>qwriter := (qwriter p)\<lparr>nextConn := 0\<rparr>,
      qstate := reqState_set c ?q, qstore := st\<rparr>)"
    using st(1) p(2) by (simp add: reqWriter_write_def Let_def)
  then have "req_Send m p = (None, p\<lparr>qwriter := (qwriter p)\<lparr>nextConn := 0\<rparr>,
      qstate := reqState_set c ?q, qstore := st\<rparr>)"
    using p(1) by (simp add: req_Send_def beginRequest_def)
  with st(2,3) inp p(2) show ?thesis by (simp add: reqState_set_def)
qed

lemma st_read_wire:
  assumes "encodable fs" and "inp (cells st c) = frames_wire fs"
  shows "\<exists>st1. st_read c st = (NewMsgFrom fs, st1) \<and> out (cells st1 c) = out (cells st c) \<and>
    (usable (cells st c) \<longrightarrow> usable (cells st1 c)) \<and> inp (cells st1 c) = []"
proof -
  from conn_read_wire [of fs "cells st c" "[]"] assms obtain r where
    r: "conn_read (cells st c) = (NewMsgFrom fs, set_rd r (cells st c), False)" "content r = []" by auto
  then show ?thesis by (simp add: st_read_def on_cell_def usable_def Closed_def)
qed

lemma rep_exchange:
  assumes "rep_ready d r" and "short_frames m" and "inp (cells (rstore r) d) = frames_wire ([] # Frames m)"
  shows "\<exists>r1 r2 r3 r4. repReader_listen None d r = Returns r1 \<and>
    rep_Recv pick None r1 = Returns ((NewMsgFrom (Frames m), None), r2) \<and>
    rep_Send pick2 None None reply r2 = Returns (None, r3) \<and>
    repWriter_run None r3 = Returns r4 \<and>
    out (cells (rstore r4) d) = frames_wire ([] # Frames reply) \<and>
    rep_waiting d r4 \<and> inp (cells (rstore r4) d) = []"
proof -
  let ?q = "NewMsgFrom ([] # Frames m)"
  from assms(1) have r: "rw_conns (rwriter r) = [d]" "usable (cells (rstore r) d)" "out (cells (rstore r) d) = []"
      "buf (msgCh (rreader r)) = []" "cap (msgCh (rreader r)) = 10" "\<not> chan_closed (msgCh (rreader r))"
      "running (rwriter r)" "sending (rwriter r) = None" "\<not> sendCh_closed (rwriter r)"
    by (simp_all add: rep_ready_def rep_waiting_def)
  from st_read_wire [OF encodable_enveloped [OF assms(2)] assms(3)] r(2,3) obtain st1 where
    st1: "st_read d (rstore r) = (?q, st1)" "out (cells st1 d) = []" "usable (cells st1 d)"
      "inp (cells st1 d) = []" by auto
  let ?ch = "(msgCh (rreader r))\<lparr>buf := [(d, ?q)]\<rparr>"
  let ?r1 = "r\<lparr>rstore := st1, rreader := (rreader r)\<lparr>msgCh := ?ch\<rparr>\<rparr>"
  have listen: "repReader_listen None d r = Returns ?r1"
    using st1(1) r(4-6) by (simp add: repReader_listen_def chan_send_def NewMsgFrom_def empty_msg_def)
  have split: "splitReq ?q = ([[]], NewMsgFrom (Frames m))"
    using splitReq_delimited [of "[]" ?q "Frames m"] by (simp add: NewMsgFrom_def)
  let ?r2 = "?r1\<lparr>rreader := (rreader r)\<lparr>msgCh := ?ch\<lparr>buf := []\<rparr>\<rparr>,
                 rstate := repState_set d [[]] (rstate r)\<rparr>"
  have "msg_err ?q = None" by (simp add: NewMsgFrom_def empty_msg_def)
  then have recv: "rep_Recv pick None ?r1 = Returns ((NewMsgFrom (Frames m), None), ?r2)"
    by (simp add: rep_Recv_def repReader_read_def case_recv_def chan_recv_def split)
  let ?pl = "\<lparr>pl_conn = d, pl_preamble = [[]], pl_msg = reply\<rparr>"
  let ?r3 = "?r2\<lparr>rwriter := (rwriter r)\<lparr>sending := Some ?pl\<rparr>, rstate := repState_clear (rstate ?r2)\<rparr>"
  have send: "rep_Send pick2 None None reply ?r2 = Returns (None, ?r3)"
    using r(7-9) by (simp add: rep_Send_def repWriter_write_def repState_get_def repState_set_def go_select_def)
  from st_SendMsg_usable [OF st1(3), of "buildReplyMsg ?pl"] st1(2) obtain st2 where
    st2: "st_SendMsg (buildReplyMsg ?pl) d st1 = (None, st2)" "out (cells st2 d) = frames_wire ([] # Frames reply)"
      "usable (cells st2 d)"
    by (auto simp: buildReplyMsg_def)
  have "inp (cells st2 d) = []" using st_SendMsg_inp [OF st2(1)] st1(4) by simp
  with st2(3) r(1,5-7,9) have r4: "rep_waiting d (?r3\<lparr>rstore := st2, rwriter := (rwriter r)\<lparr>sending := None\<rparr>\<rparr>)"
      "inp (cells st2 d) = []"
    by (simp_all add: rep_waiting_def)
  let ?r4 = "?r3\<lparr>rstore := st2, rwriter := (rwriter r)\<lparr>sending := None\<rparr>\<rparr>"
  have "repWriter_run None ?r3 = Returns ?r4"
    using r(1) st2(1) by (simp add: repWriter_run_def sendPayload_def)
  with listen recv send st2(2) r4 show ?thesis
    by (intro exI [of _ ?r1] exI [of _ ?r2] exI [of _ ?r3] exI [of _ ?r4]) simp
qed

lemma req_Recv_reply:
  assumes "lastConn (qstate p) = Some c" and "\<not> readyToReq (qstate p)" and "short_frames reply"
    and "inp (cells (qstore p) c) = frames_wire ([] # Frames reply)"
  shows "\<exists>p1. req_Recv p = ((NewMsgFrom (if Frames reply = [] then [[]] else Frames reply), None), p1) \<and>
    readyToReq (qstate p1) \<and> lastConn (qstate p1) = None \<and> qwriter p1 = qwriter p \<and>
    out (cells (qstore p1) c) = out (cells (qstore p) c) \<and>
    (usable (cells (qstore p) c) \<longrightarrow> usable (cells (qstore p1) c)) \<and> inp (cells (qstore p1) c) = []"
proof -
  from st_read_wire [OF encodable_enveloped [OF assms(3)] assms(4)] obtain st1 where
    st1: "st_read c (qstore p) = (NewMsgFrom ([] # Frames reply), st1)"
      "out (cells st1 c) = out (cells (qstore p) c)" "usable (cells (qstore p) c) \<longrightarrow> usable (cells st1 c)"
      "inp (cells st1 c) = []" by blast
  from st1(1) have "reqReader_read p = (None, NewMsgFrom (if Frames reply = [] then [[]] else Frames reply), p\<lparr>qstore := st1\<rparr>)"
    using assms(1) by (simp add: reqReader_read_def reqState_get_def Let_def NewMsgFrom_def empty_msg_def)
  then show ?thesis
    using assms(2) st1(2-4) by (simp add: req_Recv_def beforeRecv_def finishRequest_def)
qed

text \<open>A requester and a replier with one connection each, ready as above.\<close>

lemma demo_req_ready: "req_ready 1 (reqWriter_addConn 1 (newReq_pools fresh_store))"
  by (simp add: req_ready_def reqWriter_addConn_def newReq_pools_def newReqWriter_def fresh_store_def
      new_conn_def usable_def Closed_def healthy_def)

definition demo_rep :: "bytes \<Rightarrow> rep_pools" where
  "demo_rep bs = (let p = newRep_pools (fresh_store\<lparr>cells := (\<lambda>_. new_conn (bytes_NewReader bs) \<lparr>wr_script = [], written = []\<rparr>)\<rparr>)
                  in repWriter_addConn 2 (repReader_addConn 2 p))"

lemma demo_rep_ready: "rep_ready 2 (demo_rep bs)"
  by (simp add: demo_rep_def Let_def rep_ready_def rep_waiting_def repReader_addConn_def repWriter_addConn_def newRep_pools_def
      newRepReader_def newRepWriter_def make_chan_def fresh_store_def new_conn_def usable_def Closed_def healthy_def)

lemma demo_rep_inp: "inp (cells (rstore (demo_rep bs)) 2) = bs"
  by (simp add: demo_rep_def Let_def repReader_addConn_def repWriter_addConn_def newRep_pools_def new_conn_def
      content_def bytes_NewReader_def)

end
