(* ===== verification/Delivery.thy ===== *)
theory Delivery
  imports Patterns
begin

text \<open>
  From \<^verbatim>\<open>Send\<close> on a publishing socket to \<^verbatim>\<open>Recv\<close> on a subscribing one: the messages go through
  the queue of the subscriber, its goroutine, the connection, the goroutine that reads it at the
  other end, and the queue there.
\<close>

section \<open>Publishing\<close>

fun publish_all ::
    "(nat \<Rightarrow> nat) \<Rightarrow> msg list \<Rightarrow> (pub_pools, 't, 'm) socket_scheme
       \<Rightarrow> (pub_pools, 't, 'm) socket_scheme option" where
  "publish_all picks [] s = Some s"
| "publish_all picks (m # ms) s =
     (case pub_Send (\<lambda>i. (picks i, None)) m s of
        Some (None, s1) \<Rightarrow> publish_all picks ms s1
      | _ \<Rightarrow> None)"

lemma pubMWriter_write_live:
  assumes "pub_wf w" and "(c, a) \<in> set (sub_list w)" and "\<forall>i. snd (env i) = None"
    and "subscribed (cells st c) (msg_topic m) \<Longrightarrow> length (buf (chans w ! a)) < cap (chans w ! a)"
  shows "\<exists>w'. pubMWriter_write env m w st = Some (None, w') \<and> pub_wf w' \<and> sub_list w' = sub_list w \<and>
    drainers w' = drainers w \<and> length (chans w') = length (chans w) \<and>
    cap (chans w' ! a) = cap (chans w ! a) \<and>
    buf (chans w' ! a) = buf (chans w ! a) @ (if subscribed (cells st c) (msg_topic m) then [m] else [])"
proof -
  from assms(1) have d: "distinct (map snd (sub_list w))"
      "\<forall>(c, a) \<in> set (sub_list w). a < length (chans w) \<and> \<not> chan_closed (chans w ! a)"
    by (auto simp: pub_wf_def)
  from pub_write_loop_spec [OF d, of m "msg_topic m" env "drainers w" st 0] assms(3) obtain cs where
    l: "pub_write_loop m (msg_topic m) env (drainers w) st 0 (sub_list w) (chans w) = Some (None, cs)"
      "\<forall>(c, a) \<in> set (sub_list w). cs ! a =
         (if subscribed (cells st c) (msg_topic m)
          then case sub_send m a (drainers w) (chans w ! a) of Sent ch \<Rightarrow> ch | _ \<Rightarrow> chans w ! a
          else chans w ! a)"
    by auto
  have w: "pubMWriter_write env m w st = Some (None, w\<lparr>chans := cs\<rparr>)"
    using l(1) by (simp add: pubMWriter_write_def)
  have "\<not> chan_closed (chans w ! a)" using d(2) assms(2) by blast
  moreover have "cs ! a =
         (if subscribed (cells st c) (msg_topic m)
          then case sub_send m a (drainers w) (chans w ! a) of Sent ch \<Rightarrow> ch | _ \<Rightarrow> chans w ! a
          else chans w ! a)" using l(2) assms(2) by blast
  ultimately have "cap (cs ! a) = cap (chans w ! a) \<and>
      buf (cs ! a) = buf (chans w ! a) @ (if subscribed (cells st c) (msg_topic m) then [m] else [])"
    using assms(4) by (auto simp: sub_send_def chan_send_def)
  with w pubMWriter_write_effect [OF assms(1) w] show ?thesis by simp
qed

lemma publish_all_queued:
  assumes "pub_wf (pub_w (pools s))" and "(c, a) \<in> set (sub_list (pub_w (pools s)))"
    and "ctx_err (sck_ctx s) = None"
    and "length (buf (chans (pub_w (pools s)) ! a)) +
           length (filter (\<lambda>m. subscribed (cells (pub_st (pools s)) c) (msg_topic m)) ms)
         \<le> cap (chans (pub_w (pools s)) ! a)"
  shows "\<exists>s1. publish_all picks ms s = Some s1 \<and> pub_st (pools s1) = pub_st (pools s) \<and>
    pub_wf (pub_w (pools s1)) \<and> drainers (pub_w (pools s1)) = drainers (pub_w (pools s)) \<and>
    length (chans (pub_w (pools s1))) = length (chans (pub_w (pools s))) \<and>
    buf (chans (pub_w (pools s1)) ! a) = buf (chans (pub_w (pools s)) ! a) @
      filter (\<lambda>m. subscribed (cells (pub_st (pools s)) c) (msg_topic m)) ms"
  using assms
proof (induction ms arbitrary: s)
  case Nil
  then show ?case by simp
next
  case (Cons m ms)
  let ?st = "pub_st (pools s)" and ?w = "pub_w (pools s)"
  have room: "length (buf (chans ?w ! a)) < cap (chans ?w ! a)" if "subscribed (cells ?st c) (msg_topic m)"
    using Cons.prems(4) that by simp
  have live: "\<forall>i. snd ((\<lambda>i. (picks i, child_ctx None s)) i) = None"
    using Cons.prems(3) by (simp add: child_ctx_def)
  from pubMWriter_write_live [OF Cons.prems(1,2) live, of ?st m] room obtain w1 where
    w1: "pubMWriter_write (\<lambda>i. (picks i, child_ctx None s)) m ?w ?st = Some (None, w1)" "pub_wf w1"
      "sub_list w1 = sub_list ?w" "drainers w1 = drainers ?w" "length (chans w1) = length (chans ?w)"
      "cap (chans w1 ! a) = cap (chans ?w ! a)"
      "buf (chans w1 ! a) = buf (chans ?w ! a) @ (if subscribed (cells ?st c) (msg_topic m) then [m] else [])"
    by blast
  let ?s1 = "s\<lparr>pools := (pools s)\<lparr>pub_w := w1\<rparr>\<rparr>"
  from w1(1) have send: "pub_Send (\<lambda>i. (picks i, None)) m s = Some (None, ?s1)"
    by (simp add: pub_Send_def)
  have "\<exists>s2. publish_all picks ms ?s1 = Some s2 \<and> pub_st (pools s2) = ?st \<and>
    pub_wf (pub_w (pools s2)) \<and> drainers (pub_w (pools s2)) = drainers w1 \<and>
    length (chans (pub_w (pools s2))) = length (chans w1) \<and>
    buf (chans (pub_w (pools s2)) ! a) = buf (chans w1 ! a) @
      filter (\<lambda>m. subscribed (cells ?st c) (msg_topic m)) ms"
    using Cons.IH [of ?s1] Cons.prems(2-4) w1 by (auto split: if_splits)
  with send w1(4,5,7) show ?case by auto
qed

section \<open>The goroutine of the subscriber\<close>

fun drain_n :: "nat \<Rightarrow> nat \<Rightarrow> pubMWriter \<times> store \<Rightarrow> (pubMWriter \<times> store) blocking" where
  "drain_n 0 j p = Returns p"
| "drain_n (Suc n) j (w, st) =
     (case drain_recv j w of
        Returns w1 \<Rightarrow>
          (case drain_send j (w1, st) of Returns p \<Rightarrow> drain_n n j p | Waits \<Rightarrow> Waits | Panics \<Rightarrow> Panics)
      | Waits \<Rightarrow> Waits
      | Panics \<Rightarrow> Panics)"

lemma drain_n_queue:
  "j < length (drainers w) \<Longrightarrow> drainers w ! j = \<lparr>dr_chan = a, dr_conn = d, dr_msg = None\<rparr> \<Longrightarrow>
   a < length (chans w) \<Longrightarrow> usable (cells st d) \<Longrightarrow> buf (chans w ! a) = ms \<Longrightarrow>
     \<exists>w' st'. drain_n (length ms) j (w, st) = Returns (w', st') \<and>
       out (cells st' d) = out (cells st d) @ concat (map (\<lambda>m. frames_wire (Frames m)) ms)"
proof (induction ms arbitrary: w st)
  case Nil
  then show ?case by simp
next
  case (Cons m ms)
  let ?w1 = "w\<lparr>chans := (chans w)[a := (chans w ! a)\<lparr>buf := ms\<rparr>],
               drainers := (drainers w)[j := (drainers w ! j)\<lparr>dr_msg := Some m\<rparr>]\<rparr>"
  have recv: "drain_recv j w = Returns ?w1"
    using Cons.prems by (simp add: drain_recv_def Let_def chan_recv_def)
  from st_SendMsg_usable [OF Cons.prems(4), of m] obtain st1 where
    st1: "st_SendMsg m d st = (None, st1)" "usable (cells st1 d)"
      "out (cells st1 d) = out (cells st d) @ frames_wire (Frames m)" by blast
  let ?w2 = "?w1\<lparr>drainers := (drainers w)[j := drainers w ! j]\<rparr>"
  have send: "drain_send j (?w1, st) = Returns (?w2, st1)"
    using Cons.prems(1,2) st1(1) by (simp add: drain_send_def Let_def)
  have step: "drain_n (length (m # ms)) j (w, st) = drain_n (length ms) j (?w2, st1)"
    by (simp only: list.size add_0 add_Suc drain_n.simps recv send blocking.case One_nat_def add_Suc_right add_0_right)
  from Cons.IH [of ?w2 st1] Cons.prems(1-3) st1(2,3) show ?case
    unfolding step by auto
qed

section \<open>The subscriber's end\<close>

text \<open>
  The goroutine that reads the connection runs once and \<^verbatim>\<open>Recv\<close> takes what it queued.
\<close>

definition sub_take ::
    "nat \<Rightarrow> conn_id \<Rightarrow> (base_pools, 't, 'm) socket_scheme
       \<Rightarrow> ((msg \<times> go_error option) \<times> (base_pools, 't, 'm) socket_scheme) blocking" where
  "sub_take pick c u =
     (case qreader_listen (ctx_err (sck_ctx u)) c (bq (pools u), bst (pools u)) of
        Returns (q, st) \<Rightarrow> socket_Recv pick (u\<lparr>pools := (pools u)\<lparr>bq := q, bst := st\<rparr>\<rparr>)
      | Waits \<Rightarrow> Waits
      | Panics \<Rightarrow> Panics)"

fun sub_take_n ::
    "nat \<Rightarrow> nat \<Rightarrow> conn_id \<Rightarrow> (base_pools, 't, 'm) socket_scheme
       \<Rightarrow> ((msg \<times> go_error option) list \<times> (base_pools, 't, 'm) socket_scheme) blocking" where
  "sub_take_n 0 pick c u = Returns ([], u)"
| "sub_take_n (Suc n) pick c u =
     (case sub_take pick c u of
        Returns (r, u1) \<Rightarrow>
          (case sub_take_n n pick c u1 of
             Returns (rest, u2) \<Rightarrow> Returns (r # rest, u2) | Waits \<Rightarrow> Waits | Panics \<Rightarrow> Panics)
      | Waits \<Rightarrow> Waits
      | Panics \<Rightarrow> Panics)"

definition sub_ready :: "(base_pools, 't, 'm) socket_scheme \<Rightarrow> bool" where
  "sub_ready u =
     (ctx_err (sck_ctx u) = None \<and> chan_recv (qsem (bq (pools u))) = ChanClosed \<and>
      buf (qc (bq (pools u))) = [] \<and> cap (qc (bq (pools u))) = 10 \<and> \<not> chan_closed (qc (bq (pools u))))"

lemma sub_take_wire:
  assumes "sub_ready u" and "encodable (Frames m)"
    and "inp (cells (bst (pools u)) c) = frames_wire (Frames m) @ rest"
  shows "\<exists>u1. sub_take pick c u = Returns ((NewMsgFrom (Frames m), None), u1) \<and> sub_ready u1 \<and>
    inp (cells (bst (pools u1)) c) = rest"
proof -
  let ?q = "bq (pools u)" and ?m = "NewMsgFrom (Frames m)"
  from assms(1) have u: "ctx_err (sck_ctx u) = None" "chan_recv (qsem ?q) = ChanClosed" "buf (qc ?q) = []"
      "cap (qc ?q) = 10" "\<not> chan_closed (qc ?q)" by (simp_all add: sub_ready_def)
  from conn_read_wire [OF assms(2,3)] obtain r where
    r: "conn_read (cells (bst (pools u)) c) = (?m, set_rd r (cells (bst (pools u)) c), False)" "content r = rest"
    by auto
  then obtain st where st: "st_read c (bst (pools u)) = (?m, st)" "inp (cells st c) = rest"
    by (simp add: st_read_def on_cell_def)
  have noerr: "msg_err ?m = None" by (simp add: NewMsgFrom_def empty_msg_def)
  let ?q1 = "?q\<lparr>qc := (qc ?q)\<lparr>buf := [?m]\<rparr>\<rparr>"
  have "qreader_listen (ctx_err (sck_ctx u)) c (?q, bst (pools u)) = Returns (?q1, st)"
    using st(1) u noerr by (simp add: qreader_listen_def chan_send_def)
  moreover have "chan_recv ((qc ?q)\<lparr>buf := [?m]\<rparr>) = Received ?m ((qc ?q)\<lparr>buf := []\<rparr>)"
    by (simp add: chan_recv_def)
  ultimately have "sub_take pick c u =
      Returns ((?m, None), u\<lparr>pools := (pools u)\<lparr>bq := ?q1\<lparr>qc := (qc ?q)\<lparr>buf := []\<rparr>\<rparr>, bst := st\<rparr>\<rparr>)"
    using u noerr
    by (simp add: sub_take_def socket_Recv_def qreader_read_def child_ctx_def sem_lock_ready_def case_recv_def)
  with u st(2) show ?thesis by (simp add: sub_ready_def)
qed

lemma sub_take_n_wire:
  "sub_ready u \<Longrightarrow> list_all (\<lambda>m. encodable (Frames m)) ms \<Longrightarrow>
   inp (cells (bst (pools u)) c) = concat (map (\<lambda>m. frames_wire (Frames m)) ms) \<Longrightarrow>
     \<exists>u1. sub_take_n (length ms) pick c u = Returns (map (\<lambda>m. (NewMsgFrom (Frames m), None)) ms, u1)"
proof (induction ms arbitrary: u)
  case Nil
  then show ?case by simp
next
  case (Cons m ms)
  from sub_take_wire [OF Cons.prems(1), of m c "concat (map (\<lambda>m. frames_wire (Frames m)) ms)" pick] Cons.prems
  obtain u1 where u1: "sub_take pick c u = Returns ((NewMsgFrom (Frames m), None), u1)" "sub_ready u1"
      "inp (cells (bst (pools u1)) c) = concat (map (\<lambda>m. frames_wire (Frames m)) ms)"
    by auto
  from Cons.IH [OF u1(2) _ u1(3)] Cons.prems(2) u1(1) show ?case by auto
qed

text \<open>A subscriber with connection 5.\<close>

definition demo_subscriber :: "nat sub_socket" where
  "demo_subscriber = (NewSub None [] fresh_store)\<lparr>pools := (new_base_pools fresh_store)\<lparr>bq := qreader_addConn 5 newQReader\<rparr>\<rparr>"

end
