(* ===== verification/Examples.thy ===== *)
theory Examples
  imports Delivery GoStrings
begin

text \<open>
  The programs under \<^verbatim>\<open>example\<close>: requester and replier, subscriber and publisher. What a program
  prints is the result of its loop; it may also end in \<^verbatim>\<open>log.Fatalf\<close>, crash in a panic, or wait.
\<close>

section \<open>Programs\<close>

datatype 'a program = Running 'a | Fatal go_error | Crashed | Stuck

text \<open>The loop of \<^verbatim>\<open>printLocalAddrs\<close>; an address is a text with what the code asks of it.\<close>

record iface_addr =
  ia_text :: string
  ia_ipnet :: bool
  ia_loopback :: bool
  ia_v4 :: bool

definition printLocalAddrs :: "go_error + iface_addr list \<Rightarrow> string list" where
  "printLocalAddrs addrs =
     (case addrs of
        Inl e \<Rightarrow> []
      | Inr as \<Rightarrow>
          map (\<lambda>a. ''Local IP: '' @ ia_text a) (filter (\<lambda>a. ia_ipnet a \<and> \<not> ia_loopback a \<and> ia_v4 a) as))"

section \<open>Requester and replier\<close>

text \<open>The requester's socket; the flags of the program are arguments.\<close>

definition example_requester ::
    "duration \<Rightarrow> duration \<Rightarrow> store \<Rightarrow> (req_pools, 't) socket" where
  "example_requester connectTimeout retryIvl st =
     NewReq (Some \<lparr>ctx_err = None, ctx_values = []\<rparr>)
       [WithDialerRetry retryIvl, WithDialerMaxRetries (-1), WithDialTimeout connectTimeout,
        WithAutomaticReconnect False] st"

definition example_replier :: "store \<Rightarrow> (rep_pools, 't) socket" where
  "example_replier st = NewRep (Some \<lparr>ctx_err = None, ctx_values = []\<rparr>) [] st"

text \<open>
  The replier until it reaches its loop: it listens and prints the address it got, or the one it
  asked for when there is none. The requester connects; an error ends either program.
\<close>

definition replier_start ::
    "'t transports \<Rightarrow> ('t \<Rightarrow> gocontext \<Rightarrow> string \<Rightarrow> go_error + nat) \<Rightarrow> (nat \<Rightarrow> string) \<Rightarrow> nat
       \<Rightarrow> (rep_pools, 't) socket \<Rightarrow> (string \<times> (rep_pools, 't) socket) program" where
  "replier_start db listen addr_of port s =
     (let addr = ''quic://0.0.0.0:'' @ Sprint_d (int port) in
      case socket_Listen db listen addr s of
        (Some e, _) \<Rightarrow> Fatal e
      | (None, s1) \<Rightarrow>
          Running (''Replier listening on '' @ (case socket_Addr addr_of s1 of Some l \<Rightarrow> l | None \<Rightarrow> addr), s1))"

definition requester_start ::
    "'t transports \<Rightarrow> ('t \<Rightarrow> gocontext \<Rightarrow> string \<Rightarrow> nat \<Rightarrow> attempt) \<Rightarrow> conn_id \<Rightarrow> string
       \<Rightarrow> (req_pools, 't) socket \<Rightarrow> (req_pools, 't) socket program" where
  "requester_start db env c addr s =
     (case socket_Dial db req_ops None env c addr s of
        Waits \<Rightarrow> Stuck
      | Panics \<Rightarrow> Crashed
      | Returns (Some e, _) \<Rightarrow> Fatal e
      | Returns (None, s1) \<Rightarrow> Running s1)"

text \<open>The two halves of a round of the requester's loop.\<close>

definition requester_send :: "nat \<Rightarrow> req_pools \<Rightarrow> req_pools program" where
  "requester_send i p =
     (case req_Send (NewMsgString (''Request '' @ Sprint_d (int i + 1))) p of
        (Some e, _) \<Rightarrow> Fatal e
      | (None, p1) \<Rightarrow> Running p1)"

definition requester_recv :: "req_pools \<Rightarrow> (string \<times> req_pools) program" where
  "requester_recv p =
     (case req_Recv p of
        ((_, Some e), _) \<Rightarrow> Fatal e
      | ((reply, None), p1) \<Rightarrow>
          (case Frames reply of [] \<Rightarrow> Crashed | f # _ \<Rightarrow> Running (string_of_bytes f, p1)))"

text \<open>A round of the replier's loop: \<^verbatim>\<open>msg.Frames[0]\<close> panics for a message without frames.\<close>

definition replier_turn :: "nat \<Rightarrow> nat \<Rightarrow> rep_pools \<Rightarrow> rep_pools program" where
  "replier_turn pick pick2 r =
     (case rep_Recv pick None r of
        Waits \<Rightarrow> Stuck
      | Panics \<Rightarrow> Crashed
      | Returns ((m, err), r1) \<Rightarrow>
          (case err of
             Some e \<Rightarrow> Fatal e
           | None \<Rightarrow>
               (case Frames m of
                  [] \<Rightarrow> Crashed
                | f # _ \<Rightarrow>
                    let reply = NewMsgString (''Reply to '' @ string_of_bytes f) in
                    (case rep_Send pick2 None None reply r1 of
                       Waits \<Rightarrow> Stuck
                     | Panics \<Rightarrow> Crashed
                     | Returns (Some e, _) \<Rightarrow> Fatal e
                     | Returns (None, r2) \<Rightarrow> Running r2))))"

section \<open>Both together\<close>

text \<open>The network: what connection \<open>c\<close> of one store has written arrives at \<open>d\<close> of another.\<close>

definition transfer :: "conn_id \<Rightarrow> store \<Rightarrow> conn_id \<Rightarrow> store \<Rightarrow> store \<times> store" where
  "transfer c st d su =
     (st\<lparr>cells := (cells st)(c := set_wr ((wr (rw (cells st c)))\<lparr>written := []\<rparr>) (cells st c))\<rparr>,
      su\<lparr>cells := (cells su)(d := set_rd ((rd (rw (cells su d)))\<lparr>chunks :=
           chunks (rd (rw (cells su d))) @ [out (cells st c)]\<rparr>) (cells su d))\<rparr>)"

text \<open>The replier's side of a round: its goroutines and one turn of its loop.\<close>

definition replier_side :: "nat \<Rightarrow> nat \<Rightarrow> conn_id \<Rightarrow> rep_pools \<Rightarrow> rep_pools program" where
  "replier_side pick pick2 d r =
     (case repReader_listen None d r of
        Waits \<Rightarrow> Stuck
      | Panics \<Rightarrow> Crashed
      | Returns r1 \<Rightarrow>
          (case replier_turn pick pick2 r1 of
             Running r2 \<Rightarrow>
               (case repWriter_run None r2 of
                  Waits \<Rightarrow> Stuck | Panics \<Rightarrow> Crashed | Returns r3 \<Rightarrow> Running r3)
           | Fatal e \<Rightarrow> Fatal e
           | Crashed \<Rightarrow> Crashed
           | Stuck \<Rightarrow> Stuck))"

definition example_round ::
    "nat \<Rightarrow> nat \<Rightarrow> conn_id \<Rightarrow> conn_id \<Rightarrow> nat \<Rightarrow> req_pools \<times> rep_pools
       \<Rightarrow> (string \<times> req_pools \<times> rep_pools) program" where
  "example_round pick pick2 c d i = (\<lambda>(p, r).
     case requester_send i p of
       Running p1 \<Rightarrow>
         (let (sq, sr) = transfer c (qstore p1) d (rstore r) in
          case replier_side pick pick2 d (r\<lparr>rstore := sr\<rparr>) of
            Running r1 \<Rightarrow>
              (let (sr1, sq1) = transfer d (rstore r1) c sq in
               case requester_recv (p1\<lparr>qstore := sq1\<rparr>) of
                 Running (reply, p2) \<Rightarrow> Running (reply, p2, r1\<lparr>rstore := sr1\<rparr>)
               | Fatal e \<Rightarrow> Fatal e
               | Crashed \<Rightarrow> Crashed
               | Stuck \<Rightarrow> Stuck)
          | Fatal e \<Rightarrow> Fatal e
          | Crashed \<Rightarrow> Crashed
          | Stuck \<Rightarrow> Stuck)
     | Fatal e \<Rightarrow> Fatal e
     | Crashed \<Rightarrow> Crashed
     | Stuck \<Rightarrow> Stuck)"

text \<open>The requester's loop: \<open>k\<close> rounds to go from round \<open>i\<close>; the result is what it receives.\<close>

fun example_loop ::
    "nat \<Rightarrow> nat \<Rightarrow> conn_id \<Rightarrow> conn_id \<Rightarrow> nat \<Rightarrow> nat \<Rightarrow> req_pools \<times> rep_pools \<Rightarrow> string list program" where
  "example_loop pick pick2 c d 0 i ps = Running []"
| "example_loop pick pick2 c d (Suc k) i ps =
     (case example_round pick pick2 c d i ps of
        Running (reply, ps1) \<Rightarrow>
          (case example_loop pick pick2 c d k (Suc i) ps1 of
             Running replies \<Rightarrow> Running (reply # replies)
           | Fatal e \<Rightarrow> Fatal e
           | Crashed \<Rightarrow> Crashed
           | Stuck \<Rightarrow> Stuck)
      | Fatal e \<Rightarrow> Fatal e
      | Crashed \<Rightarrow> Crashed
      | Stuck \<Rightarrow> Stuck)"

text \<open>Both sides ready, and nothing under way on the connection.\<close>

definition exchange_ready :: "conn_id \<Rightarrow> conn_id \<Rightarrow> req_pools \<times> rep_pools \<Rightarrow> bool" where
  "exchange_ready c d = (\<lambda>(p, r).
     req_ready c p \<and> rep_ready d r \<and> inp (cells (qstore p) c) = [] \<and> inp (cells (rstore r) d) = [])"

lemma transfer_facts:
  assumes "transfer c st d su = (st1, su1)"
  shows "out (cells st1 c) = []" "inp (cells st1 c) = inp (cells st c)"
    "usable (cells st1 c) = usable (cells st c)"
    "inp (cells su1 d) = inp (cells su d) @ out (cells st c)" "out (cells su1 d) = out (cells su d)"
    "usable (cells su1 d) = usable (cells su d)"
  using assms by (auto simp: transfer_def content_def usable_def Closed_def healthy_def)

lemma short_text: "length t < 2 ^ 32 \<Longrightarrow> short_frames (NewMsgString t)"
  by (simp add: short_frames_def NewMsgString_def)

lemma short_number: "i < 2 ^ 31 \<Longrightarrow> length (Sprint_d (int i + 1)) \<le> 10"
proof -
  assume "i < 2 ^ 31"
  then have "nat (int i + 1) < 10 ^ 10" by simp
  from length_decimal [OF this] show ?thesis by (simp add: Sprint_d_def)
qed

text \<open>A turn of the replier, and the messages of both programs.\<close>

lemma replier_turn_replies:
  assumes "rep_Recv pick None r1 = Returns ((NewMsgFrom [bytes_of_string t], None), r2)"
    and "rep_Send pick2 None None (NewMsgString (''Reply to '' @ t)) r2 = Returns (None, r3)"
  shows "replier_turn pick pick2 r1 = Running r3"
  using assms by (simp add: replier_turn_def)

lemma example_round_replies:
  assumes "exchange_ready c d (p, r)" and "i < 2 ^ 31"
  shows "\<exists>ps. example_round pick pick2 c d i (p, r) = Running (''Reply to Request '' @ Sprint_d (int i + 1), ps) \<and>
    exchange_ready c d ps"
proof -
  let ?t = "''Request '' @ Sprint_d (int i + 1)"
  let ?m = "NewMsgString ?t" and ?reply = "NewMsgString (''Reply to '' @ ?t)"
  have short: "short_frames ?m" "short_frames ?reply"
    using short_number [OF assms(2)] by (intro short_text; simp)+
  have frames: "Frames ?m = [bytes_of_string ?t]" "Frames ?reply = [bytes_of_string (''Reply to '' @ ?t)]"
    by (simp_all add: NewMsgString_def)
  from assms(1) have ready: "req_ready c p" "rep_ready d r" "inp (cells (qstore p) c) = []"
      "inp (cells (rstore r) d) = []" by (simp_all add: exchange_ready_def)
  from req_Send_ready [OF ready(1), of ?m] ready(3) obtain p1 where
    p1: "req_Send ?m p = (None, p1)" "out (cells (qstore p1) c) = frames_wire ([] # Frames ?m)"
      "lastConn (qstate p1) = Some c" "\<not> readyToReq (qstate p1)" "wconns (qwriter p1) = [c]"
      "usable (cells (qstore p1) c)" "inp (cells (qstore p1) c) = []" by auto
  obtain sq sr where t1: "transfer c (qstore p1) d (rstore r) = (sq, sr)" by (cases "transfer c (qstore p1) d (rstore r)")
  note f1 = transfer_facts [OF t1]
  let ?r = "r\<lparr>rstore := sr\<rparr>"
  have "rep_ready d ?r" using ready(2) f1(5,6) by (simp add: rep_ready_def rep_waiting_def)
  moreover have "inp (cells (rstore ?r) d) = frames_wire ([] # Frames ?m)" using f1(4) ready(4) p1(2) by simp
  ultimately obtain r1 r2 r3 r4 where
    rep: "repReader_listen None d ?r = Returns r1" "rep_Recv pick None r1 = Returns ((NewMsgFrom (Frames ?m), None), r2)"
      "rep_Send pick2 None None ?reply r2 = Returns (None, r3)" "repWriter_run None r3 = Returns r4"
      "out (cells (rstore r4) d) = frames_wire ([] # Frames ?reply)" "rep_waiting d r4" "inp (cells (rstore r4) d) = []"
    using rep_exchange [of d ?r ?m pick pick2 ?reply] short(1) by blast
  have turn: "replier_turn pick pick2 r1 = Running r3"
    using replier_turn_replies [of pick r1 ?t r2 pick2 r3] rep(2,3) frames(1) by simp
  have side: "replier_side pick pick2 d ?r = Running r4"
    by (simp add: replier_side_def rep(1,4) turn)
  obtain sr1 sq1 where t2: "transfer d (rstore r4) c sq = (sr1, sq1)" by (cases "transfer d (rstore r4) c sq")
  note f2 = transfer_facts [OF t2]
  let ?p2 = "p1\<lparr>qstore := sq1\<rparr>"
  have "inp (cells (qstore ?p2) c) = frames_wire ([] # Frames ?reply)" using f2(4) f1(2) p1(7) rep(5) by simp
  then obtain p3 where p3: "req_Recv ?p2 = ((NewMsgFrom (Frames ?reply), None), p3)" "readyToReq (qstate p3)"
      "lastConn (qstate p3) = None" "qwriter p3 = qwriter p1" "out (cells (qstore p3) c) = []"
      "usable (cells (qstore p3) c)" "inp (cells (qstore p3) c) = []"
    using req_Recv_reply [of ?p2 c ?reply] p1(3,4,6) short(2) frames(2) f1(1,3) f2(5,6) by auto
  have send: "requester_send i p = Running p1" by (simp only: requester_send_def p1(1) prod.case option.case)
  have recv: "requester_recv ?p2 = Running (''Reply to '' @ ?t, p3)"
    by (simp add: requester_recv_def p3(1) NewMsgString_def)
  have "example_round pick pick2 c d i (p, r) = Running (''Reply to '' @ ?t, p3, r4\<lparr>rstore := sr1\<rparr>)"
    by (simp add: example_round_def send t1 side t2 recv)
  moreover have "exchange_ready c d (p3, r4\<lparr>rstore := sr1\<rparr>)"
    using p3(2-7) p1(5) rep(6,7) f2(1-3)
    by (simp add: exchange_ready_def req_ready_def rep_ready_def rep_waiting_def)
  ultimately show ?thesis by auto
qed

lemma example_loop_replies:
  "exchange_ready c d ps \<Longrightarrow> i + k \<le> 2 ^ 31 \<Longrightarrow>
     example_loop pick pick2 c d k i ps =
       Running (map (\<lambda>j. ''Reply to Request '' @ Sprint_d (int j + 1)) [i..<i + k])"
proof (induction k arbitrary: i ps)
  case 0
  then show ?case by simp
next
  case (Suc k)
  obtain p r where ps: "ps = (p, r)" by (cases ps)
  from example_round_replies [of c d p r i pick pick2] Suc.prems ps obtain ps1 where
    round: "example_round pick pick2 c d i ps = Running (''Reply to Request '' @ Sprint_d (int i + 1), ps1)"
      "exchange_ready c d ps1" by auto
  from Suc.IH [OF round(2), of "Suc i"] Suc.prems(2) round(1) show ?case
    by (simp add: upt_conv_Cons del: upt_Suc)
qed


section \<open>Subscriber and publisher\<close>

definition example_subscriber ::
    "duration \<Rightarrow> duration \<Rightarrow> store \<Rightarrow> 't sub_socket" where
  "example_subscriber connectTimeout retryIvl st =
     NewSub (Some \<lparr>ctx_err = None, ctx_values = []\<rparr>)
       [WithDialerRetry retryIvl, WithDialerMaxRetries (-1), WithDialTimeout connectTimeout,
        WithAutomaticReconnect True] st"

text \<open>
  The texts of the errors that the code tells apart; \<open>text_of\<close> gives those of all others.
  \<^verbatim>\<open>strings.Contains\<close>.
\<close>

fun Error_text :: "(go_error \<Rightarrow> string) \<Rightarrow> go_error \<Rightarrow> string" where
  "Error_text text_of EOF = ''EOF''"
| "Error_text text_of UnexpectedEOF = ''unexpected EOF''"
| "Error_text text_of CtxCanceled = ''context canceled''"
| "Error_text text_of CtxDeadlineExceeded = ''context deadline exceeded''"
| "Error_text text_of ErrClosedConn = ''quicmq: read/write on closed connection''"
| "Error_text text_of e = text_of e"

fun Contains :: "string \<Rightarrow> string \<Rightarrow> bool" where
  "Contains [] needle = (needle = [])"
| "Contains (c # cs) needle = (prefix needle (c # cs) \<or> Contains cs needle)"

fun needle_loop :: "string list \<Rightarrow> string \<Rightarrow> bool" where
  "needle_loop [] m = False"
| "needle_loop (needle # rest) m = (if Contains m needle then True else needle_loop rest m)"

definition isTransientErr :: "(go_error \<Rightarrow> string) \<Rightarrow> go_error option \<Rightarrow> bool" where
  "isTransientErr text_of err =
     (case err of
        None \<Rightarrow> False
      | Some e \<Rightarrow>
          if errors_Is e EOF \<or> errors_Is e ErrClosedConn then True
          else needle_loop [''EOF'', ''closed'', ''timeout'', ''no recent network activity'', ''Application error'']
                 (Error_text text_of e))"

text \<open>A round of the subscriber's loop; \<open>None\<close> is a round that only waits for the reconnection.\<close>

definition subscriber_turn ::
    "(go_error \<Rightarrow> string) \<Rightarrow> msg \<times> go_error option \<Rightarrow> string option program" where
  "subscriber_turn text_of = (\<lambda>(m, err).
     case err of
       Some e \<Rightarrow> if isTransientErr text_of err then Running None else Fatal e
     | None \<Rightarrow> (case Frames m of [] \<Rightarrow> Crashed | f # _ \<Rightarrow> Running (Some (string_of_bytes f))))"

definition publisher_data :: "nat \<Rightarrow> string" where
  "publisher_data i =
     (let topic = ''weather'' in
      topic @ '' Temperature is '' @ Sprint_d (20 + int i mod 10) @ [CHR 0xC2, CHR 0xB0, CHR ''C''])"

definition publisher_start ::
    "'t transports \<Rightarrow> ('t \<Rightarrow> gocontext \<Rightarrow> string \<Rightarrow> go_error + nat) \<Rightarrow> (nat \<Rightarrow> string) \<Rightarrow> nat
       \<Rightarrow> (pub_pools, 't) socket \<Rightarrow> (string \<times> (pub_pools, 't) socket) program" where
  "publisher_start db listen addr_of port s =
     (let addr = ''quic://0.0.0.0:'' @ Sprint_d (int port) in
      case socket_Listen db listen addr s of
        (Some e, _) \<Rightarrow> Fatal e
      | (None, s1) \<Rightarrow>
          Running (''Publisher listening on '' @
            (case socket_Addr addr_of s1 of Some l \<Rightarrow> l @ '' (local port: '' @ l @ '')'' | None \<Rightarrow> addr), s1))"

text \<open>A round of the publisher: the data it prints as published, or the error it logs.\<close>

definition publisher_turn ::
    "(nat \<Rightarrow> nat) \<Rightarrow> nat \<Rightarrow> (pub_pools, 't, 'm) socket_scheme
       \<Rightarrow> ((go_error + string) \<times> (pub_pools, 't, 'm) socket_scheme) program" where
  "publisher_turn picks i s =
     (let data = publisher_data i in
      case pub_Send (\<lambda>k. (picks k, None)) (NewMsgString data) s of
        None \<Rightarrow> Crashed
      | Some (Some e, s1) \<Rightarrow> Running (Inl e, s1)
      | Some (None, s1) \<Rightarrow> Running (Inr data, s1))"

fun publisher_loop ::
    "(nat \<Rightarrow> nat) \<Rightarrow> nat \<Rightarrow> nat \<Rightarrow> (pub_pools, 't, 'm) socket_scheme
       \<Rightarrow> ((go_error + string) list \<times> (pub_pools, 't, 'm) socket_scheme) program" where
  "publisher_loop picks 0 i s = Running ([], s)"
| "publisher_loop picks (Suc n) i s =
     (case publisher_turn picks i s of
        Running (line, s1) \<Rightarrow>
          (case publisher_loop picks n (Suc i) s1 of
             Running (lines, s2) \<Rightarrow> Running (line # lines, s2)
           | Fatal e \<Rightarrow> Fatal e | Crashed \<Rightarrow> Crashed | Stuck \<Rightarrow> Stuck)
      | Fatal e \<Rightarrow> Fatal e
      | Crashed \<Rightarrow> Crashed
      | Stuck \<Rightarrow> Stuck)"

text \<open>The subscriber until it reaches its loop: connect, then subscribe; an error ends the program.\<close>

definition subscriber_start ::
    "'t transports \<Rightarrow> ('t \<Rightarrow> gocontext \<Rightarrow> string \<Rightarrow> nat \<Rightarrow> attempt) \<Rightarrow> ctx \<Rightarrow> conn_id \<Rightarrow> string
       \<Rightarrow> 't sub_socket \<Rightarrow> 't sub_socket program" where
  "subscriber_start drivers env deadline c addr s =
     (case socket_Dial drivers base_ops (Some sub_onConnAdded) env c addr s of
        Waits \<Rightarrow> Stuck
      | Panics \<Rightarrow> Crashed
      | Returns (Some e, _) \<Rightarrow> Fatal e
      | Returns (None, s1) \<Rightarrow>
          (case sub_SetOption deadline OptionSubscribe (AnyString ''weather'') s1 of
             Waits \<Rightarrow> Stuck
           | Panics \<Rightarrow> Crashed
           | Returns (Some e, _) \<Rightarrow> Fatal e
           | Returns (None, s2) \<Rightarrow> Running s2))"

text \<open>Its loop, with the goroutine of connection \<open>c\<close>, for \<open>n\<close> rounds; a round prints a line or waits.\<close>

fun subscriber_loop ::
    "(go_error \<Rightarrow> string) \<Rightarrow> nat \<Rightarrow> nat \<Rightarrow> conn_id \<Rightarrow> (base_pools, 't, 'm) socket_scheme \<Rightarrow> string list program" where
  "subscriber_loop text_of 0 pick c u = Running []"
| "subscriber_loop text_of (Suc n) pick c u =
     (case sub_take pick c u of
        Waits \<Rightarrow> Stuck
      | Panics \<Rightarrow> Crashed
      | Returns (r, u1) \<Rightarrow>
          (case subscriber_turn text_of r of
             Running line \<Rightarrow>
               (case subscriber_loop text_of n pick c u1 of
                  Running lines \<Rightarrow> Running (case line of None \<Rightarrow> lines | Some l \<Rightarrow> l # lines)
                | Fatal e \<Rightarrow> Fatal e | Crashed \<Rightarrow> Crashed | Stuck \<Rightarrow> Stuck)
           | Fatal e \<Rightarrow> Fatal e
           | Crashed \<Rightarrow> Crashed
           | Stuck \<Rightarrow> Stuck))"

lemma publisher_loop_publish_all:
  "publish_all picks (map (\<lambda>j. NewMsgString (publisher_data j)) [i..<i + n]) s = Some s1 \<Longrightarrow>
     publisher_loop picks n i s = Running (map (\<lambda>j. Inr (publisher_data j)) [i..<i + n], s1)"
proof (induction n arbitrary: i s)
  case 0
  then show ?case by simp
next
  case (Suc n)
  have upt: "[i..<i + Suc n] = i # [Suc i..<Suc i + n]" by (simp add: upt_conv_Cons del: upt_Suc)
  from Suc.prems obtain s2 where
    s2: "pub_Send (\<lambda>k. (picks k, None)) (NewMsgString (publisher_data i)) s = Some (None, s2)"
      "publish_all picks (map (\<lambda>j. NewMsgString (publisher_data j)) [Suc i..<Suc i + n]) s2 = Some s1"
    unfolding upt by (auto split: option.splits prod.splits simp del: upt_Suc)
  show ?case using Suc.IH [OF s2(2)] s2(1) unfolding upt
    by (simp add: publisher_turn_def del: upt_Suc)
qed

lemma subscriber_loop_take_n:
  "sub_take_n n pick c u = Returns (map (\<lambda>t. (NewMsgString t, None)) ts, u1) \<Longrightarrow>
     subscriber_loop text_of n pick c u = Running ts"
proof (induction n arbitrary: u ts)
  case 0
  then show ?case by simp
next
  case (Suc n)
  then obtain t ts1 u2 where
    t: "ts = t # ts1" "sub_take pick c u = Returns ((NewMsgString t, None), u2)"
      "sub_take_n n pick c u2 = Returns (map (\<lambda>t. (NewMsgString t, None)) ts1, u1)"
    by (auto split: blocking.splits)
  from Suc.IH [OF t(3)] t(1,2) show ?case by (simp add: subscriber_turn_def NewMsgString_def)
qed

text \<open>Every message of the publisher begins with the topic of the subscriber.\<close>

lemma publisher_data_topic: "prefix ''weather'' (publisher_data i)"
  by (simp add: publisher_data_def)

lemma publisher_data_short: "length (publisher_data i) < 2 ^ 32"
proof -
  have "nat (20 + int i mod 10) < 10 ^ 2" by simp
  from length_decimal [OF this] have "length (decimal (nat (20 + int i mod 10))) \<le> 2" by simp
  moreover have "\<not> 20 + int i mod 10 < 0" by (simp add: not_less)
  ultimately show ?thesis by (simp add: publisher_data_def Sprint_d_def)
qed

lemma io_ReadFull_error:
  assumes "io_ReadFull n r = (got, Some e, r')"
  shows "e = short_read_error (content r) (rd_end r)"
  using assms io_ReadFull_enough [of n r] io_ReadFull_short [of r n] by (cases "n \<le> length (content r)") auto

lemma read_loop_end:
  "read_loop fs r = (fs', e, r') \<Longrightarrow>
     (e = None \<longrightarrow> fs' \<noteq> []) \<and> e \<in> {None, Some UnexpectedEOF, Some (rd_end r)}"
proof (induction fs r rule: read_loop.induct)
  case (1 fs r)
  note unfold = read_loop.simps [of fs r]
  obtain b1 e1 r1 where h1: "io_ReadFull 1 r = (b1, e1, r1)" by (cases "io_ReadFull 1 r")
  obtain b2 e2 r2 where h2: "io_ReadFull 4 r1 = (b2, e2, r2)" by (cases "io_ReadFull 4 r1")
  obtain b3 e3 r3 where h3: "io_ReadFull (unat (Uint32 b2)) r2 = (b3, e3, r3)"
    by (cases "io_ReadFull (unat (Uint32 b2)) r2")
  have ends: "e1 = None \<Longrightarrow> rd_end r1 = rd_end r" "e2 = None \<Longrightarrow> rd_end r2 = rd_end r1"
      "e3 = None \<Longrightarrow> rd_end r3 = rd_end r2"
    using h1 h2 h3 io_ReadFull_None by blast+
  show ?case
  proof (cases "e1 = None \<and> e2 = None \<and> e3 = None")
    case True
    then have none: "e1 = None" "e2 = None" "e3 = None" by simp_all
    note step = "1.IH" [OF h1 [symmetric] refl none(1) h2 [symmetric] refl none(2) h3 [symmetric] refl none(3)]
    from True h1 h2 h3 ends "1.prems" step show ?thesis
      by (auto simp: unfold simp del: One_nat_def split: if_splits)
  next
    case False
    with h1 h2 h3 ends "1.prems" show ?thesis
      by (auto simp: unfold short_read_error_def simp del: One_nat_def dest!: io_ReadFull_error
          split: option.splits if_splits)
  qed
qed


lemma sub_take_read:
  assumes "sub_ready u" and "st_read c (bst (pools u)) = (m, st)"
  shows "\<exists>u1. sub_take pick c u = Returns ((m, msg_err m), u1)"
proof -
  let ?q = "bq (pools u)"
  from assms(1) have u: "ctx_err (sck_ctx u) = None" "chan_recv (qsem ?q) = ChanClosed" "buf (qc ?q) = []"
      "cap (qc ?q) = 10" "\<not> chan_closed (qc ?q)" by (simp_all add: sub_ready_def)
  have "chan_recv ((qc ?q)\<lparr>buf := [m]\<rparr>) = Received m ((qc ?q)\<lparr>buf := []\<rparr>)"
    by (simp add: chan_recv_def)
  moreover obtain q st' where "qreader_listen (ctx_err (sck_ctx u)) c (?q, bst (pools u)) = Returns (q, st')"
      "qc q = (qc ?q)\<lparr>buf := [m]\<rparr>" "qsem q = qsem ?q"
    using u assms(2)
    by (cases "st_Close c st"; cases "msg_err m") (auto simp: qreader_listen_def qreader_leave_def qreader_rmConn_def chan_send_def
        split: prod.splits)
  ultimately show ?thesis using u
    by (simp add: sub_take_def socket_Recv_def qreader_read_def child_ctx_def sem_lock_ready_def case_recv_def)
qed

lemma st_read_result:
  assumes "st_read c st = (m, st1)"
  shows "(msg_err m = None \<longrightarrow> Frames m \<noteq> []) \<and>
    msg_err m \<in> {None, Some UnexpectedEOF, Some (rd_end (rd (rw (cells st c))))}"
proof -
  obtain fs e r where r: "read_loop [] (rd (rw (cells st c))) = (fs, e, r)"
    by (cases "read_loop [] (rd (rw (cells st c)))")
  with assms have "Frames m = fs" "msg_err m = e"
    by (auto simp: st_read_def on_cell_def conn_read_def split: prod.splits)
  with read_loop_end [OF r] show ?thesis by simp
qed

lemma transient_UnexpectedEOF: "isTransientErr text_of (Some UnexpectedEOF)"
  by (simp add: isTransientErr_def)

section \<open>Properties\<close>

text \<open>
  C17: The example requester and replier together: over a connection that works, the requester's
  loop receives a reply in every round, and the replies are those to its requests, numbered from 1,
  in order, for any number of rounds up to \<open>2 ^ 31\<close>; neither program stops, waits or panics.
\<close>

theorem requests_answered:
  assumes "exchange_ready c d ps" and "k \<le> 2 ^ 31"
  shows "example_loop pick pick2 c d k 0 ps =
    Running (map (\<lambda>j. ''Reply to Request '' @ Sprint_d (int j + 1)) [0..<k])"
  using example_loop_replies [OF assms(1), of 0 k pick pick2] assms(2) by simp

lemma demo_exchange_ready: "exchange_ready 1 2 (reqWriter_addConn 1 (newReq_pools fresh_store), demo_rep [])"
proof -
  have "inp (cells (qstore (reqWriter_addConn 1 (newReq_pools fresh_store))) 1) = []"
    by (simp add: reqWriter_addConn_def newReq_pools_def fresh_store_def new_conn_def content_def bytes_NewReader_def)
  with demo_req_ready demo_rep_ready [of "[]"] demo_rep_inp [of "[]"] show ?thesis by (simp add: exchange_ready_def)
qed

theorem requests_answered_witness:
  "example_loop 0 0 1 2 2 0 (reqWriter_addConn 1 (newReq_pools fresh_store), demo_rep []) =
     Running [''Reply to Request 1'', ''Reply to Request 2'']"
proof -
  have texts: "map (\<lambda>j. ''Reply to Request '' @ Sprint_d (int j + 1)) [0..<2] =
      [''Reply to Request 1'', ''Reply to Request 2'']"
    by code_simp
  show ?thesis
    by (subst requests_answered [OF demo_exchange_ready]) (simp_all only: texts, simp)
qed

text \<open>
  A request without frames, which \<^verbatim>\<open>Send\<close> of a REQ socket accepts, crashes the example
  replier: the message it receives has no frame, and it takes the first.
\<close>

theorem empty_request_crashes_replier:
  assumes "exchange_ready c d (p, r)"
  shows "\<exists>p1. req_Send (NewMsgFrom []) p = (None, p1) \<and>
    (case transfer c (qstore p1) d (rstore r) of
       (sq, sr) \<Rightarrow> replier_side pick pick2 d (r\<lparr>rstore := sr\<rparr>) = Crashed)"
proof -
  let ?m = "NewMsgFrom []"
  have m: "short_frames ?m" "Frames ?m = []" by (simp_all add: short_frames_def NewMsgFrom_def)
  from assms have ready: "req_ready c p" "rep_ready d r" "inp (cells (rstore r) d) = []"
    by (simp_all add: exchange_ready_def)
  from req_Send_ready [OF ready(1), of ?m] obtain p1 where
    p1: "req_Send ?m p = (None, p1)" "out (cells (qstore p1) c) = frames_wire ([] # Frames ?m)" by blast
  obtain sq sr where t: "transfer c (qstore p1) d (rstore r) = (sq, sr)" by (cases "transfer c (qstore p1) d (rstore r)")
  note f = transfer_facts [OF t]
  have "rep_ready d (r\<lparr>rstore := sr\<rparr>)" using ready(2) f(5,6) by (simp add: rep_ready_def rep_waiting_def)
  moreover have "inp (cells (rstore (r\<lparr>rstore := sr\<rparr>)) d) = frames_wire ([] # Frames ?m)"
    using f(4) ready(3) p1(2) by simp
  ultimately obtain r1 r2 where "repReader_listen None d (r\<lparr>rstore := sr\<rparr>) = Returns r1"
      "rep_Recv pick None r1 = Returns ((NewMsgFrom (Frames ?m), None), r2)"
    using rep_exchange [OF _ m(1)] by blast
  with p1(1) t m(2) show ?thesis by (simp add: replier_side_def replier_turn_def)
qed

theorem empty_request_crashes_replier_witness:
  "\<exists>p1. req_Send (NewMsgFrom []) (reqWriter_addConn 1 (newReq_pools fresh_store)) = (None, p1) \<and>
    (case transfer 1 (qstore p1) 2 (rstore (demo_rep [])) of
       (sq, sr) \<Rightarrow> replier_side 0 0 2 ((demo_rep [])\<lparr>rstore := sr\<rparr>) = Crashed)"
  by (rule empty_request_crashes_replier [OF demo_exchange_ready])

text \<open>
  C21: The example subscriber survives whatever arrives: when the goroutine of a connection has
  read once, from any bytes at all, and the way the connection ends is one that
  \<^verbatim>\<open>isTransientErr\<close> accepts, the round of the loop that takes the result prints a frame or waits
  for the reconnection; it neither stops the program nor panics. Once its context is done it stops.
\<close>

theorem subscriber_survives:
  assumes "sub_ready u" and "isTransientErr text_of (Some (rd_end (rd (rw (cells (bst (pools u)) c)))))"
  shows "(\<exists>m e u1 line. sub_take pick c u = Returns ((m, e), u1) \<and>
        subscriber_turn text_of (m, e) = Running line \<and> (line = None \<longleftrightarrow> e \<noteq> None)) \<and>
      (\<forall>m. subscriber_turn text_of (m, Some CtxCanceled) = Fatal CtxCanceled)"
proof -
  obtain m st where r: "st_read c (bst (pools u)) = (m, st)" by (cases "st_read c (bst (pools u))")
  from sub_take_read [OF assms(1) r, of pick] obtain u1 where
    u1: "sub_take pick c u = Returns ((m, msg_err m), u1)" by blast
  have "\<exists>line. subscriber_turn text_of (m, msg_err m) = Running line \<and> (line = None \<longleftrightarrow> msg_err m \<noteq> None)"
    using st_read_result [OF r] assms(2) transient_UnexpectedEOF [of text_of]
    by (cases "Frames m") (auto simp: subscriber_turn_def)
  moreover have "subscriber_turn text_of (m, Some CtxCanceled) = Fatal CtxCanceled" for m
    by (simp add: subscriber_turn_def isTransientErr_def)
  ultimately show ?thesis using u1 by blast
qed

definition demo_cut_subscriber :: "nat sub_socket" where
  "demo_cut_subscriber =
     (let st = fresh_store\<lparr>cells := (\<lambda>_. new_conn (bytes_NewReader [0, 9]) \<lparr>wr_script = [], written = []\<rparr>)\<rparr> in
      (NewSub None [] st)\<lparr>pools := (new_base_pools st)\<lparr>bq := qreader_addConn 5 newQReader\<rparr>\<rparr>)"

theorem subscriber_survives_witness:
  "\<exists>m e u1 line. sub_take 0 5 demo_cut_subscriber = Returns ((m, e), u1) \<and>
      subscriber_turn (\<lambda>_. '''') (m, e) = Running line \<and> (line = None \<longleftrightarrow> e \<noteq> None)"
proof -
  have ready: "sub_ready demo_cut_subscriber" by code_simp
  have "isTransientErr (\<lambda>_. '''') (Some (rd_end (rd (rw (cells (bst (pools demo_cut_subscriber)) 5)))))"
    by code_simp
  from subscriber_survives [OF ready this, of 0] show ?thesis by blast
qed


text \<open>
  The example publisher and subscriber together: while a subscriber's connection has the topic
  \<^verbatim>\<open>weather\<close> and its queue has room for what the publisher's loop sends, every round of the publisher
  publishes its temperature, and the subscriber's loop prints exactly these texts in order.
\<close>

theorem temperatures_printed:
  assumes "pub_wf (pub_w (pools s))" and "(d, a) \<in> set (sub_list (pub_w (pools s)))"
    and "ctx_err (sck_ctx s) = None"
    and "j < length (drainers (pub_w (pools s)))"
    and "drainers (pub_w (pools s)) ! j = \<lparr>dr_chan = a, dr_conn = d, dr_msg = None\<rparr>"
    and "buf (chans (pub_w (pools s)) ! a) = []" and "n \<le> cap (chans (pub_w (pools s)) ! a)"
    and "usable (cells (pub_st (pools s)) d)" and "out (cells (pub_st (pools s)) d) = []"
    and "''weather'' \<in> set (topics (cells (pub_st (pools s)) d))" and "sub_ready u"
  shows "\<exists>s1 w2 st2. publisher_loop picks n i s = Running (map (\<lambda>j. Inr (publisher_data j)) [i..<i + n], s1) \<and>
    drain_n n j (pub_w (pools s1), pub_st (pools s1)) = Returns (w2, st2) \<and>
    (inp (cells (bst (pools u)) c) = out (cells st2 d) \<longrightarrow>
       subscriber_loop text_of n pick c u = Running (map publisher_data [i..<i + n]))"
proof -
  let ?w = "pub_w (pools s)" and ?st = "pub_st (pools s)"
  let ?ms = "map (\<lambda>j. NewMsgString (publisher_data j)) [i..<i + n]"
  have topic: "msg_topic (NewMsgString (publisher_data j)) = publisher_data j" for j
    by (simp add: msg_topic_def NewMsgString_def)
  have "subscribed (cells ?st d) (publisher_data j)" for j
    using assms(10) publisher_data_topic by (auto simp: conn_topics.matches_iff)
  then have all: "filter (\<lambda>m. subscribed (cells ?st d) (msg_topic m)) ?ms = ?ms"
    by (auto simp: filter_map o_def topic intro: filter_True)
  from publish_all_queued [OF assms(1-3), of ?ms picks] assms(6,7) all obtain s1 where
    s1: "publish_all picks ?ms s = Some s1" "pub_st (pools s1) = ?st" "drainers (pub_w (pools s1)) = drainers ?w"
      "length (chans (pub_w (pools s1))) = length (chans ?w)" "buf (chans (pub_w (pools s1)) ! a) = ?ms"
    by auto
  have "a < length (chans ?w)" using assms(1,2) by (auto simp: pub_wf_def)
  with drain_n_queue [of j "pub_w (pools s1)" a d ?st ?ms] s1(3-5) assms(4,5,8,9) obtain w2 st2 where
    w2: "drain_n n j (pub_w (pools s1), ?st) = Returns (w2, st2)"
      "out (cells st2 d) = concat (map (\<lambda>m. frames_wire (Frames m)) ?ms)"
    by auto
  have "list_all (\<lambda>m. encodable (Frames m)) ?ms"
    using publisher_data_short by (auto simp: list_all_iff encodable_def NewMsgString_def)
  note take = sub_take_n_wire [OF assms(11) this, of c pick]
  have again: "map (\<lambda>m. (NewMsgFrom (Frames m), None)) ?ms = map (\<lambda>t. (NewMsgString t, None :: go_error option))
      (map publisher_data [i..<i + n])"
    by (simp add: NewMsgString_def NewMsgFrom_def NewMsg_def)
  have "subscriber_loop text_of n pick c u = Running (map publisher_data [i..<i + n])"
    if "inp (cells (bst (pools u)) c) = out (cells st2 d)"
    using take that w2(2) subscriber_loop_take_n [of n pick c u "map publisher_data [i..<i + n]"]
    unfolding again by auto
  with publisher_loop_publish_all [OF s1(1)] w2(1) s1(2) show ?thesis by auto
qed


definition demo_weather_store :: store where
  "demo_weather_store = fresh_store\<lparr>cells := (\<lambda>_. (new_conn (bytes_NewReader []) \<lparr>wr_script = [], written = []\<rparr>)\<lparr>topics := [''weather'']\<rparr>)\<rparr>"

definition demo_weather_publisher :: "(pub_pools, nat) socket" where
  "demo_weather_publisher =
     (NewPub None [] demo_weather_store)\<lparr>pools := (new_pub_pools demo_weather_store)\<lparr>pub_w := demo_pub\<rparr>\<rparr>"

theorem temperatures_printed_witness:
  "\<exists>s1. publisher_loop (\<lambda>_. 0) 2 9 demo_weather_publisher =
     Running ([Inr (publisher_data 9), Inr (publisher_data 10)], s1)"
proof -
  have p: "pools demo_weather_publisher = \<lparr>pub_r = newPubQReader, pub_w = demo_pub, pub_st = demo_weather_store\<rparr>"
    "ctx_err (sck_ctx demo_weather_publisher) = None"
    by (simp_all add: demo_weather_publisher_def new_pub_pools_def NewPub_def newSocket_def newDefaultSocket_def)
  have st: "topics (cells demo_weather_store 1) = [''weather'']" "usable (cells demo_weather_store 1)"
      "out (cells demo_weather_store 1) = []"
    by (simp_all add: demo_weather_store_def fresh_store_def new_conn_def usable_def Closed_def healthy_def)
  have u: "sub_ready demo_subscriber" by code_simp
  from temperatures_printed [of demo_weather_publisher 1 0 0, OF _ _ _ _ _ _ _ _ _ _ u,
      where n = 2 and picks = "\<lambda>_. 0" and i = 9 and pick = 0 and c = 5] p st demo_pub_wf
  show ?thesis by (auto simp: demo_pub_eq sub_list_def make_chan_def)
qed


text \<open>
  With the transport that \<^verbatim>\<open>init\<close> registers, the listening programs start just when the transport can
  listen, and print the address it has.
\<close>

lemma splitAddr_quic: "splitAddr (''quic://'' @ addr) = Inr (''quic'', addr)"
proof -
  have "SplitN2 ''://'' (''quic'' @ ''://'' @ addr) = [''quic'', addr]"
    by (simp add: SplitN2.simps)
  then show ?thesis by (simp add: splitAddr_def Let_def)
qed


theorem listening_programs_start:
  assumes "register_quic type_name quic empty_drivers = Some db"
    and "\<And>c. listen quic c (''0.0.0.0:'' @ Sprint_d (int port)) = r"
  shows "(case r of
      Inl e \<Rightarrow> (\<exists>x y. replier_start db listen addr_of port (example_replier st) = Fatal x \<and>
                 publisher_start db listen addr_of port (NewPub g [] st) = Fatal y)
    | Inr l \<Rightarrow> (\<exists>s p. replier_start db listen addr_of port (example_replier st) =
                   Running (''Replier listening on '' @ addr_of l, s) \<and> listener s = Some l \<and>
                 publisher_start db listen addr_of port (NewPub g [] st) =
                   Running (''Publisher listening on '' @ addr_of l @ '' (local port: '' @ addr_of l @ '')'', p) \<and>
                 listener p = Some l))"
proof -
  have quic: "transports_get ''quic'' db = Some quic"
    using assms(1) register_quic_start [of type_name quic] by auto
  have split: "splitAddr (''quic://0.0.0.0:'' @ t) = Inr (''quic'', ''0.0.0.0:'' @ t)" for t
    using splitAddr_quic [of "''0.0.0.0:'' @ t"] by simp
  have listen: "socket_Listen db listen (''quic://0.0.0.0:'' @ Sprint_d (int port)) s =
      (case r of Inl e \<Rightarrow> (Some (Wrapf ''quicmq: could not listen to %q: %w''
                              [Str (''quic://0.0.0.0:'' @ Sprint_d (int port))] e),
                           s\<lparr>ep := ''quic://0.0.0.0:'' @ Sprint_d (int port), isDialer := False\<rparr>)
       | Inr l \<Rightarrow> (None, start_reaper (s\<lparr>ep := ''quic://0.0.0.0:'' @ Sprint_d (int port), isDialer := False,
                                         listener := Some l\<rparr>)))" for s :: "('p, 'a) socket"
    unfolding socket_Listen_def Let_def split by (cases r) (simp_all only: quic assms(2) sum.case prod.case option.case)
  show ?thesis
    by (cases r) (simp_all only: replier_start_def publisher_start_def Let_def listen,
      auto simp: socket_Addr_def start_reaper_def)
qed

end
