(* ===== verification/Lifecycle.thy ===== *)
theory Lifecycle
  imports Patterns
begin

text \<open>
  What sockets promise beside moving messages: which option values they take, what ends when a
  socket is closed and what does not, and that the datagram sockets give back what they opened.
\<close>

section \<open>Closed sockets\<close>

lemma socket_Close_frame:
  assumes "ctx_err (sck_ctx s) = None"
  shows "ctx_err (sck_ctx (snd (socket_Close ops s))) = Some CtxCanceled"
    "\<exists>st. pools (snd (socket_Close ops s)) = put_store ops st (pools s)"
proof -
  obtain e st where c: "close_all (conns s) None (get_store ops (pools s)) = (e, st)"
    by (cases "close_all (conns s) None (get_store ops (pools s))")
  with assms show "ctx_err (sck_ctx (snd (socket_Close ops s))) = Some CtxCanceled"
    "\<exists>st. pools (snd (socket_Close ops s)) = put_store ops st (pools s)"
    by (auto simp: socket_Close_def Let_def)
qed

lemma qreader_read_done:
  assumes "buf (qc q) = []" and "\<not> chan_closed (qc q)"
  shows "qreader_read pick (Some e) q = Returns (Some e, empty_msg, q)"
  using assms by (simp add: qreader_read_def sem_lock_ready_def case_recv_def chan_recv_def)

lemma qreader_read_live_empty:
  assumes "buf (qc q) = []" and "\<not> chan_closed (qc q)"
  shows "qreader_read pick None q = Waits"
  using assms by (simp add: qreader_read_def case_recv_def chan_recv_def)

text \<open>
  C26: \<^verbatim>\<open>Recv\<close> on an open socket with nothing queued waits, whatever \<^verbatim>\<open>WithTimeout\<close> was given; once
  the socket is closed it returns the error of the context; \<^verbatim>\<open>Send\<close> returns, the reaper and the accepting goroutine end, and so
  does a reader that finds the context done when it has read.
\<close>

theorem Close_releases:
  assumes "ctx_err (sck_ctx s) = None" and "buf (qc (bq (pools s))) = []" and "\<not> chan_closed (qc (bq (pools s)))"
    and "t = snd (socket_Close base_ops s)"
  shows "socket_Recv pick (WithTimeout d s) = Waits \<and>
    socket_Recv pick t = Returns ((empty_msg, Some CtxCanceled), t) \<and>
    socket_Send own m t \<noteq> Waits \<and> reaper_take t = Returns t \<and>
    socket_accept base_ops onAdded a c t = Some t \<and>
    qreader_listen (ctx_err (sck_ctx t)) r (bq (pools t), bst (pools t)) \<noteq> Waits"
proof -
  have ctx: "ctx_err (sck_ctx t) = Some CtxCanceled"
    using socket_Close_frame(1) [OF assms(1)] assms(4) by simp
  have q: "bq (pools t) = bq (pools s)"
    using socket_Close_frame(2) [OF assms(1), of base_ops] assms(4) by (auto simp: base_ops_simps)
  have same: "t\<lparr>pools := (pools t)\<lparr>bq := bq (pools s)\<rparr>\<rparr> = t"
    unfolding q [symmetric] by simp
  have "socket_Recv pick t = Returns ((empty_msg, Some CtxCanceled), t)"
    using qreader_read_done [OF assms(2,3)] same by (simp add: socket_Recv_def child_ctx_def ctx q)
  moreover have "socket_Recv pick (WithTimeout d s) = Waits"
    using qreader_read_live_empty [OF assms(2,3)] assms(1)
    by (simp add: socket_Recv_def child_ctx_def WithTimeout_def)
  moreover have "socket_Send own m t \<noteq> Waits"
    by (simp add: socket_Send_def child_ctx_def ctx mwriter_write_def sem_lock_ready_def split: prod.split)
  moreover have "qreader_listen (ctx_err (sck_ctx t)) r (bq (pools t), bst (pools t)) \<noteq> Waits"
    by (simp add: qreader_listen_def ctx split: prod.split)
  ultimately show ?thesis by (simp add: reaper_take_def socket_accept_def ctx)
qed

theorem Close_releases_witness:
  "socket_Recv 0 (WithTimeout 1 demo_socket) = Waits \<and>
   socket_Recv 0 (snd (socket_Close base_ops demo_socket)) =
     Returns ((empty_msg, Some CtxCanceled), snd (socket_Close base_ops demo_socket))"
proof -
  have "ctx_err (sck_ctx demo_socket) = None" "buf (qc (bq (pools demo_socket))) = []"
      "\<not> chan_closed (qc (bq (pools demo_socket)))"
    by (simp_all add: demo_socket_def newDefaultSocket_def new_base_pools_def newQReader_def make_chan_def)
  from Close_releases [OF this refl, of 0 1] show ?thesis by blast
qed

text \<open>
  The second half of a round of a reader, when it has read \<open>m\<close> from a live socket: it does not look at
  the context again. A reader that waits for room in a full queue therefore stays when the socket
  is closed and nobody receives.
\<close>

definition qreader_push :: "msg \<Rightarrow> conn_id \<Rightarrow> qreader \<times> store \<Rightarrow> (qreader \<times> store) blocking" where
  "qreader_push m r = (\<lambda>(q, st).
     case chan_send m (qc q) of
       Sent ch \<Rightarrow>
         (let q1 = q\<lparr>qc := ch\<rparr> in Returns (if msg_err m \<noteq> None then qreader_leave r (q1, st) else (q1, st)))
     | _ \<Rightarrow> Waits)"

lemma qreader_listen_halves:
  "qreader_listen c r (q, st) =
     (case st_read r st of (m, st1) \<Rightarrow>
        if c \<noteq> None then Returns (qreader_leave r (q, st1)) else qreader_push m r (q, st1))"
  by (simp add: qreader_listen_def qreader_push_def split: prod.split)

theorem blocked_reader_stays:
  assumes "qreader_push m r (bq (pools s), bst (pools s)) = Waits" and "ctx_err (sck_ctx s) = None"
    and "t = snd (socket_Close base_ops s)"
  shows "qreader_push m r (bq (pools t), bst (pools t)) = Waits"
proof -
  have "bq (pools t) = bq (pools s)"
    using socket_Close_frame(2) [OF assms(2), of base_ops] assms(3) by (auto simp: base_ops_simps)
  with assms(1) show ?thesis by (simp add: qreader_push_def Let_def split: send_result.splits)
qed

text \<open>
  The goroutine of a subscriber's queue does not end with its socket: after \<^verbatim>\<open>Close\<close> the reaper
  has ended, so nothing removes the connection and closes the queue, and the goroutine waits on it.
\<close>

theorem publisher_goroutine_stays:
  assumes "ctx_err (sck_ctx s) = None" and "dr_msg (drainers (pub_w (pools s)) ! j) = None"
    and "buf (chans (pub_w (pools s)) ! dr_chan (drainers (pub_w (pools s)) ! j)) = []"
    and "\<not> chan_closed (chans (pub_w (pools s)) ! dr_chan (drainers (pub_w (pools s)) ! j))"
    and "t = snd (socket_Close pub_ops s)"
  shows "reaper_take t = Returns t \<and> drain_recv j (pub_w (pools t)) = Waits"
proof -
  have "pub_w (pools t) = pub_w (pools s)"
    using socket_Close_frame(2) [OF assms(1), of pub_ops] assms(5) by (auto simp: pub_ops_def)
  with assms(2-4) have "drain_recv j (pub_w (pools t)) = Waits"
    by (simp add: drain_recv_def Let_def chan_recv_def)
  then show ?thesis
    using socket_Close_frame(1) [OF assms(1), of pub_ops] assms(5) by (simp add: reaper_take_def)
qed

section \<open>Option values\<close>

definition is_string :: "go_any \<Rightarrow> bool" where
  "is_string v = (case v of AnyString s \<Rightarrow> True | _ \<Rightarrow> False)"

definition is_int :: "go_any \<Rightarrow> bool" where
  "is_int v = (case v of AnyInt n \<Rightarrow> True | _ \<Rightarrow> False)"

lemma socket_Send_total: "socket_Send d m s \<noteq> Panics"
  by (simp add: socket_Send_def mwriter_write_def split: prod.split)

text \<open>
  C32: The types of option values: \<^verbatim>\<open>SetOption\<close> of a SUB and of a DSUB socket panics exactly for a
  subscription or its end with a value that is no string; that of a PUB socket never panics, and
  accepts exactly an \<^verbatim>\<open>int\<close> for the high-water mark, which is then the one in force. A refused value
  leaves the mark, but is stored: \<^verbatim>\<open>GetOption\<close> returns it.
\<close>

theorem option_values_typed:
  "(sub_SetOption own name v u = Panics \<longleftrightarrow>
     (name = OptionSubscribe \<or> name = OptionUnsubscribe) \<and> \<not> is_string v) \<and>
   (dsub_SetOption name v w = None \<longleftrightarrow>
     (name = OptionSubscribe \<or> name = OptionUnsubscribe) \<and> \<not> is_string v) \<and>
   (fst (pub_SetOption name v p) = (if name = OptionHWM \<and> is_int v then None else Some ErrBadProperty)) \<and>
   hwm (pub_w (pools (snd (pub_SetOption name v p)))) =
     (if name = OptionHWM then case v of AnyInt n \<Rightarrow> n | _ \<Rightarrow> hwm (pub_w (pools p)) else hwm (pub_w (pools p))) \<and>
   socket_GetOption name (snd (pub_SetOption name v p)) = (Some v, None)"
proof (intro conjI)
  show "sub_SetOption own name v u = Panics \<longleftrightarrow>
     (name = OptionSubscribe \<or> name = OptionUnsubscribe) \<and> \<not> is_string v"
    using socket_Send_total by (cases v) (auto simp: sub_SetOption_def socket_SetOption_def is_string_def Let_def option_names)
  show "dsub_SetOption name v w = None \<longleftrightarrow>
     (name = OptionSubscribe \<or> name = OptionUnsubscribe) \<and> \<not> is_string v"
    by (cases v) (auto simp: dsub_SetOption_def is_string_def)
  show "fst (pub_SetOption name v p) = (if name = OptionHWM \<and> is_int v then None else Some ErrBadProperty)"
    by (cases v) (auto simp: pub_SetOption_def socket_SetOption_def is_int_def)
  show "hwm (pub_w (pools (snd (pub_SetOption name v p)))) =
     (if name = OptionHWM then case v of AnyInt n \<Rightarrow> n | _ \<Rightarrow> hwm (pub_w (pools p)) else hwm (pub_w (pools p)))"
    by (cases v) (auto simp: pub_SetOption_def socket_SetOption_def)
  show "socket_GetOption name (snd (pub_SetOption name v p)) = (Some v, None)"
    by (cases v) (auto simp: pub_SetOption_def socket_SetOption_def socket_GetOption_def)
qed

section \<open>The resources of the datagram sockets\<close>

text \<open>
  A datagram socket gives back what it opened: after one \<^verbatim>\<open>Listen\<close> or \<^verbatim>\<open>Dial\<close>, successful or
  not, and \<^verbatim>\<open>Close\<close>, no UDP socket is open, the listener that was made is closed, and so is every
  connection that was dialled.
\<close>

theorem datagram_sockets_released:
  assumes "dpub_Listen generated resolve udp listen ep1 (NewDatagramPub g opts) = (e1, p, tr1)"
    and "dpub_Close p = (e2, p', tr2)"
    and "dsub_Dial net ep2 (NewDatagramSub g' opts') = (e3, s, tr3)" and "dsub_Close s = (e4, s', tr4)"
  shows "open_udps (tr1 @ tr2) = {#} \<and> ((\<exists>t q. ListenQUIC t q \<in> set tr1) \<longrightarrow> CloseListener \<in> set tr2) \<and>
    open_udps (tr3 @ tr4) = {#} \<and>
    (\<forall>q t cfg. DialQUIC q t cfg \<in> set tr3 \<longrightarrow> (\<exists>reason. CloseWithError q reason \<in> set (tr3 @ tr4)))"
proof -
  have pub: "open_udps (tr1 @ tr2) = {#} \<and> ((\<exists>t q. ListenQUIC t q \<in> set tr1) \<longrightarrow> CloseListener \<in> set tr2)"
    using assms(1,2)
    by (auto simp: dpub_Listen_def dpub_Close_def NewDatagramPub_def open_udps_def Let_def
        split: sum.splits option.splits prod.splits)
  have sub: "open_udps (tr3 @ tr4) = {#} \<and>
    (\<forall>q t cfg. DialQUIC q t cfg \<in> set tr3 \<longrightarrow> (\<exists>reason. CloseWithError q reason \<in> set (tr3 @ tr4)))"
    using assms(3,4)
    by (auto simp: dsub_Dial_def dsub_Close_def NewDatagramSub_def open_udps_def Let_def
        split: sum.splits option.splits prod.splits if_splits)
  from pub sub show ?thesis by blast
qed


definition demo_no_options :: "((unit, nat) socket \<Rightarrow> (unit, nat) socket) list" where
  "demo_no_options = []"

theorem datagram_sockets_released_witness:
  "\<exists>p tr1 s tr3 p' tr2 s' tr4.
     dpub_Listen empty_tls (Inr '''') (Inr 5) None demo_endpoint (NewDatagramPub None demo_no_options) = (None, p, tr1) \<and>
     dpub_Close p = (None, p', tr2) \<and> open_udps (tr1 @ tr2) = {#} \<and> CloseListener \<in> set tr2 \<and>
     dsub_Dial \<lparr>dn_resolve = Inr '''', dn_udp = Inr 6, dn_dial = Inr 7, dn_supports = True,
       dn_stream = Inr \<lparr>wr_script = [], written = []\<rparr>\<rparr> demo_endpoint (NewDatagramSub None demo_no_options) = (None, s, tr3) \<and>
     dsub_Close s = (None, s', tr4) \<and> open_udps (tr3 @ tr4) = {#}"
proof -
  let ?net = "\<lparr>dn_resolve = Inr '''', dn_udp = Inr 6, dn_dial = Inr 7, dn_supports = True,
       dn_stream = Inr \<lparr>wr_script = [], written = []\<rparr>\<rparr>"
  obtain p tr1 where l: "dpub_Listen empty_tls (Inr '''') (Inr 5) None demo_endpoint (NewDatagramPub None demo_no_options) = (None, p, tr1)"
      "\<exists>t q. ListenQUIC t q \<in> set tr1"
    by (simp add: dpub_Listen_def demo_splitAddr)
  obtain p' tr2 where c: "dpub_Close p = (None, p', tr2)" by (simp add: dpub_Close_def)
  obtain s tr3 where d: "dsub_Dial ?net demo_endpoint (NewDatagramSub None demo_no_options) = (None, s, tr3)"
    by (simp add: dsub_Dial_def demo_splitAddr Let_def)
  obtain s' tr4 where e: "dsub_Close s = (None, s', tr4)" by (simp add: dsub_Close_def)
  from datagram_sockets_released [OF l(1) c d e] l c d e show ?thesis by blast
qed

end
