(* ===== verification/Subscriptions.thy ===== *)
theory Subscriptions
  imports PubSub
begin

text \<open>
  A SUB socket while its connections come and go. \<^verbatim>\<open>SetOption\<close> records a topic under one lock and
  sends the command under another, so dials and reconnections, removals and broken writes may
  fall between the two. The steps of the goroutines of one socket are an inductive relation; the
  invariant is that every connection that is not marked closed has been sent commands that add up
  to the topics of the socket.
\<close>

section \<open>The two halves of setting an option\<close>

definition option_cmd :: "string \<Rightarrow> byte" where
  "option_cmd name = (if name = OptionSubscribe then 1 else 0)"

definition option_begin :: "string \<Rightarrow> string \<Rightarrow> 't sub_socket \<Rightarrow> 't sub_socket" where
  "option_begin name t s =
     sub_subscribe t (if name = OptionSubscribe then 1 else 0) (snd (socket_SetOption name (AnyString t) s))"

definition option_finish :: "ctx \<Rightarrow> byte \<Rightarrow> string \<Rightarrow> 't sub_socket \<Rightarrow> (go_error option \<times> 't sub_socket) blocking" where
  "option_finish deadline cmd t s =
     (if length (conns s) > 0 then socket_Send deadline (NewMsg ([cmd] @ bytes_of_string t)) s
      else Returns (None, s))"

lemma sub_SetOption_halves:
  "name = OptionSubscribe \<or> name = OptionUnsubscribe \<Longrightarrow>
     sub_SetOption deadline name (AnyString t) s = option_finish deadline (option_cmd name) t (option_begin name t s)"
  by (elim disjE) (simp_all add: sub_SetOption_def option_finish_def option_begin_def option_cmd_def
      socket_SetOption_def option_names Let_def)

section \<open>The steps\<close>

record 't sub_sys =
  ss_sock :: "'t sub_socket"
  ss_call :: "(byte \<times> string) option"
  ss_used :: "conn_id set"

text \<open>A connection that has just been made has nothing written on it.\<close>

definition clean_dials :: "('t \<Rightarrow> gocontext \<Rightarrow> string \<Rightarrow> nat \<Rightarrow> attempt) \<Rightarrow> bool" where
  "clean_dials env = (\<forall>tr g a n nc. at_dial (env tr g a n) = Inr (Some nc) \<longrightarrow> written (wr nc) = [])"

inductive sub_step :: "'t sub_sys \<Rightarrow> 't sub_sys \<Rightarrow> bool" where
  option_called: "ss_call y = None \<Longrightarrow> name = OptionSubscribe \<or> name = OptionUnsubscribe \<Longrightarrow>
     length t < 2 ^ 32 - 1 \<Longrightarrow>
     sub_step y (y\<lparr>ss_sock := option_begin name t (ss_sock y), ss_call := Some (option_cmd name, t)\<rparr>)"
| option_sent: "ss_call y = Some (b, t) \<Longrightarrow> option_finish deadline b t (ss_sock y) = Returns (e, s') \<Longrightarrow>
     sub_step y (y\<lparr>ss_sock := s', ss_call := None\<rparr>)"
| dialled: "c \<notin> ss_used y \<Longrightarrow> clean_dials env \<Longrightarrow>
     socket_Dial drivers base_ops (Some sub_onConnAdded) env c endpoint (ss_sock y) = Returns (e, s') \<Longrightarrow>
     sub_step y (y\<lparr>ss_sock := s', ss_used := insert c (ss_used y)\<rparr>)"
| accepted: "c \<notin> ss_used y \<Longrightarrow> (\<forall>nc. a = Inr (Some nc) \<longrightarrow> written (wr nc) = []) \<Longrightarrow>
     socket_accept base_ops (Some sub_onConnAdded) a c (ss_sock y) = Some s' \<Longrightarrow>
     sub_step y (y\<lparr>ss_sock := s', ss_used := insert c (ss_used y)\<rparr>)"
| heard: "qreader_listen (ctx_err (sck_ctx s)) c (bq (pools s), bst (pools s)) = Returns (q, st) \<Longrightarrow>
     s = ss_sock y \<Longrightarrow> sub_step y (y\<lparr>ss_sock := s\<lparr>pools := (pools s)\<lparr>bq := q, bst := st\<rparr>\<rparr>\<rparr>)"
| got: "socket_Recv pick (ss_sock y) = Returns (r, s') \<Longrightarrow> sub_step y (y\<lparr>ss_sock := s'\<rparr>)"
| failed: "sub_step y (y\<lparr>ss_sock := scheduleRmConn c (ss_sock y)\<rparr>)"
| reaped: "reaper_take (ss_sock y) = Returns s' \<Longrightarrow> sub_step y (y\<lparr>ss_sock := s'\<rparr>)"
| removed: "reaper_remove base_ops (ss_sock y) = Some s' \<Longrightarrow> sub_step y (y\<lparr>ss_sock := s'\<rparr>)"
| shut: "sub_step y (y\<lparr>ss_sock := snd (socket_Close base_ops (ss_sock y))\<rparr>)"

definition plain_option :: "((base_pools, 't) socket \<Rightarrow> (base_pools, 't) socket) \<Rightarrow> bool" where
  "plain_option f = (\<forall>s. conns (f s) = conns s \<and> pools (f s) = pools s \<and> r_set (f s) = r_set s \<and> w_set (f s) = w_set s)"

inductive sub_reach :: "'t sub_sys \<Rightarrow> bool" where
  created: "list_all plain_option opts \<Longrightarrow>
     sub_reach \<lparr>ss_sock = NewSub g opts st, ss_call = None, ss_used = {}\<rparr>"
| stepped: "sub_reach y \<Longrightarrow> sub_step y z \<Longrightarrow> sub_reach z"

section \<open>Commands on a connection\<close>

definition commands_wire :: "(byte \<times> string) list \<Rightarrow> bytes" where
  "commands_wire cmds = concat (map (\<lambda>(b, t). frames_wire (Frames (command b t))) cmds)"

definition topics_after :: "(byte \<times> string) list \<Rightarrow> string set \<Rightarrow> string set" where
  "topics_after = fold (\<lambda>(b, t). apply_command b t)"

definition well_formed_cmd :: "byte \<times> string \<Rightarrow> bool" where
  "well_formed_cmd = (\<lambda>(b, t). (b = 0 \<or> b = 1) \<and> length t < 2 ^ 32 - 1)"

text \<open>What has been written on a connection leads to \<open>ts\<close>, once a pending call has sent its command.\<close>

definition leads_to :: "(byte \<times> string) option \<Rightarrow> string set \<Rightarrow> conn \<Rightarrow> bool" where
  "leads_to call ts k = (\<exists>cmds. out k = commands_wire cmds \<and> list_all well_formed_cmd cmds \<and>
     topics_after (case call of None \<Rightarrow> [] | Some bt \<Rightarrow> [bt]) (topics_after cmds {}) = ts)"

lemma commands_wire_append [simp]: "commands_wire (as @ bs) = commands_wire as @ commands_wire bs"
  by (simp add: commands_wire_def)

lemma commands_wire_simps [simp]:
  "commands_wire [] = []" "commands_wire ((b, t) # cmds) = frames_wire (Frames (command b t)) @ commands_wire cmds"
  by (simp_all add: commands_wire_def)

lemma topics_after_simps [simp]:
  "topics_after [] ts = ts" "topics_after ((b, t) # cmds) ts = topics_after cmds (apply_command b t ts)"
  "topics_after (as @ bs) ts = topics_after bs (topics_after as ts)"
  by (simp_all add: topics_after_def)

lemma topics_after_subscribes: "topics_after (map (Pair 1) xs) ts = ts \<union> set xs"
  by (induction xs arbitrary: ts) (auto simp: apply_command_def)

lemma listen_wire:
  "list_all well_formed_cmd cmds \<Longrightarrow> inp (cells st r) = commands_wire cmds @ rest \<Longrightarrow>
     \<exists>st'. listen_n (length cmds) r (q, st) = Returns (q, st') \<and> inp (cells st' r) = rest \<and>
       set (topics (cells st' r)) = topics_after cmds (set (topics (cells st r)))"
proof (induction cmds arbitrary: st)
  case Nil
  then show ?case by simp
next
  case (Cons bt cmds)
  obtain b t where bt: "bt = (b, t)" by (cases bt)
  have "inp (cells st r) = frames_wire (Frames (command b t)) @ (commands_wire cmds @ rest)"
    using Cons.prems(2) bt by simp
  from listen_command [OF _ _ this, of q] Cons.prems(1) bt obtain st1 where
    "pubQReader_listen None r (q, st) = Returns (q, st1)" "inp (cells st1 r) = commands_wire cmds @ rest"
    "set (topics (cells st1 r)) = apply_command b t (set (topics (cells st r)))"
    by (auto simp: well_formed_cmd_def)
  with Cons.IH [of st1] Cons.prems(1) bt show ?case by auto
qed

section \<open>What the calls do to a connection\<close>

text \<open>A connection on which just \<open>bs\<close> was written, or which has been marked closed.\<close>

definition extended :: "bytes \<Rightarrow> conn \<Rightarrow> conn \<Rightarrow> bool" where
  "extended bs k k' = (closed k' \<in> {0, 1} \<and> (\<not> Closed k' \<longrightarrow> \<not> Closed k \<and> out k' = out k @ bs))"

lemma extended_refl: "closed k \<in> {0, 1} \<Longrightarrow> extended [] k k"
  by (simp add: extended_def)

lemma extended_trans: "extended as k k1 \<Longrightarrow> extended bs k1 k2 \<Longrightarrow> extended (as @ bs) k k2"
  by (auto simp: extended_def)

lemma extended_conn_read: "conn_read k = (m, k', fired) \<Longrightarrow> closed k \<in> {0, 1} \<Longrightarrow> extended [] k k'"
  using conn_read_frame [of k m k' fired]
  by (auto simp: extended_def conn_read_set_rd checkIO_def SetClosed_def Closed_def
      split: prod.splits option.splits if_splits)

lemma extended_st_read:
  "st_read c st = (m, st') \<Longrightarrow> closed (cells st i) \<in> {0, 1} \<Longrightarrow> extended [] (cells st i) (cells st' i)"
  by (cases "i = c") (auto simp: st_read_def on_cell_def extended_refl dest: extended_conn_read split: prod.splits)

lemma extended_st_Close:
  "st_Close c st = (e, st') \<Longrightarrow> closed (cells st i) \<in> {0, 1} \<Longrightarrow> extended [] (cells st i) (cells st' i)"
  by (cases "i = c") (auto simp: st_Close_def on_cell_def Close_def extended_def Closed_def)

lemma extended_close_all:
  "close_all cs err st = (e, st') \<Longrightarrow> closed (cells st i) \<in> {0, 1} \<Longrightarrow> extended [] (cells st i) (cells st' i)"
proof (induction cs arbitrary: err st)
  case Nil
  then show ?case by (auto simp: extended_refl)
next
  case (Cons c cs)
  obtain e1 st1 where s: "st_Close c st = (e1, st1)" by (cases "st_Close c st")
  with Cons.prems have rest: "close_all cs (first_err err e1) st1 = (e, st')" by simp
  from extended_st_Close [OF s Cons.prems(2)] Cons.IH [OF rest] show ?case by (auto simp: extended_def)
qed

lemma extended_qreader_listen:
  assumes "qreader_listen g c (q, st) = Returns (q', st')" and "closed (cells st i) \<in> {0, 1}"
  shows "extended [] (cells st i) (cells st' i)"
proof -
  obtain m st1 where m: "st_read c st = (m, st1)" by (cases "st_read c st")
  note k1 = extended_st_read [OF m assms(2)]
  obtain e st2 where e: "st_Close c st1 = (e, st2)" by (cases "st_Close c st1")
  have k2: "extended [] (cells st1 i) (cells st2 i)" using extended_st_Close [OF e] k1 by (simp add: extended_def)
  from assms(1) m e have "st' = st1 \<or> st' = st2"
    by (auto simp: qreader_listen_def qreader_leave_def Let_def split: if_splits send_result.splits)
  with k1 extended_trans [OF k1 k2, simplified] show ?thesis by blast
qed

lemma extended_SendMsg: "SendMsg m k = (e, k', fired) \<Longrightarrow> closed k \<in> {0, 1} \<Longrightarrow> extended (frames_wire (Frames m)) k k'"
proof (cases "Closed k")
  case True
  then show "SendMsg m k = (e, k', fired) \<Longrightarrow> closed k \<in> {0, 1} \<Longrightarrow> ?thesis"
    by (auto simp: SendMsg_closed extended_def)
next
  case False
  assume s: "SendMsg m k = (e, k', fired)" "closed k \<in> {0, 1}"
  with False have "closed k = 0" by (auto simp: Closed_def)
  with s False SendMsg_ok [of m k k' fired] SendMsg_fail [of m k _ k' fired] show ?thesis
    by (cases e) (auto simp: extended_def Closed_def)
qed

lemma extended_st_SendMsg:
  assumes "st_SendMsg m c st = (e, st')" and "closed (cells st i) \<in> {0, 1}"
  shows "extended (if i = c then frames_wire (Frames m) else []) (cells st i) (cells st' i)"
proof (cases "i = c")
  case True
  from on_cell_same [OF assms(1) [unfolded st_SendMsg_def]] obtain fired where
    "SendMsg m (cells st c) = (e, cells st' c, fired)" by blast
  from extended_SendMsg [OF this] assms(2) True show ?thesis by simp
next
  case False
  with on_cell_other [OF assms(1) [unfolded st_SendMsg_def]] assms(2) show ?thesis
    by (simp add: extended_refl)
qed

lemma extended_resend_loop:
  "closed (cells st i) \<in> {0, 1} \<Longrightarrow>
     extended (if i = c then commands_wire (map (Pair 1) ts) else []) (cells st i) (cells (resend_loop ts c st) i)"
proof (induction ts arbitrary: st)
  case Nil
  then show ?case by (cases "i = c") (auto intro: extended_refl)
next
  case (Cons t ts)
  obtain e st1 where s: "st_SendMsg (command 1 t) c st = (e, st1)" by (cases "st_SendMsg (command 1 t) c st")
  note one = extended_st_SendMsg [OF s Cons.prems]
  then have "closed (cells st1 i) \<in> {0, 1}" by (simp add: extended_def)
  from extended_trans [OF one Cons.IH [OF this]] s show ?case
    by (cases "i = c") (simp_all add: command_def)
qed

lemma extended_mwriter_write:
  assumes "mwriter_write g m w st = Returns (e, st')" and "distinct (ws w)" and "closed (cells st i) \<in> {0, 1}"
  shows "extended (if i \<in> set (ws w) then frames_wire (Frames m) else []) (cells st i) (cells st' i)"
proof -
  from assms(1) have loop: "mwriter_write_loop m (ws w) None st = (e, st')"
    by (auto simp: mwriter_write_def split: if_splits)
  show ?thesis
  proof (cases "i \<in> set (ws w)")
    case True
    with mwriter_write_loop_spec [OF assms(2) loop] have "cells st' i = fst (snd (SendMsg m (cells st i)))" by blast
    with True extended_SendMsg [of m "cells st i"] assms(3) show ?thesis
      by (cases "SendMsg m (cells st i)") simp
  next
    case False
    with mwriter_write_loop_other [OF loop] assms(3) show ?thesis by (simp add: extended_refl)
  qed
qed

section \<open>The invariant\<close>

definition sub_inv :: "'t sub_sys \<Rightarrow> bool" where
  "sub_inv y =
     (let s = ss_sock y in
      r_set s \<and> w_set s \<and> ws (bw (pools s)) = conns s \<and> distinct (conns s) \<and> set (conns s) \<subseteq> ss_used y \<and>
      (\<forall>t \<in> set (subs s). length t < 2 ^ 32 - 1) \<and>
      (\<forall>b t. ss_call y = Some (b, t) \<longrightarrow> well_formed_cmd (b, t) \<and> apply_command b t (set (subs s)) = set (subs s)) \<and>
      (\<forall>c \<in> set (conns s). closed (cells (bst (pools s)) c) \<in> {0, 1} \<and>
         (\<not> Closed (cells (bst (pools s)) c) \<longrightarrow> leads_to (ss_call y) (set (subs s)) (cells (bst (pools s)) c))))"

lemma sub_invI:
  assumes "sub_inv y" and "pools s' = p'" and "ws (bw p') = conns s'" and "subs s' = subs (ss_sock y)"
    and "r_set s' = r_set (ss_sock y)" "w_set s' = w_set (ss_sock y)"
    and "distinct (conns s')" "set (conns s') \<subseteq> set (conns (ss_sock y))"
    and "\<And>c. c \<in> set (conns s') \<Longrightarrow> closed (cells (bst (pools (ss_sock y))) c) \<in> {0, 1} \<Longrightarrow>
           extended [] (cells (bst (pools (ss_sock y))) c) (cells (bst p') c)"
  shows "sub_inv (y\<lparr>ss_sock := s'\<rparr>)"
proof -
  have "closed (cells (bst p') c) \<in> {0, 1} \<and>
      (\<not> Closed (cells (bst p') c) \<longrightarrow> leads_to (ss_call y) (set (subs s')) (cells (bst p') c))"
    if c: "c \<in> set (conns s')" for c
  proof -
    from c assms(8) have "c \<in> set (conns (ss_sock y))" by blast
    with assms(1) have old: "closed (cells (bst (pools (ss_sock y))) c) \<in> {0, 1}"
        "\<not> Closed (cells (bst (pools (ss_sock y))) c) \<longrightarrow>
           leads_to (ss_call y) (set (subs (ss_sock y))) (cells (bst (pools (ss_sock y))) c)"
      by (simp_all add: sub_inv_def Let_def)
    with assms(4) assms(9) [OF c] show ?thesis by (simp add: extended_def leads_to_def)
  qed
  with assms show ?thesis by (auto simp: sub_inv_def Let_def)
qed

lemma option_begin_frame:
  "conns (option_begin name t s) = conns s" "pools (option_begin name t s) = pools s"
  "r_set (option_begin name t s) = r_set s" "w_set (option_begin name t s) = w_set s"
  "set (subs (option_begin name t s)) = apply_command (option_cmd name) t (set (subs s))"
  by (auto simp: option_begin_def sub_subscribe_def socket_SetOption_def option_cmd_def apply_command_def)

lemma sub_inv_called:
  assumes "sub_inv y" and "ss_call y = None" and "length t < 2 ^ 32 - 1"
  shows "sub_inv (y\<lparr>ss_sock := option_begin name t (ss_sock y), ss_call := Some (option_cmd name, t)\<rparr>)"
proof -
  have cmd: "option_cmd name = 0 \<or> option_cmd name = 1" by (simp add: option_cmd_def)
  have idem: "apply_command b t (apply_command b t ts) = apply_command b t ts" for b ts
    by (auto simp: apply_command_def)
  have "leads_to (Some (option_cmd name, t)) (apply_command (option_cmd name) t ts) k" if "leads_to None ts k" for ts k
    using that by (auto simp: leads_to_def)
  with assms cmd idem show ?thesis
    by (auto simp: sub_inv_def Let_def option_begin_frame well_formed_cmd_def apply_command_def split: if_splits)
qed

lemma sub_inv_sent:
  assumes "sub_inv y" and "ss_call y = Some (b, t)" and "option_finish deadline b t (ss_sock y) = Returns (e, s')"
  shows "sub_inv (y\<lparr>ss_sock := s', ss_call := None\<rparr>)"
proof (cases "conns (ss_sock y) = []")
  case True
  with assms show ?thesis by (auto simp: sub_inv_def Let_def option_finish_def)
next
  case False
  let ?s = "ss_sock y" and ?bytes = "frames_wire (Frames (command b t))"
  from assms(3) False obtain st where
    st: "mwriter_write (child_ctx deadline ?s) (command b t) (bw (pools ?s)) (bst (pools ?s)) = Returns (e, st)"
      "s' = ?s\<lparr>pools := (pools ?s)\<lparr>bst := st\<rparr>\<rparr>"
    by (auto simp: option_finish_def socket_Send_def command_def split: blocking.splits)
  from assms(1,2) have inv: "ws (bw (pools ?s)) = conns ?s" "distinct (conns ?s)" "well_formed_cmd (b, t)"
    by (simp_all add: sub_inv_def Let_def)
  have "closed (cells st c) \<in> {0, 1} \<and> (\<not> Closed (cells st c) \<longrightarrow> leads_to None (set (subs ?s)) (cells st c))"
    if c: "c \<in> set (conns ?s)" for c
  proof -
    from assms(1,2) c have old: "closed (cells (bst (pools ?s)) c) \<in> {0, 1}"
        "\<not> Closed (cells (bst (pools ?s)) c) \<longrightarrow> leads_to (Some (b, t)) (set (subs ?s)) (cells (bst (pools ?s)) c)"
      by (simp_all add: sub_inv_def Let_def)
    have "leads_to None ts k'" if k: "leads_to (Some (b, t)) ts k" "out k' = out k @ ?bytes" for k k' ts
    proof -
      from k obtain cmds where "out k = commands_wire cmds" "list_all well_formed_cmd cmds"
          "apply_command b t (topics_after cmds {}) = ts" by (auto simp: leads_to_def)
      with k(2) inv(3) show ?thesis by (auto simp: leads_to_def intro!: exI [of _ "cmds @ [(b, t)]"])
    qed
    with old extended_mwriter_write [OF st(1) _ old(1)] inv(1,2) c show ?thesis by (auto simp: extended_def)
  qed
  with assms(1) st(2) show ?thesis by (simp add: sub_inv_def Let_def)
qed


section \<open>Making a connection\<close>

lemma dial_connect_conn:
  "dial_connect d env i retries = Some y \<Longrightarrow> fst y = Inr x \<Longrightarrow> \<exists>j. at_dial (env j) = Inr x"
proof (induction d env i retries y rule: dial_connect.raw_induct [rotated, consumes 1, case_names 1])
  case (1 f d env i retries y)
  from 1(2,3) show ?case
    by (auto split: sum.splits if_splits pause.splits intro: 1(1))
qed

lemma socket_Dial_adds:
  assumes "socket_Dial drivers ops onAdded env c endpoint s = Returns (e, s')" and "clean_dials env"
  shows "(e \<noteq> None \<and> s' = s\<lparr>ep := endpoint, isDialer := True\<rparr>) \<or>
    (\<exists>k s1. closed k = 0 \<and> out k = [] \<and>
       s1 = (start_reaper (s\<lparr>ep := endpoint, isDialer := True\<rparr>))
              \<lparr>pools := put_store ops (new_cell c k (get_store ops (pools s))) (pools s)\<rparr> \<and>
       socket_addConn ops onAdded c s1 = Some s')"
proof (cases e)
  case (Some x)
  with assms(1) socket_Dial_fails show ?thesis by blast
next
  case None
  let ?s1 = "s\<lparr>ep := endpoint, isDialer := True\<rparr>"
  have pools: "pools (start_reaper ?s1) = pools s" by (simp add: start_reaper_def)
  from assms(1) None obtain network addr tr nc n zconn where
    d: "dial_connect (dial_params_of endpoint ?s1)
          (env tr (withQlogDir (qlogDir ?s1) (withClientTLS (clientTlsCfg ?s1) (sck_ctx ?s1))) addr) 0 0
        = Some (Inr (Some nc), n)"
      "Open (Some nc) (sock_typ ?s1) False True = Inr zconn"
      "socket_addConn ops onAdded c ((start_reaper ?s1)
         \<lparr>pools := put_store ops (new_cell c zconn (get_store ops (pools s))) (pools s)\<rparr>) = Some s'"
    by (auto simp: socket_Dial_def Let_def pools split: sum.splits option.splits prod.splits)
  from dial_connect_conn [OF d(1), of "Some nc"] assms(2) have "written (wr nc) = []"
    by (auto simp: clean_dials_def)
  with d(2) have "closed zconn = 0" "out zconn = []" by (auto simp: Open_def)
  with d(3) show ?thesis by blast
qed

text \<open>Adding a connection that has just been made, with the callback of \<^verbatim>\<open>NewSub\<close>.\<close>

lemma sub_addConn_effect:
  assumes "socket_addConn base_ops (Some sub_onConnAdded) c s = Some s'" and "r_set s" and "w_set s"
  shows "subs s' = subs s" "conns s' = conns s @ [c]" "r_set s'" "w_set s'"
    "ws (bw (pools s')) = ws (bw (pools s)) @ [c]" "bst (pools s') = resend_loop (sort (subs s)) c (bst (pools s))"
  using assms
  by (auto simp: socket_addConn_def if_set_def base_ops_simps base_ops_def sub_onConnAdded_def sub_Topics_sort
      mwriter_addConn_def Let_def)

lemma sub_inv_added:
  assumes "sub_inv y" and "c \<notin> ss_used y" and "closed k = 0" "out k = []"
    and "pools s = pools (ss_sock y)" "conns s = conns (ss_sock y)" "subs s = subs (ss_sock y)"
      "r_set s = r_set (ss_sock y)" "w_set s = w_set (ss_sock y)"
    and "socket_addConn base_ops (Some sub_onConnAdded) c
           (s\<lparr>pools := put_store base_ops (new_cell c k (get_store base_ops (pools s))) (pools s)\<rparr>) = Some s'"
  shows "sub_inv (y\<lparr>ss_sock := s', ss_used := insert c (ss_used y)\<rparr>)"
proof -
  let ?p = "pools (ss_sock y)"
  let ?st = "(bst ?p)\<lparr>cells := (cells (bst ?p))(c := k)\<rparr>"
  from assms(1) have inv: "r_set (ss_sock y)" "w_set (ss_sock y)" "ws (bw ?p) = conns (ss_sock y)"
      "distinct (conns (ss_sock y))" "set (conns (ss_sock y)) \<subseteq> ss_used y"
      "\<forall>t \<in> set (subs (ss_sock y)). length t < 2 ^ 32 - 1"
    by (simp_all add: sub_inv_def Let_def)
  have s': "subs s' = subs (ss_sock y)" "conns s' = conns (ss_sock y) @ [c]" "r_set s'" "w_set s'"
      "ws (bw (pools s')) = conns (ss_sock y) @ [c]" "bst (pools s') = resend_loop (sort (subs (ss_sock y))) c ?st"
    using sub_addConn_effect [OF assms(10)] assms(5-9) inv(1-3) by (simp_all add: base_ops_simps new_cell_def)
  have "closed (cells (bst (pools s')) i) \<in> {0, 1} \<and>
      (\<not> Closed (cells (bst (pools s')) i) \<longrightarrow> leads_to (ss_call y) (set (subs s')) (cells (bst (pools s')) i))"
    if i: "i \<in> set (conns s')" for i
  proof (cases "i = c")
    case True
    let ?ts = "sort (subs (ss_sock y))"
    have ext: "extended (commands_wire (map (Pair 1) ?ts)) k (cells (bst (pools s')) c)"
      using extended_resend_loop [of ?st c c ?ts] assms(3) s'(6) by simp
    have "list_all well_formed_cmd (map (Pair 1) ?ts)"
      using inv(6) by (auto simp: list_all_iff well_formed_cmd_def)
    moreover have "topics_after (case ss_call y of None \<Rightarrow> [] | Some bt \<Rightarrow> [bt])
        (topics_after (map (Pair 1) ?ts) {}) = set (subs s')"
      using assms(1) s'(1) by (auto simp: topics_after_subscribes sub_inv_def Let_def split: option.split)
    ultimately show ?thesis
      using ext True assms(4) by (auto simp: extended_def leads_to_def)
  next
    case False
    with i s'(2) have old: "i \<in> set (conns (ss_sock y))" by simp
    with assms(1) have "closed (cells (bst ?p) i) \<in> {0, 1}"
        "\<not> Closed (cells (bst ?p) i) \<longrightarrow> leads_to (ss_call y) (set (subs (ss_sock y))) (cells (bst ?p) i)"
      by (simp_all add: sub_inv_def Let_def)
    moreover from this False have "extended [] (cells (bst ?p) i) (cells (bst (pools s')) i)"
      using extended_resend_loop [of ?st i c "sort (subs (ss_sock y))"] s'(6) by simp
    ultimately show ?thesis using s'(1) by (simp add: extended_def leads_to_def)
  qed
  moreover have "c \<notin> set (conns (ss_sock y))" using inv(5) assms(2) by blast
  ultimately show ?thesis using assms(1) s' inv by (auto simp: sub_inv_def Let_def)
qed


lemma sub_inv_used: "sub_inv y \<Longrightarrow> sub_inv (y\<lparr>ss_used := insert c (ss_used y)\<rparr>)"
  by (auto simp: sub_inv_def Let_def)

lemma start_reaper_frame [sock_simps]:
  "pools (start_reaper s) = pools s" "conns (start_reaper s) = conns s" "r_set (start_reaper s) = r_set s"
  "w_set (start_reaper s) = w_set s" "subs (start_reaper s) = subs s"
  by (simp_all add: start_reaper_def)

lemma sub_inv_dialled:
  assumes "sub_inv y" and "c \<notin> ss_used y" and "clean_dials env"
    and "socket_Dial drivers base_ops (Some sub_onConnAdded) env c endpoint (ss_sock y) = Returns (e, s')"
  shows "sub_inv (y\<lparr>ss_sock := s', ss_used := insert c (ss_used y)\<rparr>)"
proof -
  let ?s1 = "(ss_sock y)\<lparr>ep := endpoint, isDialer := True\<rparr>"
  consider (fails) "s' = ?s1"
    | (adds) k where "closed k = 0" "out k = []"
      "socket_addConn base_ops (Some sub_onConnAdded) c ((start_reaper ?s1)
         \<lparr>pools := put_store base_ops (new_cell c k (get_store base_ops (pools (ss_sock y)))) (pools (ss_sock y))\<rparr>)
       = Some s'"
    using socket_Dial_adds [OF assms(4,3)] by blast
  then show ?thesis
  proof cases
    case fails
    from assms(1) have "sub_inv (y\<lparr>ss_sock := s'\<rparr>)"
      unfolding fails by (auto simp: sub_inv_def Let_def)
    from sub_inv_used [OF this, of c] show ?thesis by simp
  next
    case adds
    show ?thesis
      by (rule sub_inv_added [OF assms(1,2) adds(1,2), of "start_reaper ?s1"])
        (use adds(3) in \<open>simp_all add: sock_simps\<close>)
  qed
qed

lemma sub_inv_accepted:
  assumes "sub_inv y" and "c \<notin> ss_used y" and "\<forall>nc. a = Inr (Some nc) \<longrightarrow> written (wr nc) = []"
    and "socket_accept base_ops (Some sub_onConnAdded) a c (ss_sock y) = Some s'"
  shows "sub_inv (y\<lparr>ss_sock := s', ss_used := insert c (ss_used y)\<rparr>)"
proof -
  consider (nothing) "s' = ss_sock y"
    | (adds) nc k where "a = Inr (Some nc)" "Open (Some nc) (sock_typ (ss_sock y)) True True = Inr k"
      "socket_addConn base_ops (Some sub_onConnAdded) c ((ss_sock y)
         \<lparr>pools := put_store base_ops (new_cell c k (get_store base_ops (pools (ss_sock y)))) (pools (ss_sock y))\<rparr>)
       = Some s'"
    using assms(4) by (auto simp: socket_accept_def Open_def Let_def split: if_splits sum.splits option.splits)
  then show ?thesis
  proof cases
    case nothing
    with sub_inv_used [OF assms(1), of c] show ?thesis by simp
  next
    case adds
    from adds(1,2) assms(3) have "closed k = 0" "out k = []" by (auto simp: Open_def)
    from sub_inv_added [OF assms(1,2) this _ _ _ _ _ adds(3)] show ?thesis by simp
  qed
qed

section \<open>Reachable states\<close>

lemma base_rmConn:
  assumes "r_set s" and "w_set s" and "c \<in> set (conns s)"
  shows "socket_rmConn base_ops c s = Some (s\<lparr>conns := remove1 c (conns s),
    pools := (pools s)\<lparr>bq := qreader_rmConn c (bq (pools s)), bw := mwriter_rmConn c (bw (pools s))\<rparr>\<rparr>)"
proof -
  have cur: "find_loop (conns s) 0 c \<noteq> -1" "find_loop (conns s) 0 c \<ge> 0"
    using assms(3) by (simp_all add: base.find_loop_absent find_loop_nonneg)
  have "take (nat (find_loop (conns s) 0 c)) (conns s) @ drop (nat (find_loop (conns s) 0 c) + 1) (conns s)
      = remove1 c (conns s)"
    using cur(2) rm_from_remove1 [of c "conns s"] by (simp add: rm_from_def Let_def)
  with cur assms(1,2) show ?thesis by (simp add: socket_rmConn_def if_set_def base_ops_def Let_def)
qed

lemma sub_inv_removed:
  assumes "sub_inv y" and "socket_rmConn base_ops c (ss_sock y) = Some s'"
  shows "sub_inv (y\<lparr>ss_sock := s'\<rparr>)"
proof (cases "c \<in> set (conns (ss_sock y))")
  case False
  with assms(2) have "y\<lparr>ss_sock := s'\<rparr> = y" by (simp add: socket_rmConn_def base.find_loop_absent Let_def)
  with assms(1) show ?thesis by simp
next
  case True
  let ?s = "ss_sock y"
  from assms(1) have inv: "r_set ?s" "w_set ?s" "ws (bw (pools ?s)) = conns ?s" "distinct (conns ?s)"
    by (simp_all add: sub_inv_def Let_def)
  from assms(2) base_rmConn [OF inv(1,2) True] have s': "s' = ?s\<lparr>conns := remove1 c (conns ?s),
      pools := (pools ?s)\<lparr>bq := qreader_rmConn c (bq (pools ?s)), bw := mwriter_rmConn c (bw (pools ?s))\<rparr>\<rparr>"
    by simp
  show ?thesis
    by (rule sub_invI [OF assms(1)])
      (use s' inv in \<open>auto simp: mwriter_rmConn_def rm_from_remove1 distinct_remove1 extended_refl dest: notin_set_remove1\<close>)
qed

lemma sub_step_inv: "sub_step y z \<Longrightarrow> sub_inv y \<Longrightarrow> sub_inv z"
proof (induction rule: sub_step.induct)
  case (option_called y name t)
  then show ?case by (simp add: sub_inv_called)
next
  case (option_sent y b t deadline e s')
  then show ?case by (simp add: sub_inv_sent)
next
  case (dialled c y env drivers endpoint e s')
  then show ?case by (simp add: sub_inv_dialled)
next
  case (accepted c y a s')
  then show ?case by (simp add: sub_inv_accepted)
next
  case (heard s c q st y)
  then show ?case
    by (intro sub_invI) (auto simp: sub_inv_def Let_def dest: extended_qreader_listen)
next
  case (got pick y r s')
  then obtain q where "s' = (ss_sock y)\<lparr>pools := (pools (ss_sock y))\<lparr>bq := q\<rparr>\<rparr>"
    by (auto simp: socket_Recv_def split: blocking.splits prod.splits)
  with got show ?case by (intro sub_invI) (auto simp: sub_inv_def Let_def extended_refl)
next
  case (failed y c)
  then show ?case
    by (intro sub_invI) (auto simp: sub_inv_def scheduleRmConn_def Let_def extended_refl)
next
  case (reaped y s')
  then show ?case
    by (intro sub_invI) (auto simp: sub_inv_def reaper_take_def Let_def extended_refl split: if_splits)
next
  case (removed y s')
  show ?case
  proof (cases "reaping (ss_sock y)")
    case Nil
    with removed have "y\<lparr>ss_sock := s'\<rparr> = y" by (simp add: reaper_remove_def)
    with removed show ?thesis by simp
  next
    case (Cons c cc)
    with removed(1) obtain s1 where s1: "socket_rmConn base_ops c (ss_sock y) = Some s1" "s' = s1\<lparr>reaping := cc\<rparr>"
      by (auto simp: reaper_remove_def)
    from sub_inv_removed [OF removed(2) s1(1)] s1(2) show ?thesis by (simp add: sub_inv_def Let_def)
  qed
next
  case (shut y)
  obtain e st where "close_all (conns (ss_sock y)) None (bst (pools (ss_sock y))) = (e, st)"
    by (cases "close_all (conns (ss_sock y)) None (bst (pools (ss_sock y)))")
  with shut show ?case
    by (intro sub_invI) (auto simp: sub_inv_def socket_Close_def base_ops_simps Let_def dest: extended_close_all)
qed


lemma plain_options_foldl:
  "list_all plain_option opts \<Longrightarrow>
     conns (foldl (\<lambda>s opt. opt s) s opts) = conns s \<and> pools (foldl (\<lambda>s opt. opt s) s opts) = pools s \<and>
     r_set (foldl (\<lambda>s opt. opt s) s opts) = r_set s \<and> w_set (foldl (\<lambda>s opt. opt s) s opts) = w_set s"
  by (induction opts arbitrary: s) (simp_all add: plain_option_def)

lemma plain_options:
  "plain_option (WithTimeout t)" "plain_option (WithDialerRetry t)" "plain_option (WithDialerMaxRetries n)"
  "plain_option (WithDialTimeout t)" "plain_option (WithAutomaticReconnect b)" "plain_option (WithReconnectInterval t)"
  "plain_option (WithReconnectIntervalMax t)" "plain_option (WithConnectionPool tr)" "plain_option (WithQlogDir d)"
  "plain_option (WithLogger l)" "plain_option (WithListenTLS cfg)" "plain_option (WithDialTLS cfg)"
  by (simp_all add: plain_option_def WithTimeout_def WithDialerRetry_def WithDialerMaxRetries_def WithDialTimeout_def
      WithAutomaticReconnect_def WithReconnectInterval_def WithReconnectIntervalMax_def WithConnectionPool_def
      WithQlogDir_def WithLogger_def WithListenTLS_def WithDialTLS_def)

lemma NewSub_plain:
  assumes "list_all plain_option opts"
  shows "conns (NewSub g opts st) = []" "subs (NewSub g opts st) = []" "r_set (NewSub g opts st)"
    "w_set (NewSub g opts st)" "ws (bw (pools (NewSub g opts st))) = []"
  using plain_options_foldl [OF assms, of "newDefaultSocket g Sub (new_base_pools st)"]
  by (simp_all add: NewSub_def newSocket_def Let_def newDefaultSocket_def new_base_pools_def newMWriter_def
      socket.defs sub_socket.defs)

lemma sub_reach_inv: "sub_reach y \<Longrightarrow> sub_inv y"
proof (induction rule: sub_reach.induct)
  case (created opts g st)
  then show ?case by (simp add: sub_inv_def Let_def NewSub_plain)
next
  case (stepped y z)
  then show ?case by (simp add: sub_step_inv)
qed

section \<open>Properties\<close>

text \<open>
  C4: A subscriber and its publishers agree on its topics whatever happens between the steps:
  calls of \<^verbatim>\<open>SetOption\<close> that are cut in two, dials and reconnections, accepted connections,
  reading, failures, removals and \<^verbatim>\<open>Close\<close>, in any order. When no call is under way, a publisher
  that reads what a connection not marked closed has carried has exactly the topics of the socket.
\<close>

theorem subscribers_agree:
  assumes "sub_reach y" and "ss_call y = None" and "c \<in> set (conns (ss_sock y))"
    and "\<not> Closed (cells (bst (pools (ss_sock y))) c)"
    and "inp (cells ps r) = out (cells (bst (pools (ss_sock y))) c)" and "topics (cells ps r) = []"
  shows "\<exists>n ps'. listen_n n r (q, ps) = Returns (q, ps') \<and> inp (cells ps' r) = [] \<and>
    set (topics (cells ps' r)) = set (subs (ss_sock y))"
proof -
  from sub_reach_inv [OF assms(1)] assms(2-4) obtain cmds where
    "out (cells (bst (pools (ss_sock y))) c) = commands_wire cmds" "list_all well_formed_cmd cmds"
    "topics_after cmds {} = set (subs (ss_sock y))"
    by (auto simp: sub_inv_def Let_def leads_to_def)
  with listen_wire [of cmds ps r "[]" q] assms(5,6) show ?thesis by auto
qed

definition demo_subscribing :: "nat sub_sys" where
  "demo_subscribing =
     (let s = NewSub None [] fresh_store;
          s1 = option_begin OptionSubscribe ''a'' s in
      \<lparr>ss_sock = the (socket_accept base_ops (Some sub_onConnAdded) (Inr (Some demo_net)) 1 s1),
       ss_call = Some (option_cmd OptionSubscribe, ''a''), ss_used = {1}\<rparr>)"


lemma demo_subscribing_reach: "sub_reach demo_subscribing"
proof -
  let ?y0 = "\<lparr>ss_sock = NewSub None [] fresh_store, ss_call = None, ss_used = {}\<rparr> :: nat sub_sys"
  let ?y1 = "?y0\<lparr>ss_sock := option_begin OptionSubscribe ''a'' (ss_sock ?y0),
                 ss_call := Some (option_cmd OptionSubscribe, ''a'')\<rparr>"
  have "sub_reach ?y0" by (intro sub_reach.created) simp
  then have "sub_reach ?y1"
    by (rule sub_reach.stepped) (intro sub_step.option_called; simp)
  moreover have "socket_accept base_ops (Some sub_onConnAdded) (Inr (Some demo_net)) 1 (ss_sock ?y1) =
      Some (ss_sock demo_subscribing)"
    by (simp add: demo_subscribing_def socket_accept_def socket_addConn_def base_ops_def Open_def demo_net_def
        if_set_def Let_def option_begin_def sub_subscribe_def socket_SetOption_def NewSub_def newSocket_def
        newDefaultSocket_def socket.defs sub_socket.defs)
  ultimately have "sub_reach (?y1\<lparr>ss_sock := ss_sock demo_subscribing, ss_used := insert 1 (ss_used ?y1)\<rparr>)"
    by (intro sub_reach.stepped [OF _ sub_step.accepted]) (simp_all add: demo_net_def)
  moreover have "?y1\<lparr>ss_sock := ss_sock demo_subscribing, ss_used := insert 1 (ss_used ?y1)\<rparr> = demo_subscribing"
    by (simp add: demo_subscribing_def Let_def)
  ultimately show ?thesis by simp
qed

lemma demo_subscribing_facts:
  "conns (ss_sock demo_subscribing) = [1]" "subs (ss_sock demo_subscribing) = [''a'']"
  "ws (bw (pools (ss_sock demo_subscribing))) = [1]"
  "chan_recv (wsem (bw (pools (ss_sock demo_subscribing)))) = ChanClosed"
  "bst (pools (ss_sock demo_subscribing)) = snd (st_SendMsg (command 1 ''a'') 1
     (new_cell 1 \<lparr>conn_typ = Sub, rw = demo_net, Server = True, topics = [], closed = 0, onCloseErrorCB = True\<rparr>
       fresh_store))"
  by (simp_all add: demo_subscribing_def socket_accept_def socket_addConn_def base_ops_def Open_def
      if_set_def Let_def option_begin_def sub_subscribe_def socket_SetOption_def NewSub_def newSocket_def
      newDefaultSocket_def socket.defs sub_socket.defs sub_onConnAdded_def mwriter_addConn_def new_base_pools_def
      newMWriter_def newSemaphore_def make_chan_def sem_enable_def chan_recv_def chan_close_def sub_Topics_sort
      strset_put_def command_def)

lemma demo_subscribing_sent:
  "\<exists>s'. option_finish None 1 ''a'' (ss_sock demo_subscribing) = Returns (None, s') \<and> conns s' = [1] \<and>
     \<not> Closed (cells (bst (pools s')) 1) \<and> set (subs s') = {''a''}"
proof -
  let ?s = "ss_sock demo_subscribing"
  let ?st0 = "new_cell 1 \<lparr>conn_typ = Sub, rw = demo_net, Server = True, topics = [], closed = 0, onCloseErrorCB = True\<rparr>
       fresh_store"
  have "takes_all (cells ?st0 1)"
    by (simp add: takes_all_def new_cell_def Closed_def demo_net_def healthy_def)
  from st_SendMsg_takes_all [OF this, of "command 1 ''a''"] demo_subscribing_facts(5)
  have "takes_all (cells (bst (pools ?s)) 1)" by auto
  from st_SendMsg_takes_all [OF this, of "command 1 ''a''"] obtain st where
    st: "st_SendMsg (command 1 ''a'') 1 (bst (pools ?s)) = (None, st)" "takes_all (cells st 1)" by blast
  then have "option_finish None 1 ''a'' ?s = Returns (None, ?s\<lparr>pools := (pools ?s)\<lparr>bst := st\<rparr>\<rparr>)"
    using demo_subscribing_facts(1,3,4)
    by (simp add: option_finish_def socket_Send_def mwriter_write_def sem_lock_ready_def command_def)
  with st(2) demo_subscribing_facts(1,2) show ?thesis by (simp add: takes_all_def)
qed

theorem subscribers_agree_witness:
  "\<exists>s' ps n ps'. option_finish None 1 ''a'' (ss_sock demo_subscribing) = Returns (None, s') \<and>
     inp (cells ps 1) = out (cells (bst (pools s')) 1) \<and>
     listen_n n 1 (newPubQReader, ps) = Returns (newPubQReader, ps') \<and> set (topics (cells ps' 1)) = {''a''}"
proof -
  from demo_subscribing_sent obtain s' where
    s': "option_finish None 1 ''a'' (ss_sock demo_subscribing) = Returns (None, s')" "conns s' = [1]"
      "\<not> Closed (cells (bst (pools s')) 1)" "set (subs s') = {''a''}" by blast
  let ?y = "demo_subscribing\<lparr>ss_sock := s', ss_call := None\<rparr>"
  have reach: "sub_reach ?y"
    using s'(1) by (intro sub_reach.stepped [OF demo_subscribing_reach sub_step.option_sent])
      (auto simp: demo_subscribing_def option_cmd_def)
  let ?ps = "fresh_store\<lparr>cells := (\<lambda>_. new_conn (bytes_NewReader (out (cells (bst (pools s')) 1)))
      \<lparr>wr_script = [], written = []\<rparr>)\<rparr>"
  have ps: "inp (cells ?ps 1) = out (cells (bst (pools s')) 1)" "topics (cells ?ps 1) = []"
    by (simp_all add: new_conn_def)
  have y: "ss_call ?y = None" "1 \<in> set (conns (ss_sock ?y))" "\<not> Closed (cells (bst (pools (ss_sock ?y))) 1)"
      "ss_sock ?y = s'" using s'(2,3) by simp_all
  from subscribers_agree [OF reach y(1-3), of ?ps 1 newPubQReader] ps y(4) s'(4) obtain n ps' where
    "listen_n n 1 (newPubQReader, ?ps) = Returns (newPubQReader, ps')" "set (topics (cells ps' 1)) = {''a''}"
    by auto
  with s'(1) ps(1) show ?thesis by blast
qed

end
