(* ===== verification/Recovery.thy ===== *)
theory Recovery
  imports Subscriptions
begin

text \<open>
  What becomes of a broken connection of a SUB socket, across the components: the reader, the
  connection's callback, the reaper, the reconnecting goroutine, the dial and the callback that
  sends the topics again.
\<close>

lemma intervals_exist:
  assumes "0 < sint (reconnectIvl s)" and "sint (reconnectIvl s) < 2 ^ 62"
  shows "nth_interval rnd s j \<noteq> None"
proof (cases "0 < sint (reconnectIvlMax s)")
  case True
  from nth_interval_backoff [OF assms(1) this] show ?thesis by fastforce
next
  case False
  then have "sint (reconnectIvlMax s) \<le> 0" by simp
  from nth_interval_jitter [OF this assms] show ?thesis by fastforce
qed

text \<open>The reader of a connection that fails: it queues the error, and the callback has run.\<close>

lemma failed_read:
  assumes "st_read c st = (m, st1)" and "msg_err m = Some e" and "closed (cells st c) = 0"
    and "onCloseErrorCB (cells st c)" and "length (buf (qc q)) < cap (qc q)" and "\<not> chan_closed (qc q)"
  shows "\<exists>q' st'. qreader_listen None c (q, st) = Returns (q', st') \<and> notified st' = notified st @ [c] \<and>
    buf (qc q') = buf (qc q) @ [m]"
proof -
  from on_cell_same [OF assms(1) [unfolded st_read_def]] obtain fired where
    r: "conn_read (cells st c) = (m, cells st1 c, fired)" "notified st1 = notified st @ (if fired then [c] else [])"
    by blast
  from conn_read_error [OF r(1) assms(3)] assms(2,4) r(2) have n: "notified st1 = notified st @ [c]" by simp
  obtain e2 st2 where c: "st_Close c st1 = (e2, st2)" by (cases "st_Close c st1")
  from st_Close_spec [OF c] have "notified st2 = notified st1" by blast
  with assms(1,2,5,6) c n show ?thesis
    by (simp add: qreader_listen_def chan_send_def qreader_leave_def qreader_rmConn_def Let_def)
qed

text \<open>The rounds of the reconnecting goroutine: it is not stopped, and the \<open>n\<close>-th dial is the first to succeed.\<close>

definition dials_at ::
    "'t transports \<Rightarrow> (nat \<Rightarrow> 't rec_round) \<Rightarrow> nat \<Rightarrow> 't sub_socket \<Rightarrow> 't sub_socket \<Rightarrow> bool" where
  "dials_at db env n s s' =
     ((\<forall>j \<le> n. rr_ctx (env j) = None \<and> rr_ctx2 (env j) = None \<and> \<not> rr_cut (env j)) \<and>
      (\<forall>j < n. \<exists>e s1. socket_Dial db base_ops (Some sub_onConnAdded) (rr_dial (env j)) (rr_conn (env j)) (ep s) s
                  = Returns (Some e, s1)) \<and>
      socket_Dial db base_ops (Some sub_onConnAdded) (rr_dial (env n)) (rr_conn (env n)) (ep s) s = Returns (None, s'))"

lemma reconnect_at:
  assumes "dials_at db env n s s'" and "0 < sint (reconnectIvl s)" and "sint (reconnectIvl s) < 2 ^ 62"
  shows "\<exists>waited. reconnect db base_ops (Some sub_onConnAdded) env 0 (-1) [] s = Some (Returns (waited, s')) \<and>
    length waited = Suc n"
proof -
  have iv: "ivl_before env s 0 (-1)" by (simp add: ivl_before_def)
  have some: "\<forall>j. nth_interval (\<lambda>j. rr_rnd (env j)) s j \<noteq> None" using intervals_exist [OF assms(2,3)] by blast
  have "\<exists>wt. reconnect db base_ops (Some sub_onConnAdded) env 0 (-1) [] s = Some (Returns (wt, s')) \<and>
      length wt = length ([] :: duration list) + (n + 1 - 0)"
    by (rule reconnect_succeeds [where n = n, OF _ _ _ iv some]) (use assms(1) in \<open>auto simp: dials_at_def\<close>)
  then show ?thesis by simp
qed

lemma dial_succeeds:
  assumes "socket_Dial db base_ops (Some sub_onConnAdded) env c endpoint s = Returns (None, s')"
    and "clean_dials env" and "r_set s" and "w_set s"
  shows "conns s' = conns s @ [c]" "subs s' = subs s"
proof -
  from socket_Dial_adds [OF assms(1,2)] obtain k where
    "socket_addConn base_ops (Some sub_onConnAdded) c ((start_reaper (s\<lparr>ep := endpoint, isDialer := True\<rparr>))
       \<lparr>pools := put_store base_ops (new_cell c k (get_store base_ops (pools s))) (pools s)\<rparr>) = Some s'"
    by auto
  from sub_addConn_effect [OF this] assms(3,4) show "conns s' = conns s @ [c]" "subs s' = subs s"
    by (simp_all add: sock_simps)
qed


section \<open>The way of the socket\<close>

text \<open>After the reader has left: the callback schedules the removal and a reconnection, the reaper removes.\<close>

lemma scheduled_and_removed:
  assumes "r_set s" "w_set s" "c \<in> set (conns s)" "closedConns s = []" "ctx_err (sck_ctx s) = None"
    and "autoReconnect s" "isDialer s"
  shows "\<exists>s2 s3. reaper_take (scheduleRmConn c s) = Returns s2 \<and> reaper_remove base_ops s2 = Some s3 \<and>
    reconnects s3 = Suc (reconnects s) \<and> conns s3 = remove1 c (conns s) \<and> subs s3 = subs s \<and>
    reconnectIvl s3 = reconnectIvl s \<and> r_set s3 \<and> w_set s3"
proof -
  let ?s1 = "s\<lparr>closedConns := [c], reconnects := Suc (reconnects s)\<rparr>"
  have s1: "scheduleRmConn c s = ?s1" using assms(4,6,7) by (simp add: scheduleRmConn_def Let_def)
  let ?s2 = "?s1\<lparr>reaping := [c], closedConns := []\<rparr>"
  have s2: "reaper_take ?s1 = Returns ?s2" using assms(5) by (simp add: reaper_take_def)
  have "socket_rmConn base_ops c ?s2 = Some (?s2\<lparr>conns := remove1 c (conns ?s2),
      pools := (pools ?s2)\<lparr>bq := qreader_rmConn c (bq (pools ?s2)), bw := mwriter_rmConn c (bw (pools ?s2))\<rparr>\<rparr>)"
    by (rule base_rmConn) (use assms(1-3) in simp_all)
  then have "reaper_remove base_ops ?s2 = Some (?s2\<lparr>conns := remove1 c (conns ?s2), pools := (pools ?s2)
      \<lparr>bq := qreader_rmConn c (bq (pools ?s2)), bw := mwriter_rmConn c (bw (pools ?s2))\<rparr>, reaping := []\<rparr>)"
    by (simp add: reaper_remove_def)
  with s1 s2 assms(1,2) show ?thesis by simp
qed

text \<open>
  C6: A broken connection is replaced: when reading a connection of a dialling SUB socket fails,
  its reader queues the error and leaves, the callback runs, a reconnection is started and the
  reaper removes the connection. As soon as a dial of the reconnecting goroutine succeeds it
  returns, after one pause for each attempt; the socket has the new connection instead, and
  unless that fails too, a publisher that reads it has all the topics of the socket.
\<close>

theorem broken_connection_replaced:
  assumes "sub_reach y" and "ss_call y = None" and "ss_sock y = s" and "c \<in> set (conns s)"
    and "ctx_err (sck_ctx s) = None" "closedConns s = []" "autoReconnect s" "isDialer s"
    and "0 < sint (reconnectIvl s)" "sint (reconnectIvl s) < 2 ^ 62"
    and "length (buf (qc (bq (pools s)))) < cap (qc (bq (pools s)))" "\<not> chan_closed (qc (bq (pools s)))"
    and "st_read c (bst (pools s)) = (m, st1)" "msg_err m = Some x"
    and "\<not> Closed (cells (bst (pools s)) c)" "onCloseErrorCB (cells (bst (pools s)) c)"
    and "clean_dials (rr_dial (env n))" and "rr_conn (env n) \<notin> ss_used y"
  shows "\<exists>q st s2 s3. qreader_listen None c (bq (pools s), bst (pools s)) = Returns (q, st) \<and>
    buf (qc q) = buf (qc (bq (pools s))) @ [m] \<and> notified st = notified (bst (pools s)) @ [c] \<and>
    reaper_take (scheduleRmConn c (s\<lparr>pools := (pools s)\<lparr>bq := q, bst := st\<rparr>\<rparr>)) = Returns s2 \<and>
    reaper_remove base_ops s2 = Some s3 \<and> reconnects s3 = Suc (reconnects s) \<and> conns s3 = remove1 c (conns s) \<and>
    (\<forall>db s4. dials_at db env n s3 s4 \<longrightarrow>
       (\<exists>waited. reconnect db base_ops (Some sub_onConnAdded) env 0 (-1) [] s3 = Some (Returns (waited, s4)) \<and>
          length waited = Suc n) \<and>
       conns s4 = remove1 c (conns s) @ [rr_conn (env n)] \<and>
       (\<forall>pq ps r. \<not> Closed (cells (bst (pools s4)) (rr_conn (env n))) \<and>
          inp (cells ps r) = out (cells (bst (pools s4)) (rr_conn (env n))) \<and> topics (cells ps r) = [] \<longrightarrow>
          (\<exists>k ps'. listen_n k r (pq, ps) = Returns (pq, ps') \<and> set (topics (cells ps' r)) = set (subs s))))"
proof -
  note inv = sub_reach_inv [OF assms(1)]
  with assms(3,4) have f: "r_set s" "w_set s" "closed (cells (bst (pools s)) c) \<in> {0, 1}"
    by (auto simp: sub_inv_def Let_def)
  with assms(15) have "closed (cells (bst (pools s)) c) = 0" by (auto simp: Closed_def)
  from failed_read [OF assms(13,14) this assms(16,11,12)] obtain q st where
    h: "qreader_listen None c (bq (pools s), bst (pools s)) = Returns (q, st)"
      "notified st = notified (bst (pools s)) @ [c]" "buf (qc q) = buf (qc (bq (pools s))) @ [m]" by blast
  let ?s0 = "s\<lparr>pools := (pools s)\<lparr>bq := q, bst := st\<rparr>\<rparr>"
  have "\<exists>s2 s3. reaper_take (scheduleRmConn c ?s0) = Returns s2 \<and> reaper_remove base_ops s2 = Some s3 \<and>
    reconnects s3 = Suc (reconnects ?s0) \<and> conns s3 = remove1 c (conns ?s0) \<and> subs s3 = subs ?s0 \<and>
    reconnectIvl s3 = reconnectIvl ?s0 \<and> r_set s3 \<and> w_set s3"
    by (rule scheduled_and_removed) (use f assms(4-8) in simp_all)
  then obtain s2 s3 where
    r: "reaper_take (scheduleRmConn c ?s0) = Returns s2" "reaper_remove base_ops s2 = Some s3"
      "reconnects s3 = Suc (reconnects s)" "conns s3 = remove1 c (conns s)" "subs s3 = subs s"
      "reconnectIvl s3 = reconnectIvl s" "r_set s3" "w_set s3" by auto
  have "sub_reach (y\<lparr>ss_sock := ?s0\<rparr>)"
    by (rule stepped [OF assms(1) heard [OF _ assms(3) [symmetric]]]) (use h(1) assms(5) in simp)
  from stepped [OF stepped [OF this failed [of _ c]] reaped] r(1) have "sub_reach (y\<lparr>ss_sock := s2\<rparr>)" by simp
  from stepped [OF this removed] r(2) have y3: "sub_reach (y\<lparr>ss_sock := s3\<rparr>)" by simp
  have "(\<exists>waited. reconnect db base_ops (Some sub_onConnAdded) env 0 (-1) [] s3 = Some (Returns (waited, s4)) \<and>
          length waited = Suc n) \<and>
       conns s4 = remove1 c (conns s) @ [rr_conn (env n)] \<and>
       (\<forall>pq ps r. \<not> Closed (cells (bst (pools s4)) (rr_conn (env n))) \<and>
          inp (cells ps r) = out (cells (bst (pools s4)) (rr_conn (env n))) \<and> topics (cells ps r) = [] \<longrightarrow>
          (\<exists>k ps'. listen_n k r (pq, ps) = Returns (pq, ps') \<and> set (topics (cells ps' r)) = set (subs s)))"
    if d: "dials_at db env n s3 s4" for db s4
  proof -
    from d have dial: "socket_Dial db base_ops (Some sub_onConnAdded) (rr_dial (env n)) (rr_conn (env n)) (ep s3) s3
        = Returns (None, s4)" by (simp add: dials_at_def)
    note four = dial_succeeds [OF dial assms(17) r(7,8)]
    have "sub_reach ((y\<lparr>ss_sock := s3\<rparr>)\<lparr>ss_sock := s4, ss_used := insert (rr_conn (env n)) (ss_used (y\<lparr>ss_sock := s3\<rparr>))\<rparr>)"
      by (rule stepped [OF y3 dialled [OF _ assms(17)]]) (use dial assms(18) in simp_all)
    from sub_reach_inv [OF this] assms(2) four r(5) have
      "\<not> Closed (cells (bst (pools s4)) (rr_conn (env n))) \<longrightarrow>
         leads_to None (set (subs s)) (cells (bst (pools s4)) (rr_conn (env n)))"
      by (simp add: sub_inv_def Let_def)
    then have "\<exists>k ps'. listen_n k r (pq, ps) = Returns (pq, ps') \<and> set (topics (cells ps' r)) = set (subs s)"
      if "\<not> Closed (cells (bst (pools s4)) (rr_conn (env n)))"
        "inp (cells ps r) = out (cells (bst (pools s4)) (rr_conn (env n)))" "topics (cells ps r) = []" for pq ps r
      using that listen_wire [of _ ps r "[]" pq] by (fastforce simp: leads_to_def)
    moreover have "\<exists>waited. reconnect db base_ops (Some sub_onConnAdded) env 0 (-1) [] s3 = Some (Returns (waited, s4)) \<and>
        length waited = Suc n"
      by (rule reconnect_at [OF d]) (use r(6) assms(9,10) in simp_all)
    ultimately show ?thesis using four(1) r(4) by auto
  qed
  with h r(1-4) show ?thesis by blast
qed


definition demo_dialled :: "nat sub_socket" where
  "demo_dialled = (case socket_Dial [(''quic'', 0 :: nat)] base_ops (Some sub_onConnAdded) (\<lambda>_ _ _ _. demo_attempt True) 1
       demo_endpoint (NewSub None [] fresh_store) of Returns (_, s) \<Rightarrow> s | _ \<Rightarrow> NewSub None [] fresh_store)"

lemma demo_connects: "dial_connect d (\<lambda>_. demo_attempt True) 0 0 = Some (Inr (Some demo_net), 1)"
  by (subst dial_connect.simps) (simp add: demo_attempt_def)

lemmas demo_dialling = demo_connects socket_Dial_def demo_splitAddr dial_transport_def transports_get_def Open_def
  socket_addConn_def base_ops_def if_set_def Let_def start_reaper_def NewSub_def newSocket_def newDefaultSocket_def
  socket.defs sub_socket.defs

lemma demo_dialled_eq:
  "socket_Dial [(''quic'', 0 :: nat)] base_ops (Some sub_onConnAdded) (\<lambda>_ _ _ _. demo_attempt True) 1
     demo_endpoint (NewSub None [] fresh_store) = Returns (None, demo_dialled)"
proof -
  have "\<exists>s. socket_Dial [(''quic'', 0 :: nat)] base_ops (Some sub_onConnAdded) (\<lambda>_ _ _ _. demo_attempt True) 1
     demo_endpoint (NewSub None [] fresh_store) = Returns (None, s)"
    by (simp add: demo_dialling)
  then show ?thesis by (auto simp: demo_dialled_def simp del: One_nat_def)
qed

lemma demo_dialled_facts:
  "conns demo_dialled = [1]" "ctx_err (sck_ctx demo_dialled) = None" "closedConns demo_dialled = []"
  "autoReconnect demo_dialled" "isDialer demo_dialled" "reconnectIvl demo_dialled = defaultReconnectIvl"
  "buf (qc (bq (pools demo_dialled))) = []" "cap (qc (bq (pools demo_dialled))) = 10"
  "\<not> chan_closed (qc (bq (pools demo_dialled)))"
  "cells (bst (pools demo_dialled)) 1 = \<lparr>conn_typ = Sub, rw = demo_net, Server = False, topics = [], closed = 0,
     onCloseErrorCB = True\<rparr>"
  by (simp_all add: demo_dialled_def demo_dialling sub_onConnAdded_def sub_Topics_sort new_base_pools_def
      newQReader_def make_chan_def qreader_addConn_def new_cell_def)

lemma demo_dialled_reach: "sub_reach \<lparr>ss_sock = demo_dialled, ss_call = None, ss_used = {1}\<rparr>"
proof -
  let ?y = "\<lparr>ss_sock = NewSub None [] fresh_store, ss_call = None, ss_used = {}\<rparr> :: nat sub_sys"
  have "sub_reach ?y" by (intro sub_reach.created) simp
  moreover have "clean_dials (\<lambda>_ _ _ _. demo_attempt True)"
    by (simp add: clean_dials_def demo_attempt_def demo_net_def)
  moreover have "socket_Dial [(''quic'', 0 :: nat)] base_ops (Some sub_onConnAdded) (\<lambda>_ _ _ _. demo_attempt True) 1
     demo_endpoint (ss_sock ?y) = Returns (None, demo_dialled)"
    by (simp add: demo_dialled_eq del: One_nat_def)
  ultimately have "sub_reach (?y\<lparr>ss_sock := demo_dialled, ss_used := insert 1 (ss_used ?y)\<rparr>)"
    by (intro stepped [OF _ dialled]) simp_all
  then show ?thesis by simp
qed

text \<open>Here the connection ends at once, and the second dial of the goroutine succeeds.\<close>

theorem broken_connection_replaced_witness:
  "\<exists>q st s2 s3. qreader_listen None 1 (bq (pools demo_dialled), bst (pools demo_dialled)) = Returns (q, st) \<and>
     reaper_take (scheduleRmConn 1 (demo_dialled\<lparr>pools := (pools demo_dialled)\<lparr>bq := q, bst := st\<rparr>\<rparr>)) = Returns s2 \<and>
     reaper_remove base_ops s2 = Some s3 \<and> conns s3 = []"
proof -
  let ?env = "\<lambda>k. (demo_rounds k)\<lparr>rr_conn := 2\<rparr>"
  let ?c = "cells (bst (pools demo_dialled)) 1"
  obtain m st1 where m: "st_read 1 (bst (pools demo_dialled)) = (m, st1)"
    by (cases "st_read 1 (bst (pools demo_dialled))")
  have "fst (snd (read_loop [] (bytes_NewReader []))) = Some EOF" by code_simp
  then have err: "msg_err m = Some EOF"
    using m demo_dialled_facts(10)
    by (auto simp: st_read_def on_cell_def conn_read_def demo_net_def simp del: One_nat_def split: prod.splits)
  have ivl: "0 < sint (reconnectIvl demo_dialled)" "sint (reconnectIvl demo_dialled) < 2 ^ 62"
    by (simp_all add: demo_dialled_facts(6) defaultReconnectIvl_def Millisecond_def)
  have clean: "clean_dials (rr_dial (?env 1))"
    by (simp add: clean_dials_def demo_rounds_def demo_attempt_def demo_net_def)
  from broken_connection_replaced [of "\<lparr>ss_sock = demo_dialled, ss_call = None, ss_used = {1}\<rparr>" demo_dialled 1 m st1 EOF ?env 1,
      OF demo_dialled_reach _ _ _ demo_dialled_facts(2-5) ivl _ demo_dialled_facts(9) m err _ _ clean]
  show ?thesis
    using demo_dialled_facts(1,7,8,10) by (fastforce simp: Closed_def demo_rounds_def)
qed

end
