(* ===== verification/DatagramRuns.thy ===== *)
theory DatagramRuns
  imports Datagram
begin

text \<open>
  The datagram sockets while their goroutines take turns. A subscriber's \<^verbatim>\<open>SetOption\<close> records a
  topic under the lock and writes the command without it, and \<^verbatim>\<open>Dial\<close> publishes the control stream
  before it takes the lock and writes one command per topic. A publisher accepts peers, serves
  their control streams and sends from a copy of its list. Each call is cut where another goroutine
  may come between.
\<close>

section \<open>The subscriber\<close>

text \<open>
  Where \<^verbatim>\<open>Dial\<close> is: not running, about to take the lock, or holding it with these topics still to
  be written; and the call of \<^verbatim>\<open>SetOption\<close> that has changed the topics and not written its command.
\<close>

datatype dial_stage = NotDialling | Locking | Resending strset

record dsub_run =
  dr_sock :: dsub_socket
  dr_dial :: dial_stage
  dr_call :: "(bool \<times> string) option"

text \<open>\<^verbatim>\<open>Dial\<close> up to the assignments of \<^verbatim>\<open>qconn\<close> and \<^verbatim>\<open>ctrlStream\<close>: as if there were no topics.\<close>

definition dial_connects :: "dsub_net \<Rightarrow> string \<Rightarrow> dsub_socket \<Rightarrow> go_error option \<times> dsub_socket" where
  "dial_connects net endpoint s =
     (case dsub_Dial net endpoint (s\<lparr>ds_topics := []\<rparr>) of (e, s1, _) \<Rightarrow> (e, s1\<lparr>ds_topics := ds_topics s\<rparr>))"

definition dial_resends :: "string \<Rightarrow> dsub_socket \<Rightarrow> dsub_socket" where
  "dial_resends t s =
     (case ds_ctrl s of None \<Rightarrow> s | Some w \<Rightarrow> s\<lparr>ds_ctrl := Some (snd (writeSubCmd w True t))\<rparr>)"

definition change_topics :: "bool \<Rightarrow> string \<Rightarrow> dsub_socket \<Rightarrow> dsub_socket" where
  "change_topics sub t s =
     s\<lparr>ds_topics := (if sub then strset_put t (ds_topics s) else strset_del t (ds_topics s))\<rparr>"

text \<open>The pieces make up the calls.\<close>

lemma dial_resends_ctrl:
  "ds_ctrl s = Some w \<Longrightarrow> fold dial_resends ts s = s\<lparr>ds_ctrl := Some (resubscribe_loop ts w)\<rparr>"
proof (induction ts arbitrary: s w)
  case Nil
  then have "s\<lparr>ds_ctrl := Some w\<rparr> = s" by (cases s) simp
  with Nil show ?case by simp
next
  case (Cons t ts)
  from Cons.IH [of "dial_resends t s" "snd (writeSubCmd w True t)"] Cons.prems show ?case
    by (simp add: dial_resends_def)
qed

lemma dsub_Dial_pieces:
  "dsub_Dial net endpoint s =
     (case dial_connects net endpoint s of
        (Some e, s1) \<Rightarrow> (Some e, s1, snd (snd (dsub_Dial net endpoint s)))
      | (None, s1) \<Rightarrow> (None, fold dial_resends (ds_topics s) s1, snd (snd (dsub_Dial net endpoint s))))"
  by (auto simp: dsub_Dial_def dial_connects_def Let_def dial_resends_ctrl split: sum.split prod.split)

lemma dsub_SetOption_pieces:
  "name = OptionSubscribe \<or> name = OptionUnsubscribe \<Longrightarrow>
     dsub_SetOption name (AnyString t) s =
       Some (dsub_command (name = OptionSubscribe) t (change_topics (name = OptionSubscribe) t s))"
  using option_names_differ by (auto simp: dsub_SetOption_def change_topics_def)

text \<open>Topics fit a frame, and a new control stream takes what is written.\<close>

definition fits :: "string \<Rightarrow> bool" where
  "fits t = (length t < 2 ^ 32 - 1)"

definition clean_stream :: "dsub_net \<Rightarrow> bool" where
  "clean_stream net = (\<forall>w. dn_stream net = Inr w \<longrightarrow> healthy w \<and> written w = [])"

inductive dsub_step :: "dsub_run \<Rightarrow> dsub_run \<Rightarrow> bool" where
  changes: "dr_call y = None \<Longrightarrow> (\<forall>ts. dr_dial y \<noteq> Resending ts) \<Longrightarrow> fits t \<Longrightarrow>
     dsub_step y (y\<lparr>dr_sock := change_topics sub t (dr_sock y), dr_call := Some (sub, t)\<rparr>)"
| commands: "dr_call y = Some (sub, t) \<Longrightarrow>
     dsub_step y (y\<lparr>dr_sock := snd (dsub_command sub t (dr_sock y)), dr_call := None\<rparr>)"
| connects: "dr_dial y = NotDialling \<Longrightarrow> clean_stream net \<Longrightarrow> dial_connects net endpoint (dr_sock y) = (e, s) \<Longrightarrow>
     dsub_step y (y\<lparr>dr_sock := s, dr_dial := (if e = None then Locking else NotDialling)\<rparr>)"
| locks: "dr_dial y = Locking \<Longrightarrow> dsub_step y (y\<lparr>dr_dial := Resending (ds_topics (dr_sock y))\<rparr>)"
| resends: "dr_dial y = Resending (t # ts) \<Longrightarrow>
     dsub_step y (y\<lparr>dr_sock := dial_resends t (dr_sock y), dr_dial := Resending ts\<rparr>)"
| unlocks: "dr_dial y = Resending [] \<Longrightarrow> dsub_step y (y\<lparr>dr_dial := NotDialling\<rparr>)"
| other_option: "dsub_step y (y\<lparr>dr_sock := (dr_sock y)\<lparr>ds_props := pr\<rparr>\<rparr>)"

inductive dsub_runs :: "dsub_run \<Rightarrow> bool" where
  fresh: "dsub_runs \<lparr>dr_sock = NewDatagramSub c (opts :: ((unit, nat) socket \<Rightarrow> (unit, nat) socket) list),
                     dr_dial = NotDialling, dr_call = None\<rparr>"
| steps: "dsub_runs y \<Longrightarrow> dsub_step y z \<Longrightarrow> dsub_runs z"

definition pending :: "(bool \<times> string) option \<Rightarrow> string set \<Rightarrow> string set" where
  "pending call ts = (case call of None \<Rightarrow> ts | Some (sub, t) \<Rightarrow> if sub then insert t ts else ts - {t})"

lemma pending_simps [simp]:
  "pending None ts = ts" "pending (Some (sub, t)) ts = (if sub then insert t ts else ts - {t})"
  by (simp_all add: pending_def)

text \<open>
  What a control stream has carried adds up to \<open>got\<close>; with the command of a pending call and the
  topics \<^verbatim>\<open>Dial\<close> has still to write it adds up to the topics, or will once \<^verbatim>\<open>Dial\<close> has the lock.
\<close>

definition stream_state :: "dial_stage \<Rightarrow> (bool \<times> string) option \<Rightarrow> string set \<Rightarrow> string set \<Rightarrow> bool" where
  "stream_state d call ts sent =
     (case d of
        NotDialling \<Rightarrow> pending call sent = ts
      | Locking \<Rightarrow> pending call sent \<subseteq> ts
      | Resending rest \<Rightarrow> pending call sent \<union> set rest = ts)"

definition stream_ok :: "dial_stage \<Rightarrow> (bool \<times> string) option \<Rightarrow> string set \<Rightarrow> writer \<Rightarrow> bool" where
  "stream_ok d call ts w =
     (healthy w \<and> (\<exists>cmds. list_all subcmd_ok cmds \<and> written w = concat (map subcmd_enc cmds) \<and>
        stream_state d call ts (set (fold run_command cmds []))))"

definition run_inv :: "dsub_run \<Rightarrow> bool" where
  "run_inv y =
     (let s = dr_sock y; ts = set (ds_topics s) in
      (\<forall>t \<in> ts. fits t) \<and> pending (dr_call y) ts = ts \<and> (\<forall>sub t. dr_call y = Some (sub, t) \<longrightarrow> fits t) \<and>
      (dr_dial y \<noteq> NotDialling \<longrightarrow> ds_ctrl s \<noteq> None) \<and>
      (\<forall>w. ds_ctrl s = Some w \<longrightarrow> stream_ok (dr_dial y) (dr_call y) ts w))"

lemma stream_ok_write:
  assumes "stream_ok d call ts w" and "fits t"
    and "\<And>sent. stream_state d call ts sent \<Longrightarrow> stream_state d' call' ts (if sub then insert t sent else sent - {t})"
  shows "stream_ok d' call' ts (snd (writeSubCmd w sub t))"
proof -
  from assms(1) obtain cmds where cmds: "list_all subcmd_ok cmds" "written w = concat (map subcmd_enc cmds)"
      "stream_state d call ts (set (fold run_command cmds []))" and h: "healthy w"
    by (auto simp: stream_ok_def)
  from writer_Write_healthy [OF h, of "subcmd_frame sub t"] obtain w1 where
    w1: "writeSubCmd w sub t = (None, w1)" "healthy w1" "written w1 = written w @ subcmd_enc (sub, t)"
    by (auto simp: writeSubCmd_def subcmd_enc_def)
  have "list_all subcmd_ok (cmds @ [(sub, t)])" using cmds(1) assms(2) by (simp add: subcmd_ok_def fits_def)
  moreover have "stream_state d' call' ts (set (fold run_command (cmds @ [(sub, t)]) []))"
    using assms(3) [OF cmds(3)] by (cases sub) simp_all
  ultimately show ?thesis using w1 cmds(2) by (auto simp: stream_ok_def intro!: exI [of _ "cmds @ [(sub, t)]"])
qed

lemma stream_ok_state:
  "stream_ok d call ts w \<Longrightarrow> (\<And>sent. stream_state d call ts sent \<Longrightarrow> stream_state d' call' ts' sent) \<Longrightarrow>
     stream_ok d' call' ts' w"
  by (auto simp: stream_ok_def)

lemma stream_ok_fresh: "healthy w \<Longrightarrow> written w = [] \<Longrightarrow> pending call ts = ts \<Longrightarrow> stream_ok Locking call ts w"
proof -
  assume w: "healthy w" "written w = []" and p: "pending call ts = ts"
  have "pending call {} \<subseteq> pending call ts"
    by (simp add: pending_def split: option.split prod.split)
  then have "pending call {} \<subseteq> ts" unfolding p .
  then have "stream_state Locking call ts (set (fold run_command [] []))" by (simp add: stream_state_def)
  moreover have "list_all subcmd_ok []" "written w = concat (map subcmd_enc [])" using w(2) by simp_all
  ultimately show ?thesis using w(1) unfolding stream_ok_def by blast
qed

lemma dsub_Dial_stream: "dsub_Dial net endpoint s = (None, s', tr) \<Longrightarrow> \<exists>w. dn_stream net = Inr w"
proof -
  have "case dsub_Dial net endpoint s of (e, s', tr) \<Rightarrow> e = None \<longrightarrow> (\<exists>w. dn_stream net = Inr w)"
    by (simp add: dsub_Dial_def Let_def split: sum.split prod.split)
  moreover assume "dsub_Dial net endpoint s = (None, s', tr)"
  ultimately show ?thesis by simp
qed

lemma dial_connects_frame:
  assumes "dial_connects net endpoint s = (e, s')"
  shows "ds_topics s' = ds_topics s"
    "case e of None \<Rightarrow> (\<exists>w. dn_stream net = Inr w \<and> ds_ctrl s' = Some w) | Some _ \<Rightarrow> ds_ctrl s' = ds_ctrl s"
proof -
  obtain e1 s1 tr where d: "dsub_Dial net endpoint (s\<lparr>ds_topics := []\<rparr>) = (e1, s1, tr)"
    by (metis surj_pair)
  with assms have s': "e1 = e" "s' = s1\<lparr>ds_topics := ds_topics s\<rparr>" by (simp_all add: dial_connects_def)
  from s'(2) show "ds_topics s' = ds_topics s" by simp
  show "case e of None \<Rightarrow> (\<exists>w. dn_stream net = Inr w \<and> ds_ctrl s' = Some w) | Some _ \<Rightarrow> ds_ctrl s' = ds_ctrl s"
  proof (cases e)
    case None
    with d s'(1) have "dsub_Dial net endpoint (s\<lparr>ds_topics := []\<rparr>) = (None, s1, tr)" by simp
    moreover from dsub_Dial_stream [OF this] obtain w where "dn_stream net = Inr w" by blast
    ultimately show ?thesis using dsub_Dial_ok [of net endpoint "s\<lparr>ds_topics := []\<rparr>" s1 tr w] s'(2) None by simp
  next
    case (Some e2)
    with d s' show ?thesis using dsub_Dial_failed [of net endpoint "s\<lparr>ds_topics := []\<rparr>" e2 s1 tr] by simp
  qed
qed

lemma set_change_topics [simp]:
  "set (ds_topics (change_topics sub t s)) = (if sub then insert t (set (ds_topics s)) else set (ds_topics s) - {t})"
  "ds_ctrl (change_topics sub t s) = ds_ctrl s"
  by (simp_all add: change_topics_def)

lemma dsub_step_inv: "dsub_step y z \<Longrightarrow> run_inv y \<Longrightarrow> run_inv z"
proof (induction rule: dsub_step.induct)
  case (changes y t sub)
  let ?ts = "set (ds_topics (dr_sock y))"
  have "stream_ok (dr_dial y) (Some (sub, t)) (if sub then insert t ?ts else ?ts - {t}) w"
    if "ds_ctrl (dr_sock y) = Some w" for w
  proof (rule stream_ok_state)
    show "stream_ok (dr_dial y) None ?ts w" using changes that by (simp add: run_inv_def Let_def)
    show "stream_state (dr_dial y) (Some (sub, t)) (if sub then insert t ?ts else ?ts - {t}) sent"
      if "stream_state (dr_dial y) None ?ts sent" for sent
      using that changes(2) by (auto simp: stream_state_def split: dial_stage.splits)
  qed
  with changes show ?case by (auto simp: run_inv_def Let_def)
next
  case (commands y sub t)
  let ?ts = "set (ds_topics (dr_sock y))"
  show ?case
  proof (cases "ds_ctrl (dr_sock y)")
    case None
    with commands show ?thesis by (simp add: run_inv_def Let_def dsub_command_def)
  next
    case (Some w)
    have "stream_ok (dr_dial y) None ?ts (snd (writeSubCmd w sub t))"
    proof (rule stream_ok_write)
      show "stream_ok (dr_dial y) (Some (sub, t)) ?ts w" "fits t"
        using commands Some by (simp_all add: run_inv_def Let_def)
      show "stream_state (dr_dial y) None ?ts (if sub then insert t sent else sent - {t})"
        if "stream_state (dr_dial y) (Some (sub, t)) ?ts sent" for sent
        using that by (cases sub) (auto simp: stream_state_def split: dial_stage.splits)
    qed
    then have "stream_ok (dr_dial y) None ?ts w1" if "writeSubCmd w sub t = (e, w1)" for e w1
      using that by simp
    with Some commands show ?thesis by (simp add: run_inv_def Let_def dsub_command_def split: prod.split)
  qed
next
  case (connects y net endpoint e s)
  note f = dial_connects_frame [OF connects(3)]
  show ?case
  proof (cases e)
    case None
    with f(2) obtain w where w: "dn_stream net = Inr w" "ds_ctrl s = Some w" by auto
    with connects(2) have "healthy w" "written w = []" by (simp_all add: clean_stream_def)
    with stream_ok_fresh [OF this] connects(4) None w f(1) show ?thesis by (simp add: run_inv_def Let_def)
  next
    case (Some e1)
    with f connects(1,4) show ?thesis by (simp add: run_inv_def Let_def)
  qed
next
  case (locks y)
  let ?ts = "set (ds_topics (dr_sock y))"
  have "stream_ok (Resending (ds_topics (dr_sock y))) (dr_call y) ?ts w" if "ds_ctrl (dr_sock y) = Some w" for w
  proof (rule stream_ok_state)
    show "stream_ok Locking (dr_call y) ?ts w" using locks that by (simp add: run_inv_def Let_def)
    show "stream_state (Resending (ds_topics (dr_sock y))) (dr_call y) ?ts sent"
      if "stream_state Locking (dr_call y) ?ts sent" for sent
      using that by (auto simp: stream_state_def)
  qed
  with locks show ?case by (simp add: run_inv_def Let_def)
next
  case (resends y t ts)
  let ?ts = "set (ds_topics (dr_sock y))"
  from resends obtain w where w: "ds_ctrl (dr_sock y) = Some w" "stream_ok (Resending (t # ts)) (dr_call y) ?ts w"
    by (auto simp: run_inv_def Let_def)
  have t: "t \<in> ?ts" "fits t" "pending (dr_call y) ?ts = ?ts"
    using resends w by (auto simp: run_inv_def Let_def stream_ok_def stream_state_def)
  have "stream_ok (Resending ts) (dr_call y) ?ts (snd (writeSubCmd w True t))"
    by (rule stream_ok_write [OF w(2) t(2)])
      (use t(1,3) in \<open>auto simp: stream_state_def pending_def split: option.splits if_splits\<close>)
  with resends w(1) show ?case by (simp add: run_inv_def Let_def dial_resends_def)
next
  case (unlocks y)
  let ?ts = "set (ds_topics (dr_sock y))"
  have "stream_ok NotDialling (dr_call y) ?ts w" if "ds_ctrl (dr_sock y) = Some w" for w
  proof (rule stream_ok_state)
    show "stream_ok (Resending []) (dr_call y) ?ts w" using unlocks that by (simp add: run_inv_def Let_def)
    show "stream_state NotDialling (dr_call y) ?ts sent" if "stream_state (Resending []) (dr_call y) ?ts sent" for sent
      using that by (simp add: stream_state_def)
  qed
  with unlocks show ?case by (simp add: run_inv_def Let_def)
next
  case (other_option y pr)
  then show ?case by (simp add: run_inv_def Let_def)
qed

lemma dsub_runs_inv: "dsub_runs y \<Longrightarrow> run_inv y"
proof (induction rule: dsub_runs.induct)
  case (fresh c opts)
  show ?case by (simp add: run_inv_def NewDatagramSub_def Let_def)
next
  case (steps y z)
  then show ?case by (simp add: dsub_step_inv)
qed

text \<open>
  C12: However a subscriber's \<^verbatim>\<open>SetOption\<close> and \<^verbatim>\<open>Dial\<close> take turns, each cut where the lock is not
  held: when neither is under way, a publisher that has read what the control stream carried has
  exactly the subscriber's topics.
\<close>

theorem control_streams_agree:
  assumes "dsub_runs y" and "dr_dial y = NotDialling" and "dr_call y = None"
    and "ds_ctrl (dr_sock y) = Some w" and "content r = written w" and "dg_topics (peers p i) = []"
  shows "\<exists>n r' p'. handlePeer_n n i r p = (True, r', p') \<and> content r' = [] \<and>
    set (dg_topics (peers p' i)) = set (ds_topics (dr_sock y)) \<and> (\<forall>j. j \<noteq> i \<longrightarrow> peers p' j = peers p j) \<and>
    peerList p' = peerList p"
proof -
  from dsub_runs_inv [OF assms(1)] assms(2-4) obtain cmds where
    cmds: "list_all subcmd_ok cmds" "written w = concat (map subcmd_enc cmds)"
      "set (fold run_command cmds []) = set (ds_topics (dr_sock y))"
    by (auto simp: run_inv_def Let_def stream_ok_def stream_state_def)
  have "content r = concat (map subcmd_enc cmds) @ []" using cmds(2) assms(5) by simp
  from handlePeer_n_commands [OF cmds(1) this, of i p] cmds(3) assms(6) show ?thesis
    by (intro exI [of _ "length cmds"]) auto
qed

text \<open>The subscriber has one topic and is dialling: it has written that topic and not released the lock.\<close>

definition demo_dialling :: dsub_run where
  "demo_dialling =
     (let s = change_topics True ''a'' (NewDatagramSub None ([] :: ((unit, nat) socket \<Rightarrow> (unit, nat) socket) list)) in
      \<lparr>dr_sock = dial_resends ''a'' (s\<lparr>ds_udp := Some 1, ds_qconn := Some 2, ds_ctrl := Some \<lparr>wr_script = [], written = []\<rparr>\<rparr>),
       dr_dial = Resending [], dr_call = None\<rparr>)"

lemma demo_dialling_runs: "dsub_runs demo_dialling"
proof -
  let ?n = "NewDatagramSub None ([] :: ((unit, nat) socket \<Rightarrow> (unit, nat) socket) list)"
  let ?s = "change_topics True ''a'' ?n"
  let ?y = "\<lambda>s d c. \<lparr>dr_sock = s, dr_dial = d, dr_call = c\<rparr>"
  let ?s2 = "?s\<lparr>ds_udp := Some 1, ds_qconn := Some 2, ds_ctrl := Some \<lparr>wr_script = [], written = []\<rparr>\<rparr>"
  have n: "ds_ctrl ?n = None" "ds_topics ?n = []" by (simp_all add: NewDatagramSub_def Let_def)
  have y0: "dsub_runs (?y ?n NotDialling None)" by (rule dsub_runs.fresh)
  have y1: "dsub_runs (?y ?s NotDialling (Some (True, ''a'')))"
    using dsub_runs.steps [OF y0 dsub_step.changes [of _ "''a''" True]] by (simp add: fits_def)
  have y2: "dsub_runs (?y ?s NotDialling None)"
    using dsub_runs.steps [OF y1 dsub_step.commands] n by (simp add: dsub_command_def)
  have sp: "splitAddr ''quic://h:1'' = Inr (''quic'', ''h:1'')" by code_simp
  have "dial_connects demo_dsub_net ''quic://h:1'' ?s = (None, ?s2)"
    by (simp add: dial_connects_def dsub_Dial_def sp demo_dsub_net_def Let_def)
  moreover have "clean_stream demo_dsub_net" by (simp add: clean_stream_def demo_dsub_net_def healthy_def)
  ultimately have y3: "dsub_runs (?y ?s2 Locking None)"
    using dsub_runs.steps [OF y2 dsub_step.connects [of _ demo_dsub_net "''quic://h:1''" None ?s2]] by simp
  have "ds_topics ?s2 = [''a'']" using n by (simp add: change_topics_def strset_put_def)
  then have y4: "dsub_runs (?y ?s2 (Resending [''a'']) None)"
    using dsub_runs.steps [OF y3 dsub_step.locks] by simp
  show ?thesis
    using dsub_runs.steps [OF y4 dsub_step.resends [of _ "''a''" "[]"]] by (simp add: demo_dialling_def Let_def)
qed

theorem control_streams_agree_witness:
  "\<exists>n r' p'. handlePeer_n n 1 (bytes_NewReader (subcmd_enc (True, ''a'')))
       (demo_dpub\<lparr>peers := (\<lambda>i. \<lparr>dg_qconn = i, dg_topics = []\<rparr>)\<rparr>) = (True, r', p') \<and>
     set (dg_topics (peers p' 1)) = {''a''}"
proof -
  let ?y = "demo_dialling\<lparr>dr_dial := NotDialling\<rparr>"
  let ?p = "demo_dpub\<lparr>peers := (\<lambda>i. \<lparr>dg_qconn = i, dg_topics = []\<rparr>)\<rparr>"
  have y: "dsub_runs ?y"
    by (rule dsub_runs.steps [OF demo_dialling_runs dsub_step.unlocks]) (simp add: demo_dialling_def Let_def)
  let ?w = "\<lparr>wr_script = [], written = subcmd_enc (True, ''a'')\<rparr> :: writer"
  have t: "ds_ctrl (dr_sock ?y) = Some ?w" "ds_topics (dr_sock ?y) = [''a'']"
    by (simp_all add: demo_dialling_def dial_resends_def writeSubCmd_def writer_Write_def subcmd_enc_def
        change_topics_def strset_put_def NewDatagramSub_def Let_def)
  have p: "dr_dial ?y = NotDialling" "dr_call ?y = None" "content (bytes_NewReader (subcmd_enc (True, ''a''))) = written ?w"
      "dg_topics (peers ?p 1) = []"
    by (simp_all add: demo_dialling_def Let_def)
  from control_streams_agree [OF y p(1,2) t(1) p(3,4)] t(2) show ?thesis by auto
qed

section \<open>The publisher\<close>

text \<open>
  The goroutine of a peer: it waits for the control stream, serves it, or has ended. A call of
  \<^verbatim>\<open>Send\<close> under way has a topic and a datagram, the peers of its copy whose turn has not come, the
  first error, and the peers whose send failed.
\<close>

datatype handler = NoHandler | Opening | Serving reader | Ended

record sending =
  sd_topic :: string
  sd_data :: bytes
  sd_rest :: "nat list"
  sd_err :: "go_error option"
  sd_dead :: "nat list"

record dpub_run =
  pr_sock :: dpub_socket
  pr_accepted :: "nat list"
  pr_handler :: "nat \<Rightarrow> handler"
  pr_send :: "sending option"
  pr_failed :: "nat set"

definition send_begins :: "msg \<Rightarrow> dpub_socket \<Rightarrow> sending" where
  "send_begins m s =
     \<lparr>sd_topic = string_of_bytes (Frames m ! 0), sd_data = serializeMsgDatagram m, sd_rest = peerList s,
      sd_err = None, sd_dead = []\<rparr>"

definition send_turn ::
    "(qconn_id \<Rightarrow> bool) \<Rightarrow> (qconn_id \<Rightarrow> bytes \<Rightarrow> go_error option) \<Rightarrow> (nat \<Rightarrow> dgpeer) \<Rightarrow> nat \<Rightarrow> sending \<Rightarrow> sending" where
  "send_turn supports send ps i d =
     (case dpub_send_loop supports send ps (sd_topic d) (sd_data d) [i] (sd_err d) (sd_dead d) [] of
        (e, dead, _) \<Rightarrow> d\<lparr>sd_rest := tl (sd_rest d), sd_err := e, sd_dead := dead\<rparr>)"

definition send_ends :: "sending \<Rightarrow> dpub_socket \<Rightarrow> dpub_socket" where
  "send_ends d s =
     (if length (sd_dead d) > 0 then s\<lparr>peerList := remove_dead (sd_dead d) (peerList s)\<rparr> else s)"

text \<open>The pieces make up \<^verbatim>\<open>Send\<close>.\<close>

lemma send_turns:
  "sd_rest d = is \<Longrightarrow>
     dpub_send_loop supports send ps (sd_topic d) (sd_data d) is (sd_err d) (sd_dead d) tr =
       (let d' = fold (send_turn supports send ps) is d in
        (sd_err d', sd_dead d',
         snd (snd (dpub_send_loop supports send ps (sd_topic d) (sd_data d) is (sd_err d) (sd_dead d) tr))))"
proof (induction "is" arbitrary: d tr)
  case Nil
  then show ?case by simp
next
  case (Cons i rest)
  obtain e dead tr1 where l: "dpub_send_loop supports send ps (sd_topic d) (sd_data d) [i] (sd_err d) (sd_dead d) [] = (e, dead, tr1)"
    by (metis surj_pair)
  let ?d = "d\<lparr>sd_rest := rest, sd_err := e, sd_dead := dead\<rparr>"
  have turn: "send_turn supports send ps i d = ?d" using l Cons.prems by (simp add: send_turn_def)
  have "\<exists>tr2. dpub_send_loop supports send ps (sd_topic d) (sd_data d) (i # rest) (sd_err d) (sd_dead d) tr =
      dpub_send_loop supports send ps (sd_topic d) (sd_data d) rest e dead tr2"
    using l by (auto simp: Let_def split: option.splits if_splits)
  then obtain tr2 where step: "dpub_send_loop supports send ps (sd_topic d) (sd_data d) (i # rest) (sd_err d) (sd_dead d) tr =
      dpub_send_loop supports send ps (sd_topic d) (sd_data d) rest e dead tr2" by blast
  from Cons.IH [of ?d tr2] show ?case unfolding step by (simp add: turn Let_def)
qed

lemma dpub_Send_pieces:
  assumes "Frames m \<noteq> []"
  shows "let d = fold (send_turn supports send (peers s)) (peerList s) (send_begins m s) in
    dpub_Send supports send m s = (sd_err d, send_ends d s, snd (snd (dpub_Send supports send m s)))"
proof -
  let ?d = "send_begins m s"
  let ?last = "fold (send_turn supports send (peers s)) (peerList s) ?d"
  have d: "sd_rest ?d = peerList s" "sd_err ?d = None" "sd_dead ?d = []" by (simp_all add: send_begins_def)
  obtain e dead tr where l: "dpub_send_loop supports send (peers s) (sd_topic ?d) (sd_data ?d) (peerList s) None [] [] = (e, dead, tr)"
    by (metis surj_pair)
  with send_turns [OF d(1), of supports send "peers s" "[]"] d have "sd_err ?last = e" "sd_dead ?last = dead"
    by (simp_all add: Let_def)
  moreover from l assms have "dpub_Send supports send m s =
      (e, if length dead > 0 then s\<lparr>peerList := remove_dead dead (peerList s)\<rparr> else s, tr)"
    by (simp add: dpub_Send_def send_begins_def)
  ultimately show ?thesis by (simp add: send_ends_def)
qed

inductive dpub_step :: "dpub_run \<Rightarrow> dpub_run \<Rightarrow> bool" where
  accepts: "i \<notin> set (pr_accepted y) \<Longrightarrow>
     dpub_step y (y\<lparr>pr_sock := dpub_accept (Inr q) i (pr_sock y), pr_accepted := pr_accepted y @ [i],
                    pr_handler := (pr_handler y)(i := Opening)\<rparr>)"
| opens: "pr_handler y i = Opening \<Longrightarrow> handlePeer_start a i (pr_sock y) = (stream, s) \<Longrightarrow>
     dpub_step y (y\<lparr>pr_sock := s, pr_handler := (pr_handler y)(i := case stream of None \<Rightarrow> Ended | Some r \<Rightarrow> Serving r)\<rparr>)"
| serves: "pr_handler y i = Serving r \<Longrightarrow> handlePeer_round i r (pr_sock y) = (goes_on, r', s) \<Longrightarrow>
     dpub_step y (y\<lparr>pr_sock := s, pr_handler := (pr_handler y)(i := if goes_on then Serving r' else Ended)\<rparr>)"
| begins: "pr_send y = None \<Longrightarrow> Frames m \<noteq> [] \<Longrightarrow>
     dpub_step y (y\<lparr>pr_send := Some (send_begins m (pr_sock y))\<rparr>)"
| sends: "pr_send y = Some d \<Longrightarrow> sd_rest d = i # rest \<Longrightarrow>
     dpub_step y (y\<lparr>pr_send := Some (send_turn supports send (peers (pr_sock y)) i d)\<rparr>)"
| ends: "pr_send y = Some d \<Longrightarrow> sd_rest d = [] \<Longrightarrow>
     dpub_step y (y\<lparr>pr_sock := send_ends d (pr_sock y), pr_send := None, pr_failed := pr_failed y \<union> set (sd_dead d)\<rparr>)"

inductive dpub_runs :: "dpub_run \<Rightarrow> bool" where
  fresh: "dpub_runs \<lparr>pr_sock = NewDatagramPub c (opts :: ((unit, nat) socket \<Rightarrow> (unit, nat) socket) list),
                     pr_accepted = [], pr_handler = (\<lambda>_. NoHandler), pr_send = None, pr_failed = {}\<rparr>"
| steps: "dpub_runs y \<Longrightarrow> dpub_step y z \<Longrightarrow> dpub_runs z"

text \<open>The peers that have neither left nor failed, in the order in which they were accepted.\<close>

definition remaining :: "dpub_run \<Rightarrow> nat list" where
  "remaining y = filter (\<lambda>i. pr_handler y i \<noteq> Ended \<and> i \<notin> pr_failed y) (pr_accepted y)"

definition dpub_inv :: "dpub_run \<Rightarrow> bool" where
  "dpub_inv y =
     (distinct (pr_accepted y) \<and> peerList (pr_sock y) = remaining y \<and> pr_failed y \<subseteq> set (pr_accepted y) \<and>
      (\<forall>i. pr_handler y i = NoHandler \<longleftrightarrow> i \<notin> set (pr_accepted y)) \<and>
      (\<forall>d. pr_send y = Some d \<longrightarrow> set (sd_rest d) \<union> set (sd_dead d) \<subseteq> set (pr_accepted y)))"

lemma handler_accepted: "dpub_inv y \<Longrightarrow> pr_handler y i \<noteq> NoHandler \<Longrightarrow> i \<in> set (pr_accepted y)"
  unfolding dpub_inv_def by blast

lemma handlePeer_leave_remaining:
  assumes "dpub_inv y" and "peerList s = rm_from i (peerList (pr_sock y))"
  shows "peerList s = filter (\<lambda>j. j \<noteq> i \<and> pr_handler y j \<noteq> Ended \<and> j \<notin> pr_failed y) (pr_accepted y)"
proof -
  have "distinct (remaining y)" using assms(1) by (simp add: dpub_inv_def remaining_def)
  then have "peerList s = filter (\<lambda>j. i \<noteq> j) (remaining y)"
    using assms by (simp add: dpub_inv_def rm_from_remove1 distinct_remove1_removeAll removeAll_filter_not_eq)
  then show ?thesis by (auto simp: remaining_def intro: filter_cong)
qed

lemma send_turn_dead: "set (sd_dead (send_turn supports send ps i d)) \<subseteq> insert i (set (sd_dead d))"
  "sd_rest (send_turn supports send ps i d) = tl (sd_rest d)"
  by (auto simp: send_turn_def Let_def split: prod.splits option.splits if_splits)

lemma dpub_step_inv: "dpub_step y z \<Longrightarrow> dpub_inv y \<Longrightarrow> dpub_inv z"
proof (induction rule: dpub_step.induct)
  case (accepts i y q)
  then show ?case by (auto simp: dpub_inv_def remaining_def dpub_accept_def intro: filter_cong)
next
  case (opens y i a stream s)
  then have i: "i \<in> set (pr_accepted y)" by (simp add: handler_accepted)
  show ?case
  proof (cases a)
    case (Inl e)
    with opens(2) have "stream = None" "peerList s = rm_from i (peerList (pr_sock y))"
      by (auto simp: handlePeer_start_def handlePeer_leave_def)
    with handlePeer_leave_remaining [OF opens(3) this(2)] opens(1,3) i show ?thesis
      by (auto simp: dpub_inv_def remaining_def intro: filter_cong)
  next
    case (Inr r)
    with opens i show ?thesis
      by (auto simp: dpub_inv_def remaining_def handlePeer_start_def intro: filter_cong)
  qed
next
  case (serves y i r goes_on r' s)
  then have i: "i \<in> set (pr_accepted y)" by (simp add: handler_accepted)
  show ?case
  proof (cases goes_on)
    case True
    with serves(2) have "peerList s = peerList (pr_sock y)"
      by (auto simp: handlePeer_round_def Let_def split: prod.splits sum.splits)
    with serves(1,3) True i show ?thesis by (auto simp: dpub_inv_def remaining_def intro: filter_cong)
  next
    case False
    with serves(2) have "peerList s = rm_from i (peerList (pr_sock y))"
      by (auto simp: handlePeer_round_def handlePeer_leave_def Let_def split: prod.splits sum.splits)
    with handlePeer_leave_remaining [OF serves(3) this] serves(1,3) False i show ?thesis
      by (auto simp: dpub_inv_def remaining_def intro: filter_cong)
  qed
next
  case (begins y m)
  then show ?case by (auto simp: dpub_inv_def remaining_def send_begins_def)
next
  case (sends y d i rest supports send)
  then show ?case using send_turn_dead [of supports send "peers (pr_sock y)" i d]
    by (auto simp: dpub_inv_def remaining_def)
next
  case (ends y d)
  have "distinct (peerList (pr_sock y))" using ends(3) by (simp add: dpub_inv_def remaining_def)
  then have "peerList (send_ends d (pr_sock y)) = filter (\<lambda>i. i \<notin> set (sd_dead d)) (peerList (pr_sock y))"
    by (simp add: send_ends_def remove_dead_filter)
  with ends show ?case by (auto simp: dpub_inv_def remaining_def intro: filter_cong)
qed

lemma dpub_runs_inv: "dpub_runs y \<Longrightarrow> dpub_inv y"
proof (induction rule: dpub_runs.induct)
  case (fresh c opts)
  show ?case by (simp add: dpub_inv_def remaining_def NewDatagramPub_def Let_def)
next
  case (steps y z)
  then show ?case by (simp add: dpub_step_inv)
qed

text \<open>
  C1: In any interleaving of accepting, of the goroutines of the peers and of \<^verbatim>\<open>Send\<close>, which works on
  a copy of the list: the list of a datagram publisher holds each accepted peer once, in the order
  of acceptance, but for those whose control stream ended or whose send failed. The end of a \<^verbatim>\<open>Send\<close>
  takes out exactly its failures, whoever joined or left meanwhile.
\<close>

theorem dpub_peers_exact:
  assumes "dpub_runs y"
  shows "peerList (pr_sock y) = remaining y \<and> distinct (pr_accepted y) \<and>
    (\<forall>d. pr_send y = Some d \<longrightarrow> peerList (send_ends d (pr_sock y)) = filter (\<lambda>i. i \<notin> set (sd_dead d)) (remaining y))"
proof -
  from dpub_runs_inv [OF assms] have i: "dpub_inv y" .
  then have "distinct (peerList (pr_sock y))" by (simp add: dpub_inv_def remaining_def)
  with i show ?thesis by (simp add: dpub_inv_def send_ends_def remove_dead_filter)
qed

definition demo_two_peers :: dpub_run where
  "demo_two_peers =
     (let s = dpub_accept (Inr 12) 2 (dpub_accept (Inr 11) 1
                (NewDatagramPub None ([] :: ((unit, nat) socket \<Rightarrow> (unit, nat) socket) list))) in
      \<lparr>pr_sock = handlePeer_leave 1 s, pr_accepted = [1, 2],
       pr_handler = (\<lambda>_. NoHandler)(1 := Opening, 2 := Opening, 1 := Ended), pr_send = None, pr_failed = {}\<rparr>)"

theorem dpub_peers_exact_witness:
  "dpub_runs demo_two_peers \<and> peerList (pr_sock demo_two_peers) = [2]"
proof -
  let ?n = "NewDatagramPub None ([] :: ((unit, nat) socket \<Rightarrow> (unit, nat) socket) list)"
  let ?s1 = "dpub_accept (Inr 11) 1 ?n" and ?h1 = "(\<lambda>_. NoHandler)(1 := Opening)"
  let ?s2 = "dpub_accept (Inr 12) 2 ?s1" and ?h2 = "(\<lambda>_. NoHandler)(1 := Opening, 2 := Opening)"
  let ?y = "\<lambda>s a h. \<lparr>pr_sock = s, pr_accepted = a, pr_handler = h, pr_send = None, pr_failed = {}\<rparr>"
  have y0: "dpub_runs (?y ?n [] (\<lambda>_. NoHandler))" by (rule dpub_runs.fresh)
  have y1: "dpub_runs (?y ?s1 [1] ?h1)" using dpub_runs.steps [OF y0 dpub_step.accepts [of 1 _ 11]] by simp
  have y2: "dpub_runs (?y ?s2 [1, 2] ?h2)" using dpub_runs.steps [OF y1 dpub_step.accepts [of 2 _ 12]] by simp
  have o: "pr_handler (?y ?s2 [1, 2] ?h2) 1 = Opening"
      "handlePeer_start (Inl EOF) 1 (pr_sock (?y ?s2 [1, 2] ?h2)) = (None, handlePeer_leave 1 ?s2)"
    by (simp_all add: handlePeer_start_def)
  have y3: "dpub_runs demo_two_peers"
    using dpub_runs.steps [OF y2 dpub_step.opens [OF o]] by (simp add: demo_two_peers_def)
  have "remaining demo_two_peers = [2]" by (simp add: demo_two_peers_def remaining_def)
  with dpub_peers_exact [OF y3] y3 show ?thesis by simp
qed

end
