(* ===== verification/Reading.thy ===== *)
theory Reading
  imports Lifecycle
begin

text \<open>
  The goroutines of a queued reader, step by step. Each reads a message, looks at the context, and
  then waits until the queue takes the message; between these steps anything may happen: other
  goroutines, \<^verbatim>\<open>Recv\<close>, connections that come and go, \<^verbatim>\<open>Close\<close>. The state carries the history of
  what was read, queued and received. The last section is the reader of a PUB socket, whose queue
  nobody empties.
\<close>

section \<open>The steps of the goroutines\<close>

text \<open>Where a goroutine is in its loop: about to read, behind \<^verbatim>\<open>r.read()\<close>, and at \<^verbatim>\<open>q.c <- msg\<close>.\<close>

datatype stage = Idle | HasRead msg | Pushing msg

record reading =
  rg_q :: qreader
  rg_st :: store
  rg_ctx :: ctx
  rg_stage :: "conn_id \<Rightarrow> stage"
  rg_used :: "conn_id set"
  rg_read :: "(conn_id \<times> msg) list"
  rg_pushed :: "(conn_id \<times> msg) list"
  rg_got :: "msg list"

text \<open>The three steps of one round; the second is the \<^verbatim>\<open>select\<close> on the context.\<close>

definition reading_read :: "conn_id \<Rightarrow> reading \<Rightarrow> reading" where
  "reading_read r y =
     (case st_read r (rg_st y) of (m, st) \<Rightarrow>
        y\<lparr>rg_st := st, rg_stage := (rg_stage y)(r := HasRead m), rg_read := rg_read y @ [(r, m)]\<rparr>)"

definition reading_check :: "msg \<Rightarrow> conn_id \<Rightarrow> reading \<Rightarrow> reading" where
  "reading_check m r y =
     (if rg_ctx y \<noteq> None
      then (case qreader_leave r (rg_q y, rg_st y) of (q, st) \<Rightarrow>
              y\<lparr>rg_q := q, rg_st := st, rg_stage := (rg_stage y)(r := Idle)\<rparr>)
      else y\<lparr>rg_stage := (rg_stage y)(r := Pushing m)\<rparr>)"

definition reading_push :: "msg \<Rightarrow> conn_id \<Rightarrow> reading \<Rightarrow> reading blocking" where
  "reading_push m r y =
     (case qreader_push m r (rg_q y, rg_st y) of
        Returns (q, st) \<Rightarrow>
          Returns (y\<lparr>rg_q := q, rg_st := st, rg_stage := (rg_stage y)(r := Idle),
                     rg_pushed := rg_pushed y @ [(r, m)]\<rparr>)
      | Waits \<Rightarrow> Waits
      | Panics \<Rightarrow> Panics)"

definition reading_recv :: "nat \<Rightarrow> reading \<Rightarrow> ((go_error option \<times> msg) \<times> reading) blocking" where
  "reading_recv pick y =
     (case qreader_read pick (rg_ctx y) (rg_q y) of
        Returns (e, m, q) \<Rightarrow>
          Returns ((e, m), y\<lparr>rg_q := q, rg_got := rg_got y @ (if qc q = qc (rg_q y) then [] else [m])\<rparr>)
      | Waits \<Rightarrow> Waits
      | Panics \<Rightarrow> Panics)"

text \<open>What else happens to the connections: writes, closed flags, topics, but nobody else reads them.\<close>

definition unread :: "store \<Rightarrow> store \<Rightarrow> bool" where
  "unread st st' = (\<forall>i. rd (rw (cells st' i)) = rd (rw (cells st i)))"

inductive reading_step :: "reading \<Rightarrow> reading \<Rightarrow> bool" where
  connected: "r \<notin> rg_used y \<Longrightarrow>
     reading_step y (y\<lparr>rg_q := qreader_addConn r (rg_q y), rg_used := insert r (rg_used y)\<rparr>)"
| dropped: "reading_step y (y\<lparr>rg_q := qreader_rmConn r (rg_q y)\<rparr>)"
| reads: "r \<in> set (listeners (rg_q y)) \<Longrightarrow> rg_stage y r = Idle \<Longrightarrow> reading_step y (reading_read r y)"
| checks: "r \<in> set (listeners (rg_q y)) \<Longrightarrow> rg_stage y r = HasRead m \<Longrightarrow> reading_step y (reading_check m r y)"
| pushes: "r \<in> set (listeners (rg_q y)) \<Longrightarrow> rg_stage y r = Pushing m \<Longrightarrow> reading_push m r y = Returns z \<Longrightarrow>
     reading_step y z"
| receives: "reading_recv pick y = Returns (res, z) \<Longrightarrow> reading_step y z"
| elsewhere: "unread (rg_st y) st \<Longrightarrow> reading_step y (y\<lparr>rg_st := st\<rparr>)"
| cancelled: "rg_ctx y = None \<Longrightarrow> reading_step y (y\<lparr>rg_ctx := Some e\<rparr>)"

text \<open>From the reader as \<^verbatim>\<open>newQReader\<close> makes it; \<open>st0\<close> is what the connections will carry.\<close>

definition reading_start :: "store \<Rightarrow> reading" where
  "reading_start st =
     \<lparr>rg_q = newQReader, rg_st = st, rg_ctx = None, rg_stage = (\<lambda>_. Idle), rg_used = {},
      rg_read = [], rg_pushed = [], rg_got = []\<rparr>"

inductive reading_reach :: "store \<Rightarrow> reading \<Rightarrow> bool" for st0 :: store where
  started: "reading_reach st0 (reading_start st0)"
| moved: "reading_reach st0 y \<Longrightarrow> reading_step y z \<Longrightarrow> reading_reach st0 z"

text \<open>A round of the three steps with nothing between them is the round of \<^verbatim>\<open>listen\<close>.\<close>

lemma reading_round:
  "qreader_listen (rg_ctx y) r (rg_q y, rg_st y) =
    (let y1 = reading_read r y; m = fst (st_read r (rg_st y)); y2 = reading_check m r y1 in
     if rg_ctx y \<noteq> None then Returns (rg_q y2, rg_st y2)
     else case reading_push m r y2 of
         Returns y3 \<Rightarrow> Returns (rg_q y3, rg_st y3) | Waits \<Rightarrow> Waits | Panics \<Rightarrow> Panics)"
  by (auto simp: qreader_listen_halves reading_read_def reading_check_def reading_push_def Let_def
      split: prod.split blocking.split)

section \<open>What a number of reads gives\<close>

fun reads :: "nat \<Rightarrow> reader \<Rightarrow> msg list \<times> reader" where
  "reads 0 r = ([], r)"
| "reads (Suc n) r =
     (case read_loop [] r of (fs, e, r1) \<Rightarrow>
        (case reads n r1 of (ms, r2) \<Rightarrow> (empty_msg\<lparr>Frames := fs, msg_err := e\<rparr> # ms, r2)))"

lemma reads_snoc:
  "reads n r = (ms, r1) \<Longrightarrow> read_loop [] r1 = (fs, e, r2) \<Longrightarrow>
     reads (Suc n) r = (ms @ [empty_msg\<lparr>Frames := fs, msg_err := e\<rparr>], r2)"
proof (induction n arbitrary: r ms)
  case 0
  then show ?case by simp
next
  case (Suc n)
  obtain fs1 e1 r3 where l: "read_loop [] r = (fs1, e1, r3)" by (cases "read_loop [] r")
  obtain ms3 r4 where rs: "reads n r3 = (ms3, r4)" by (cases "reads n r3")
  from Suc.prems(1) l rs have "ms = empty_msg\<lparr>Frames := fs1, msg_err := e1\<rparr> # ms3" "r4 = r1" by auto
  with Suc.IH [of r3 ms3] Suc.prems(2) l rs show ?case by simp
qed

lemma reads_length: "length (fst (reads n r)) = n"
proof (induction n arbitrary: r)
  case 0
  then show ?case by simp
next
  case (Suc n)
  obtain fs e r1 ms r2 where "read_loop [] r = (fs, e, r1)" "reads n r1 = (ms, r2)"
    by (metis prod_cases3 surj_pair)
  with Suc [of r1] show ?case by simp
qed

lemma reads_wire:
  "list_all encodable fss \<Longrightarrow> content r = concat (map frames_wire fss) @ q \<Longrightarrow>
     take (length fss) (fst (reads n r)) = take n (map NewMsgFrom fss)"
proof (induction n arbitrary: fss r)
  case 0
  then show ?case by simp
next
  case (Suc n)
  show ?case
  proof (cases fss)
    case Nil
    then show ?thesis by simp
  next
    case (Cons fs fss')
    with Suc.prems have e: "encodable fs" "content r = frames_wire fs @ (concat (map frames_wire fss') @ q)"
      by simp_all
    from read_loop_frames_wire [OF e, of "[]"] obtain r1 where
      r1: "read_loop [] r = (fs, None, r1)" "content r1 = concat (map frames_wire fss') @ q" by auto
    obtain ms r2 where "reads n r1 = (ms, r2)" by (cases "reads n r1")
    with Suc.IH [of fss' r1] r1 Suc.prems(1) Cons show ?thesis by (simp add: NewMsgFrom_upd)
  qed
qed

lemma st_read_reads:
  assumes "st_read r st = (m, st')" and "reads n r0 = (ms, rd (rw (cells st r)))"
  shows "reads (Suc n) r0 = (ms @ [m], rd (rw (cells st' r)))"
proof -
  obtain fs e r2 where l: "read_loop [] (rd (rw (cells st r))) = (fs, e, r2)"
    by (cases "read_loop [] (rd (rw (cells st r)))")
  with assms(1) have "m = empty_msg\<lparr>Frames := fs, msg_err := e\<rparr>" "rd (rw (cells st' r)) = r2"
    by (auto simp: st_read_def on_cell_def conn_read_set_rd checkIO_def SetClosed_def
        split: prod.splits option.splits if_splits)
  with reads_snoc [OF assms(2) l] show ?thesis by simp
qed

section \<open>The invariant\<close>

definition from_conn :: "conn_id \<Rightarrow> (conn_id \<times> msg) list \<Rightarrow> msg list" where
  "from_conn r xs = map snd (filter (\<lambda>p. fst p = r) xs)"

lemma from_conn_simps [simp]:
  "from_conn r [] = []" "from_conn r (xs @ ys) = from_conn r xs @ from_conn r ys"
  "from_conn r [(c, m)] = (if c = r then [m] else [])"
  by (simp_all add: from_conn_def)

text \<open>The message a goroutine holds.\<close>

definition in_hand :: "stage \<Rightarrow> msg list" where
  "in_hand g = (case g of Idle \<Rightarrow> [] | HasRead m \<Rightarrow> [m] | Pushing m \<Rightarrow> [m])"

lemma in_hand_simps [simp]: "in_hand Idle = []" "in_hand (HasRead m) = [m]" "in_hand (Pushing m) = [m]"
  by (simp_all add: in_hand_def)

text \<open>
  Of one connection: what was read is what its reader gives, and all of it was queued or is in the
  goroutine's hand, unless the goroutine ended with it on a done context; while the context is live
  a goroutine ends with an error only, which it has queued last.
\<close>

definition conn_state :: "bool \<Rightarrow> bool \<Rightarrow> bool \<Rightarrow> stage \<Rightarrow> msg list \<Rightarrow> msg list \<Rightarrow> reader \<Rightarrow> reader \<Rightarrow> bool" where
  "conn_state live used listening g rds pushed r0 r1 =
     ((\<not> listening \<longrightarrow> g = Idle) \<and> (\<not> used \<longrightarrow> rds = []) \<and>
      (\<exists>lost. rds = pushed @ in_hand g @ lost \<and> (lost \<noteq> [] \<longrightarrow> \<not> listening \<and> \<not> live)) \<and>
      reads (length rds) r0 = (rds, r1) \<and>
      (live \<and> used \<and> \<not> listening \<longrightarrow> pushed \<noteq> [] \<and> msg_err (last pushed) \<noteq> None))"

definition conn_inv :: "store \<Rightarrow> reading \<Rightarrow> conn_id \<Rightarrow> bool" where
  "conn_inv st0 y r =
     conn_state (rg_ctx y = None) (r \<in> rg_used y) (r \<in> set (listeners (rg_q y))) (rg_stage y r)
       (from_conn r (rg_read y)) (from_conn r (rg_pushed y)) (rd (rw (cells st0 r))) (rd (rw (cells (rg_st y) r)))"

lemma conn_state_add: "conn_state live False False g rds pu r0 r1 \<Longrightarrow> conn_state live True True g rds pu r0 r1"
  by (auto simp: conn_state_def)

lemma conn_state_read:
  "conn_state live u True Idle rds pu r0 r1 \<Longrightarrow> reads (Suc (length rds)) r0 = (rds @ [m], r2) \<Longrightarrow>
     conn_state live True True (HasRead m) (rds @ [m]) pu r0 r2"
  by (auto simp: conn_state_def simp del: reads.simps)

lemma conn_state_check:
  "conn_state live u True (HasRead m) rds pu r0 r1 \<Longrightarrow> conn_state live u True (Pushing m) rds pu r0 r1"
  by (auto simp: conn_state_def simp del: reads.simps)

lemma conn_state_leave:
  "conn_state False u True (HasRead m) rds pu r0 r1 \<Longrightarrow> conn_state False u False Idle rds pu r0 r1"
  by (auto simp: conn_state_def simp del: reads.simps)

lemma conn_state_push:
  "conn_state live u True (Pushing m) rds pu r0 r1 \<Longrightarrow>
     conn_state live u (msg_err m = None) Idle rds (pu @ [m]) r0 r1"
  by (auto simp: conn_state_def simp del: reads.simps)

lemma conn_state_dead: "conn_state live u l g rds pu r0 r1 \<Longrightarrow> conn_state False u l g rds pu r0 r1"
  by (auto simp: conn_state_def)

lemma conn_state_all:
  "conn_state live u True g rds pu r0 r1 \<Longrightarrow> rds = pu @ in_hand g"
  "conn_state True u l g rds pu r0 r1 \<Longrightarrow> rds = pu @ in_hand g"
  by (auto simp: conn_state_def)

definition queue_inv :: "reading \<Rightarrow> bool" where
  "queue_inv y =
     (map snd (rg_pushed y) = rg_got y @ buf (qc (rg_q y)) \<and> length (buf (qc (rg_q y))) \<le> 10 \<and>
      cap (qc (rg_q y)) = 10 \<and> \<not> chan_closed (qc (rg_q y)) \<and>
      distinct (listeners (rg_q y)) \<and> set (listeners (rg_q y)) \<subseteq> rg_used y \<and> buf (qsem (rg_q y)) = [] \<and>
      (listeners (rg_q y) \<noteq> [] \<longrightarrow> chan_recv (qsem (rg_q y)) = ChanClosed))"

lemma reading_start_inv: "queue_inv (reading_start st0)" "conn_inv st0 (reading_start st0) r"
  by (simp_all add: queue_inv_def conn_inv_def conn_state_def reading_start_def newQReader_def make_chan_def
      newSemaphore_def)

lemma qreader_leave_frame:
  assumes "qreader_leave r (q, st) = (q', st')"
  shows "qc q' = qc q" "qsem q' = qsem q" "listeners q' = remove1 r (listeners q)" "unread st st'"
  using assms
  by (auto simp: qreader_leave_def qreader_rmConn_def rm_from_remove1 unread_def st_Close_def on_cell_def Close_def
      split: prod.splits)

lemma qreader_push_frame:
  assumes "qreader_push m r (q, st) = Returns (q', st')"
  shows "buf (qc q') = buf (qc q) @ [m]" "cap (qc q') = cap (qc q)" "\<not> chan_closed (qc q')"
    "length (buf (qc q)) < cap (qc q)" "qsem q' = qsem q" "unread st st'"
    "listeners q' = (if msg_err m \<noteq> None then remove1 r (listeners q) else listeners q)"
  using assms
  by (auto simp: qreader_push_def chan_send_def unread_def Let_def dest: qreader_leave_frame
      split: send_result.splits if_splits)

lemma sem_enable_closed: "buf sem = [] \<Longrightarrow> chan_recv (sem_enable sem) = ChanClosed \<and> buf (sem_enable sem) = []"
  by (auto simp: sem_enable_def chan_recv_def chan_close_def split: list.splits)

lemma qreader_read_frame:
  assumes "qreader_read pick c q = Returns (e, m, q')"
  shows "(\<exists>k. c = Some k \<and> q' = q) \<or>
    (buf (qc q) = m # buf (qc q') \<and> e = msg_err m \<and> cap (qc q') = cap (qc q) \<and>
     chan_closed (qc q') = chan_closed (qc q) \<and> listeners q' = listeners q \<and> qsem q' = qsem q)"
  using assms
  by (auto simp: qreader_read_def case_done_def case_recv_def chan_recv_def dest!: go_select_Returns
      split: if_splits option.splits recv_result.splits list.splits)

lemma reading_step_queue: "reading_step y z \<Longrightarrow> queue_inv y \<Longrightarrow> queue_inv z"
proof (induction rule: reading_step.induct)
  case (connected r y)
  then show ?case using sem_enable_closed [of "qsem (rg_q y)"] by (auto simp: queue_inv_def qreader_addConn_def)
next
  case (dropped y r)
  then show ?case by (simp add: queue_inv_def qreader_rmConn_def)
next
  case (reads r y)
  then show ?case by (simp add: queue_inv_def reading_read_def split: prod.split)
next
  case (checks r y m)
  obtain q st where "qreader_leave r (rg_q y, rg_st y) = (q, st)" by (cases "qreader_leave r (rg_q y, rg_st y)")
  with checks qreader_leave_frame [OF this] show ?case
    by (auto simp: queue_inv_def reading_check_def dest: in_set_remove1 notin_set_remove1)
next
  case (pushes r y m z)
  then obtain q st where p: "qreader_push m r (rg_q y, rg_st y) = Returns (q, st)"
      "z = y\<lparr>rg_q := q, rg_st := st, rg_stage := (rg_stage y)(r := Idle), rg_pushed := rg_pushed y @ [(r, m)]\<rparr>"
    by (auto simp: reading_push_def split: blocking.splits)
  with pushes qreader_push_frame [OF p(1)] show ?case
    by (auto simp: queue_inv_def dest: notin_set_remove1 split: if_splits)
next
  case (receives pick y res z)
  then obtain e m q where p: "qreader_read pick (rg_ctx y) (rg_q y) = Returns (e, m, q)"
      "z = y\<lparr>rg_q := q, rg_got := rg_got y @ (if qc q = qc (rg_q y) then [] else [m])\<rparr>"
    by (auto simp: reading_recv_def split: blocking.splits)
  from qreader_read_frame [OF p(1)] receives(2) show ?case
  proof (elim disjE exE conjE)
    assume "q = rg_q y"
    with p(2) receives(2) show ?case by (simp add: queue_inv_def)
  next
    assume b: "buf (qc (rg_q y)) = m # buf (qc q)" and f: "cap (qc q) = cap (qc (rg_q y))"
      "chan_closed (qc q) = chan_closed (qc (rg_q y))" "listeners q = listeners (rg_q y)" "qsem q = qsem (rg_q y)"
    from b have "qc q \<noteq> qc (rg_q y)" by auto
    with b f p(2) receives(2) show ?case by (simp add: queue_inv_def)
  qed
next
  case (elsewhere y st)
  then show ?case by (simp add: queue_inv_def)
next
  case (cancelled y e)
  then show ?case by (simp add: queue_inv_def)
qed

text \<open>A step that leaves the goroutine and the history of a connection alone.\<close>

lemma conn_inv_same:
  assumes "conn_inv st0 y r" and "rg_stage z r = rg_stage y r" and "from_conn r (rg_read z) = from_conn r (rg_read y)"
    and "from_conn r (rg_pushed z) = from_conn r (rg_pushed y)"
    and "r \<in> set (listeners (rg_q z)) \<longleftrightarrow> r \<in> set (listeners (rg_q y))" and "r \<in> rg_used z \<longleftrightarrow> r \<in> rg_used y"
    and "rg_ctx y \<noteq> None \<longrightarrow> rg_ctx z \<noteq> None" and "rd (rw (cells (rg_st z) r)) = rd (rw (cells (rg_st y) r))"
  shows "conn_inv st0 z r"
proof (cases "rg_ctx z = None")
  case True
  with assms show ?thesis by (simp add: conn_inv_def)
next
  case False
  with assms conn_state_dead show ?thesis by (fastforce simp: conn_inv_def)
qed

lemma reading_step_conn: "reading_step y z \<Longrightarrow> queue_inv y \<Longrightarrow> conn_inv st0 y c \<Longrightarrow> conn_inv st0 z c"
proof (induction rule: reading_step.induct)
  case (connected r y)
  show ?case
  proof (cases "c = r")
    case True
    from connected have "r \<notin> set (listeners (rg_q y))" by (auto simp: queue_inv_def)
    with connected True show ?thesis by (simp add: conn_inv_def qreader_addConn_def conn_state_add)
  next
    case False
    then show ?thesis by (intro conn_inv_same [OF connected(3)]) (auto simp: qreader_addConn_def)
  qed
next
  case (dropped y r)
  then show ?case by (intro conn_inv_same [OF dropped(2)]) (auto simp: qreader_rmConn_def)
next
  case (reads r y)
  obtain m st where m: "st_read r (rg_st y) = (m, st)" by (cases "st_read r (rg_st y)")
  show ?case
  proof (cases "c = r")
    case True
    from reads(4) True have "reads (length (from_conn r (rg_read y))) (rd (rw (cells st0 r))) =
        (from_conn r (rg_read y), rd (rw (cells (rg_st y) r)))"
      by (simp add: conn_inv_def conn_state_def)
    from st_read_reads [OF m this] reads True m show ?thesis
      by (auto simp: conn_inv_def reading_read_def queue_inv_def conn_state_read)
  next
    case False
    have "cells st c = cells (rg_st y) c" using on_cell_other [OF m [unfolded st_read_def]] False by simp
    with False m show ?thesis
      by (intro conn_inv_same [OF reads(4)]) (auto simp: reading_read_def)
  qed
next
  case (checks r y m)
  obtain q st where l: "qreader_leave r (rg_q y, rg_st y) = (q, st)" by (cases "qreader_leave r (rg_q y, rg_st y)")
  note f = qreader_leave_frame [OF l]
  show ?case
  proof (cases "rg_ctx y = None")
    case True
    with checks show ?thesis by (cases "c = r") (simp_all add: conn_inv_def reading_check_def conn_state_check)
  next
    case False
    then have z: "reading_check m r y = y\<lparr>rg_q := q, rg_st := st, rg_stage := (rg_stage y)(r := Idle)\<rparr>"
      using l by (simp add: reading_check_def)
    from checks(3) f(3) have ls: "set (listeners q) = set (listeners (rg_q y)) - {r}" by (simp add: queue_inv_def)
    show ?thesis
    proof (cases "c = r")
      case True
      from checks(1,2,4) False True have
        "conn_state False (r \<in> rg_used y) True (HasRead m) (from_conn r (rg_read y))
           (from_conn r (rg_pushed y)) (rd (rw (cells st0 r))) (rd (rw (cells (rg_st y) r)))"
        by (simp add: conn_inv_def)
      from conn_state_leave [OF this] f(4) ls False True show ?thesis
        unfolding z by (auto simp: conn_inv_def unread_def)
    next
      case other: False
      with f(4) ls show ?thesis
        unfolding z by (intro conn_inv_same [OF checks(4)]) (auto simp: unread_def)
    qed
  qed
next
  case (pushes r y m z)
  then obtain q st where p: "qreader_push m r (rg_q y, rg_st y) = Returns (q, st)"
      "z = y\<lparr>rg_q := q, rg_st := st, rg_stage := (rg_stage y)(r := Idle), rg_pushed := rg_pushed y @ [(r, m)]\<rparr>"
    by (auto simp: reading_push_def split: blocking.splits)
  note f = qreader_push_frame [OF p(1)]
  from pushes(4) f(7) have ls: "set (listeners q) = (if msg_err m \<noteq> None then set (listeners (rg_q y)) - {r} else set (listeners (rg_q y)))"
    by (simp add: queue_inv_def)
  show ?case
  proof (cases "c = r")
    case True
    from ls pushes(1) have mem: "r \<in> set (listeners q) \<longleftrightarrow> msg_err m = None" by simp
    from pushes(1,2,5) True have
      "conn_state (rg_ctx y = None) (r \<in> rg_used y) True (Pushing m) (from_conn r (rg_read y))
         (from_conn r (rg_pushed y)) (rd (rw (cells st0 r))) (rd (rw (cells (rg_st y) r)))"
      by (simp add: conn_inv_def)
    from conn_state_push [OF this] f(6) mem p(2) True show ?thesis by (simp add: conn_inv_def unread_def)
  next
    case False
    with f(6) ls p(2) show ?thesis
      by (intro conn_inv_same [OF pushes(5)]) (auto simp: unread_def)
  qed
next
  case (receives pick y res z)
  then obtain e m q where p: "qreader_read pick (rg_ctx y) (rg_q y) = Returns (e, m, q)"
      "z = y\<lparr>rg_q := q, rg_got := rg_got y @ (if qc q = qc (rg_q y) then [] else [m])\<rparr>"
    by (auto simp: reading_recv_def split: blocking.splits)
  then have "listeners q = listeners (rg_q y)" using qreader_read_frame [OF p(1)] by auto
  with p(2) show ?case by (intro conn_inv_same [OF receives(3)]) auto
next
  case (elsewhere y st)
  then show ?case by (simp add: conn_inv_def unread_def)
next
  case (cancelled y e)
  then show ?case by (intro conn_inv_same [OF cancelled(3)]) auto
qed

lemma reading_reach_inv: "reading_reach st0 y \<Longrightarrow> queue_inv y \<and> (\<forall>r. conn_inv st0 y r)"
proof (induction rule: reading_reach.induct)
  case started
  then show ?case by (simp add: reading_start_inv)
next
  case (moved y z)
  then show ?case using reading_step_queue reading_step_conn by blast
qed

text \<open>Connection 1 carries one message; its goroutine has read it and waits for the queue.\<close>

definition demo_carrying :: store where
  "demo_carrying = fresh_store\<lparr>cells := (\<lambda>_. new_conn (bytes_NewReader (frames_wire [[7]])) \<lparr>wr_script = [], written = []\<rparr>)\<rparr>"

lemma demo_carrying_inp: "inp (cells demo_carrying r) = concat (map frames_wire [[[7]]]) @ []"
  by (simp add: demo_carrying_def new_conn_def)

definition demo_pushing :: reading where
  "demo_pushing = reading_check (NewMsgFrom [[7]]) 1 (reading_read 1
     ((reading_start demo_carrying)\<lparr>rg_q := qreader_addConn 1 newQReader, rg_used := {1}\<rparr>))"

lemma demo_pushing_reach:
  "reading_reach demo_carrying demo_pushing" "rg_ctx demo_pushing = None"
  "rg_stage demo_pushing 1 = Pushing (NewMsgFrom [[7]])" "rg_pushed demo_pushing = []"
  "rg_q demo_pushing = qreader_addConn 1 newQReader" "rg_got demo_pushing = []"
proof -
  let ?y1 = "(reading_start demo_carrying)\<lparr>rg_q := qreader_addConn 1 newQReader, rg_used := {1}\<rparr>"
  have "reading_step (reading_start demo_carrying)
      ((reading_start demo_carrying)\<lparr>rg_q := qreader_addConn 1 (rg_q (reading_start demo_carrying)),
         rg_used := insert 1 (rg_used (reading_start demo_carrying))\<rparr>)"
    by (rule reading_step.connected) (simp add: reading_start_def)
  then have y1: "reading_reach demo_carrying ?y1"
    using reading_reach.moved [OF reading_reach.started] by (simp add: reading_start_def)
  have "encodable [[7]]" by (simp add: encodable_def)
  from conn_read_wire [OF this, of "cells demo_carrying 1" "[]"] obtain rd1 where
    "conn_read (cells demo_carrying 1) = (NewMsgFrom [[7]], set_rd rd1 (cells demo_carrying 1), False)"
    using demo_carrying_inp [of 1] by auto
  then obtain st where st: "st_read 1 demo_carrying = (NewMsgFrom [[7]], st)"
    by (simp add: st_read_def on_cell_def)
  have on: "1 \<in> set (listeners (rg_q ?y1))" "rg_stage ?y1 1 = Idle"
    by (simp_all add: qreader_addConn_def reading_start_def)
  have y2: "reading_reach demo_carrying (reading_read 1 ?y1)"
    by (rule reading_reach.moved [OF y1 reading_step.reads [OF on]])
  have on2: "1 \<in> set (listeners (rg_q (reading_read 1 ?y1)))" "rg_stage (reading_read 1 ?y1) 1 = HasRead (NewMsgFrom [[7]])"
    using st by (simp_all add: reading_read_def reading_start_def qreader_addConn_def)
  show "reading_reach demo_carrying demo_pushing"
    unfolding demo_pushing_def by (rule reading_reach.moved [OF y2 reading_step.checks [OF on2]])
  show "rg_ctx demo_pushing = None" "rg_stage demo_pushing 1 = Pushing (NewMsgFrom [[7]])" "rg_pushed demo_pushing = []"
    "rg_q demo_pushing = qreader_addConn 1 newQReader" "rg_got demo_pushing = []"
    using st by (simp_all add: demo_pushing_def reading_check_def reading_read_def reading_start_def)
qed

section \<open>Properties of the queued reader\<close>

text \<open>
  C5: In any interleaving of the goroutines of a queued reader with \<^verbatim>\<open>Recv\<close>, with connections that
  come and go and with \<^verbatim>\<open>Close\<close>: what \<^verbatim>\<open>Recv\<close> returned and what is queued is what the goroutines
  queued, in that order, and at most ten messages wait. Of each connection, what was queued is what
  was read from it, in order, once and without a gap, up to the message its goroutine holds while
  the socket is open; and what was read is what the peer wrote, as far as that is well-formed.
\<close>

theorem received_in_order:
  assumes "reading_reach st0 y" and "list_all encodable fss"
    and "inp (cells st0 r) = concat (map frames_wire fss) @ rest"
  shows "map snd (rg_pushed y) = rg_got y @ buf (qc (rg_q y)) \<and> length (buf (qc (rg_q y))) \<le> 10 \<and>
    prefix (from_conn r (rg_pushed y)) (from_conn r (rg_read y)) \<and>
    (rg_ctx y = None \<longrightarrow> from_conn r (rg_read y) = from_conn r (rg_pushed y) @ in_hand (rg_stage y r)) \<and>
    take (length fss) (from_conn r (rg_read y)) = take (length (from_conn r (rg_read y))) (map NewMsgFrom fss)"
proof -
  from reading_reach_inv [OF assms(1)] have q: "queue_inv y" and c: "conn_inv st0 y r" by simp_all
  from c have reads: "fst (reads (length (from_conn r (rg_read y))) (rd (rw (cells st0 r)))) = from_conn r (rg_read y)"
    and pre: "prefix (from_conn r (rg_pushed y)) (from_conn r (rg_read y))"
    by (auto simp: conn_inv_def conn_state_def)
  moreover have "rg_ctx y = None \<longrightarrow> from_conn r (rg_read y) = from_conn r (rg_pushed y) @ in_hand (rg_stage y r)"
    using c conn_state_all(2) by (auto simp: conn_inv_def)
  moreover have "take (length fss) (from_conn r (rg_read y)) = take (length (from_conn r (rg_read y))) (map NewMsgFrom fss)"
    using reads_wire [OF assms(2,3), of "length (from_conn r (rg_read y))"] reads by simp
  ultimately show ?thesis using q by (simp add: queue_inv_def)
qed

theorem received_in_order_witness:
  "\<exists>y. reading_reach demo_carrying y \<and> rg_got y @ buf (qc (rg_q y)) = [NewMsgFrom [[7]]] \<and>
     from_conn 1 (rg_read y) = [NewMsgFrom [[7]]]"
proof -
  note d = demo_pushing_reach
  have on: "1 \<in> set (listeners (rg_q demo_pushing))" by (simp add: d qreader_addConn_def)
  obtain z where z: "reading_push (NewMsgFrom [[7]]) 1 demo_pushing = Returns z" "rg_ctx z = None"
      "rg_pushed z = [(1, NewMsgFrom [[7]])]" "rg_stage z 1 = Idle"
    using d(2,4,5) by (simp add: reading_push_def qreader_push_def chan_send_def qreader_addConn_def newQReader_def
        make_chan_def NewMsgFrom_def empty_msg_def)
  have reach: "reading_reach demo_carrying z"
    by (rule reading_reach.moved [OF d(1) reading_step.pushes [OF on d(3) z(1)]])
  have "list_all encodable [[[7]]]" by (simp add: encodable_def)
  from received_in_order [OF reach this demo_carrying_inp, of 1] z(2-4) reach show ?thesis by auto
qed



section \<open>The queue of a PUB socket\<close>

text \<open>A message that is no command goes to the queue, and leaves the topics alone.\<close>

lemma listen_data:
  assumes "encodable fs" and "\<not> isTopic (NewMsgFrom fs)" and "inp (cells st r) = frames_wire fs @ rest"
    and "\<not> chan_closed (pq_c q)"
  shows "\<exists>st1. inp (cells st1 r) = rest \<and> topics (cells st1 r) = topics (cells st r) \<and>
    pubQReader_listen None r (q, st) =
      (if length (buf (pq_c q)) < cap (pq_c q)
       then Returns (q\<lparr>pq_c := (pq_c q)\<lparr>buf := buf (pq_c q) @ [NewMsgFrom fs]\<rparr>\<rparr>, st1) else Waits)"
proof -
  from conn_read_wire [OF assms(1,3)] obtain r1 where
    r1: "conn_read (cells st r) = (NewMsgFrom fs, set_rd r1 (cells st r), False)" "content r1 = rest" by blast
  then obtain st1 where st1: "st_read r st = (NewMsgFrom fs, st1)" "cells st1 r = set_rd r1 (cells st r)"
    by (simp add: st_read_def on_cell_def)
  have "msg_err (NewMsgFrom fs) = None" by (simp add: NewMsgFrom_def empty_msg_def)
  with st1 r1(2) assms(2,4) show ?thesis by (intro exI [of _ st1]) (simp add: pubQReader_listen_def chan_send_def)
qed

lemma listen_n_data:
  "list_all encodable fss \<Longrightarrow> list_all (\<lambda>fs. \<not> isTopic (NewMsgFrom fs)) fss \<Longrightarrow>
   inp (cells st r) = concat (map frames_wire fss) @ rest \<Longrightarrow> \<not> chan_closed (pq_c q) \<Longrightarrow>
   length (buf (pq_c q)) + length fss \<le> cap (pq_c q) \<Longrightarrow>
     \<exists>st'. listen_n (length fss) r (q, st) =
         Returns (q\<lparr>pq_c := (pq_c q)\<lparr>buf := buf (pq_c q) @ map NewMsgFrom fss\<rparr>\<rparr>, st') \<and>
       inp (cells st' r) = rest \<and> topics (cells st' r) = topics (cells st r)"
proof (induction fss arbitrary: q st)
  case Nil
  then show ?case by simp
next
  case (Cons fs fss)
  let ?q = "q\<lparr>pq_c := (pq_c q)\<lparr>buf := buf (pq_c q) @ [NewMsgFrom fs]\<rparr>\<rparr>"
  from Cons.prems(3) have "inp (cells st r) = frames_wire fs @ (concat (map frames_wire fss) @ rest)" by simp
  from listen_data [OF _ _ this Cons.prems(4)] Cons.prems(1,2,5) obtain st1 where
    st1: "pubQReader_listen None r (q, st) = Returns (?q, st1)" "topics (cells st1 r) = topics (cells st r)"
      "inp (cells st1 r) = concat (map frames_wire fss) @ rest" by auto
  from Cons.IH [of st1 ?q] Cons.prems st1 show ?case by auto
qed

text \<open>
  C16: The queue of a PUB socket fills up for good. \<^verbatim>\<open>Recv\<close> of a PUB socket takes nothing from it, so
  after ten messages that are no commands, say from a subscriber that calls \<^verbatim>\<open>Send\<close>, the goroutine
  that reads the next one waits; so does that of any other connection that reads one. Sending,
  setting options and \<^verbatim>\<open>Close\<close> leave the queue as it is, and the commands behind are never read.
\<close>

theorem pub_reader_jams:
  assumes "pq_c (pub_r (pools s)) = make_chan 10" and "length fss = 10"
    and "list_all encodable (fss @ [fs, gs])" and "list_all (\<lambda>fs. \<not> isTopic (NewMsgFrom fs)) (fss @ [fs, gs])"
    and "inp (cells st r) = concat (map frames_wire fss) @ frames_wire fs @ commands"
  shows "\<exists>q st'. listen_n 10 r (pub_r (pools s), st) = Returns (q, st') \<and>
    topics (cells st' r) = topics (cells st r) \<and> pubQReader_listen None r (q, st') = Waits \<and>
    (inp (cells st' r') = frames_wire gs @ rest \<longrightarrow> pubQReader_listen None r' (q, st') = Waits) \<and>
    (let t = s\<lparr>pools := (pools s)\<lparr>pub_r := q, pub_st := st'\<rparr>\<rparr> in
      (\<forall>e t'. pub_Send env m t = Some (e, t') \<longrightarrow> pub_r (pools t') = q) \<and>
      pub_r (pools (snd (pub_SetOption name v t))) = q \<and> pub_r (pools (snd (socket_Close pub_ops t))) = q)"
proof -
  let ?old = "pub_r (pools s)"
  let ?new = "?old\<lparr>pq_c := (pq_c ?old)\<lparr>buf := map NewMsgFrom fss\<rparr>\<rparr>"
  have ch: "buf (pq_c ?old) = []" "cap (pq_c ?old) = 10" "\<not> chan_closed (pq_c ?old)"
    using assms(1) by (simp_all add: make_chan_def)
  have room: "length (buf (pq_c ?old)) + length fss \<le> cap (pq_c ?old)"
    using ch(1,2) assms(2) by simp
  have "list_all encodable fss" "list_all (\<lambda>fs. \<not> isTopic (NewMsgFrom fs)) fss" using assms(3,4) by simp_all
  from listen_n_data [OF this assms(5) ch(3) room, unfolded ch(1) append_Nil assms(2)] obtain st' where
    st': "listen_n 10 r (?old, st) = Returns (?new, st')" "inp (cells st' r) = frames_wire fs @ commands"
      "topics (cells st' r) = topics (cells st r)"
    by blast
  have full: "\<not> chan_closed (pq_c ?new)" "\<not> length (buf (pq_c ?new)) < cap (pq_c ?new)"
    using ch(3) by (simp_all add: ch(2) assms(2))
  from listen_data [OF _ _ st'(2) full(1)] assms(3,4) full(2) have "pubQReader_listen None r (?new, st') = Waits" by auto
  moreover have "pubQReader_listen None r' (?new, st') = Waits" if "inp (cells st' r') = frames_wire gs @ rest"
    using listen_data [OF _ _ that full(1)] assms(3,4) full(2) by auto
  moreover have "pub_r (pools t') = q" if "pub_Send env m (s\<lparr>pools := (pools s)\<lparr>pub_r := q, pub_st := st'\<rparr>\<rparr>) = Some (e, t')" for q e t'
    using that by (auto simp: pub_Send_def split: option.splits prod.splits)
  moreover have "pub_r (pools (snd (pub_SetOption name v (s\<lparr>pools := (pools s)\<lparr>pub_r := q, pub_st := st'\<rparr>\<rparr>)))) = q" for q
    by (cases v) (auto simp: pub_SetOption_def socket_SetOption_def)
  moreover have "pub_r (pools (snd (socket_Close pub_ops (s\<lparr>pools := (pools s)\<lparr>pub_r := q, pub_st := st'\<rparr>\<rparr>)))) = q" for q
    by (simp add: socket_Close_def pub_ops_def Let_def split: prod.split)
  ultimately show ?thesis using st'(1,3) by (fastforce simp: Let_def)
qed

definition demo_data :: "bytes list list" where
  "demo_data = replicate 10 [[7]]"

definition demo_jammed :: store where
  "demo_jammed = fresh_store\<lparr>cells := (\<lambda>_. new_conn (bytes_NewReader
     (concat (map frames_wire demo_data) @ frames_wire [[7]] @ frames_wire (Frames (command 1 ''a''))))
     \<lparr>wr_script = [], written = []\<rparr>)\<rparr>"

theorem pub_reader_jams_witness:
  "\<exists>q st'. listen_n 10 1 (newPubQReader, demo_jammed) = Returns (q, st') \<and> topics (cells st' 1) = [] \<and>
     pubQReader_listen None 1 (q, st') = Waits"
proof -
  let ?s = "NewPub None [] fresh_store :: (pub_pools, nat) socket"
  have r: "pub_r (pools ?s) = newPubQReader"
    by (simp add: NewPub_def newSocket_def newDefaultSocket_def new_pub_pools_def Let_def)
  then have c: "pq_c (pub_r (pools ?s)) = make_chan 10" by (simp add: newPubQReader_def)
  have l: "length demo_data = 10" by (simp add: demo_data_def)
  have e: "list_all encodable (demo_data @ [[[7]], [[7]]])"
    by (simp add: demo_data_def list_all_iff encodable_def)
  have "\<not> isTopic (NewMsgFrom [[7]])" by (simp add: isTopic_iff NewMsgFrom_def)
  then have t: "list_all (\<lambda>fs. \<not> isTopic (NewMsgFrom fs)) (demo_data @ [[[7]], [[7]]])"
    by (simp add: demo_data_def list_all_iff)
  have i: "inp (cells demo_jammed 1) = concat (map frames_wire demo_data) @ frames_wire [[7]] @ frames_wire (Frames (command 1 ''a''))"
      "topics (cells demo_jammed 1) = []"
    by (simp_all add: demo_jammed_def new_conn_def)
  from pub_reader_jams [OF c l e t i(1), of 1 "[]" "\<lambda>_. (0, None)" empty_msg OptionHWM "AnyInt 1"] show ?thesis
    unfolding r i(2) by blast
qed

end
