(* ===== verification/Broadcast.thy ===== *)
theory Broadcast
  imports Reading
begin

text \<open>
  A publisher and a subscriber, each running in any interleaving of its goroutines, with the bytes
  of a connection between them. On the one side the queue of a subscriber, its goroutine and
  \<^verbatim>\<open>SendMsg\<close>, which may fail at any byte; on the other the goroutine that reads, the queue there and
  \<^verbatim>\<open>Recv\<close>. What arrives is a prefix of what was queued.
\<close>

section \<open>The publisher and the bytes it writes\<close>

text \<open>What else happens to connections: they are marked closed, read, closed, but not written.\<close>

definition unwritten :: "store \<Rightarrow> store \<Rightarrow> bool" where
  "unwritten st st' =
     (\<forall>c. out (cells st' c) = out (cells st c) \<and> closed (cells st' c) \<in> {0, 1} \<and>
        (Closed (cells st c) \<longrightarrow> Closed (cells st' c)))"

text \<open>
  The steps of a publisher where a connection joins once. \<open>ws_owner\<close> is the channel that a
  connection was given.
\<close>

record wire_sys =
  ws_pub :: pub_sys
  ws_owner :: "conn_id \<Rightarrow> nat option"

inductive wire_step :: "wire_sys \<Rightarrow> wire_sys \<Rightarrow> bool" where
  w_publish: "pubMWriter_write env m (pw s) (pst s) = Some (e, w) \<Longrightarrow> s = ws_pub y \<Longrightarrow>
     wire_step y (y\<lparr>ws_pub := s\<lparr>pw := w, plog := plog s @ [Published m (grown (pw s) w)]\<rparr>\<rparr>)"
| w_join: "pubMWriter_addConn c (pw s) = Some w \<Longrightarrow> s = ws_pub y \<Longrightarrow> ws_owner y c = None \<Longrightarrow>
     wire_step y (y\<lparr>ws_pub := s\<lparr>pw := w\<rparr>, ws_owner := (ws_owner y)(c := Some (length (chans (pw s))))\<rparr>)"
| w_leave: "pubMWriter_rmConn c (pw s, pst s) = Some (w, st) \<Longrightarrow> s = ws_pub y \<Longrightarrow>
     wire_step y (y\<lparr>ws_pub := s\<lparr>pw := w, pst := st\<rparr>\<rparr>)"
| w_hwm: "wire_step y (y\<lparr>ws_pub := (ws_pub y)\<lparr>pw := (pw (ws_pub y))\<lparr>hwm := n\<rparr>\<rparr>\<rparr>)"
| w_take: "j < length (drainers (pw s)) \<Longrightarrow> drain_recv j (pw s) = Returns w \<Longrightarrow> s = ws_pub y \<Longrightarrow>
     wire_step y (y\<lparr>ws_pub := s\<lparr>pw := w\<rparr>\<rparr>)"
| w_write: "j < length (drainers (pw s)) \<Longrightarrow> drain_send j (pw s, pst s) = Returns (w, st) \<Longrightarrow>
     dr_msg (drainers (pw s) ! j) = Some m \<Longrightarrow> s = ws_pub y \<Longrightarrow>
     wire_step y (y\<lparr>ws_pub := s\<lparr>pw := w, pst := st,
       plog := plog s @ [Written (dr_chan (drainers (pw s) ! j)) (dr_conn (drainers (pw s) ! j)) m]\<rparr>\<rparr>)"
| w_elsewhere: "unwritten (pst (ws_pub y)) st \<Longrightarrow> wire_step y (y\<lparr>ws_pub := (ws_pub y)\<lparr>pst := st\<rparr>\<rparr>)"

definition blank :: "store \<Rightarrow> bool" where
  "blank st = (\<forall>c. out (cells st c) = [] \<and> closed (cells st c) \<in> {0, 1})"

inductive wire_reach :: "wire_sys \<Rightarrow> bool" where
  w_start: "blank st \<Longrightarrow> wire_reach \<lparr>ws_pub = pub_init st, ws_owner = (\<lambda>_. None)\<rparr>"
| w_next: "wire_reach y \<Longrightarrow> wire_step y z \<Longrightarrow> wire_reach z"

section \<open>What has been written on a connection\<close>

definition written_to :: "conn_id \<Rightarrow> pub_event list \<Rightarrow> msg list" where
  "written_to c = List.map_filter (\<lambda>e. case e of Written _ b m \<Rightarrow> (if b = c then Some m else None) | _ \<Rightarrow> None)"

lemma written_to_simps [simp]:
  "written_to c [] = []" "written_to c (h @ h') = written_to c h @ written_to c h'"
  "written_to c [Published m qs] = []" "written_to c [Written b d m] = (if d = c then [m] else [])"
  by (simp_all add: written_to_def List.map_filter_def)

definition msgs_wire :: "msg list \<Rightarrow> bytes" where
  "msgs_wire ms = concat (map (\<lambda>m. frames_wire (Frames m)) ms)"

lemma msgs_wire_simps [simp]:
  "msgs_wire [] = []" "msgs_wire (m # ms) = frames_wire (Frames m) @ msgs_wire ms"
  "msgs_wire (ms @ ns) = msgs_wire ms @ msgs_wire ns"
  by (simp_all add: msgs_wire_def)

text \<open>A connection carries the messages in order; it may break off once it is marked closed.\<close>

definition carries :: "msg list \<Rightarrow> conn \<Rightarrow> bool" where
  "carries ms k =
     (closed k \<in> {0, 1} \<and> prefix (out k) (msgs_wire ms) \<and> (\<not> Closed k \<longrightarrow> out k = msgs_wire ms))"

lemma carries_SendMsg:
  assumes "SendMsg m k = (e, k', fired)" and "carries ms k"
  shows "carries (ms @ [m]) k'"
proof (cases "Closed k")
  case True
  with SendMsg_closed [OF True, of m] assms(1) have "k' = k" by simp
  with True assms(2) show ?thesis by (auto simp: carries_def intro: prefix_prefix)
next
  case False
  with assms(2) have k: "closed k = 0" "out k = msgs_wire ms" by (auto simp: carries_def Closed_def)
  show ?thesis
  proof (cases e)
    case None
    with SendMsg_ok [of m k k' fired] assms(1) k show ?thesis by (auto simp: carries_def)
  next
    case (Some e1)
    with SendMsg_fail [of m k e1 k' fired] assms(1) k show ?thesis by (auto simp: carries_def Closed_def)
  qed
qed

lemma carries_unwritten: "carries ms (cells st c) \<Longrightarrow> unwritten st st' \<Longrightarrow> carries ms (cells st' c)"
  by (auto simp: carries_def unwritten_def)

lemma unwritten_st_Close:
  assumes "st_Close i st = (e, st')" and "\<forall>c. closed (cells st c) \<in> {0, 1}"
  shows "unwritten st st'"
proof -
  have "out (cells st' c) = out (cells st c) \<and> closed (cells st' c) = closed (cells st c)" for c
    using assms(1) by (auto simp: st_Close_def on_cell_def Close_def)
  with assms(2) show ?thesis by (simp add: unwritten_def Closed_def)
qed

text \<open>Which connection a goroutine writes to, and from which channel.\<close>

definition ends :: "drainer list \<Rightarrow> (conn_id \<times> nat) set" where
  "ends ds = (\<lambda>d. (dr_conn d, dr_chan d)) ` set ds"

text \<open>The pairs of connection and channel that a publisher has, or had when it wrote.\<close>

definition writes :: "pub_event list \<Rightarrow> (conn_id \<times> nat) set" where
  "writes h = {(c, a). \<exists>m. Written a c m \<in> set h}"

lemma writes_simps [simp]:
  "writes [] = {}" "writes (h @ [Published m qs]) = writes h" "writes (h @ [Written a c m]) = insert (c, a) (writes h)"
  by (auto simp: writes_def)

definition pairs :: "pub_sys \<Rightarrow> (conn_id \<times> nat) set" where
  "pairs s = ends (drainers (pw s)) \<union> set (sub_list (pw s)) \<union> writes (plog s)"

definition owner_ok :: "(conn_id \<Rightarrow> nat option) \<Rightarrow> nat \<Rightarrow> bool" where
  "owner_ok owner n =
     ((\<forall>c a. owner c = Some a \<longrightarrow> a < n) \<and> (\<forall>c d a. owner c = Some a \<and> owner d = Some a \<longrightarrow> c = d))"

definition wire_inv :: "wire_sys \<Rightarrow> bool" where
  "wire_inv y =
     (pub_reach (ws_pub y) \<and>
      (\<forall>c. carries (written_to c (plog (ws_pub y))) (cells (pst (ws_pub y)) c)) \<and>
      owner_ok (ws_owner y) (length (chans (pw (ws_pub y)))) \<and>
      (\<forall>c a. (c, a) \<in> pairs (ws_pub y) \<longrightarrow> ws_owner y c = Some a))"

lemma written_from_owner:
  assumes "\<forall>c a. (c, a) \<in> writes h \<longrightarrow> owner c = Some a" and "owner c = Some a" and "owner_ok owner n"
  shows "written_to c h = written_from a h"
  using assms(1)
proof (induction h)
  case Nil
  then show ?case by simp
next
  case (Cons e h)
  have "written_to c [e] = written_from a [e]"
  proof (cases e)
    case (Published m qs)
    then show ?thesis by simp
  next
    case (Written b d m)
    with Cons.prems have "owner d = Some b" by (auto simp: writes_def)
    with assms(2,3) have "d = c \<longleftrightarrow> a = b" unfolding owner_ok_def by auto
    with Written show ?thesis by simp
  qed
  moreover from Cons have "written_to c h = written_from a h" by (auto simp: writes_def)
  ultimately show ?case using written_to_simps(2) [of c "[e]" h] log_filters(6) [of a "[e]" h] by simp
qed

lemma wire_invD:
  assumes "wire_inv y"
  shows "pub_wf (pw (ws_pub y))" "pub_inv (ws_pub y)" "\<forall>c. closed (cells (pst (ws_pub y)) c) \<in> {0, 1}"
proof -
  from assms have "pub_reach (ws_pub y)" by (simp add: wire_inv_def)
  from pub_reach_inv [OF this] show "pub_inv (ws_pub y)" "pub_wf (pw (ws_pub y))" by (simp_all add: pub_inv_def)
  from assms show "\<forall>c. closed (cells (pst (ws_pub y)) c) \<in> {0, 1}" by (simp add: wire_inv_def carries_def)
qed

lemma ends_update: "j < length ds \<Longrightarrow> ends (ds[j := (ds ! j)\<lparr>dr_msg := x\<rparr>]) \<subseteq> ends ds"
  using set_update_subset_insert [of ds j "(ds ! j)\<lparr>dr_msg := x\<rparr>"] nth_mem [of j ds]
  by (fastforce simp: ends_def)

lemma ends_remove: "ends (take j ds @ drop k ds) \<subseteq> ends ds"
  by (auto simp: ends_def dest: in_set_takeD in_set_dropD)

lemma drain_recv_conns:
  assumes "drain_recv j w = Returns w'" and "j < length (drainers w)"
  shows "ends (drainers w') \<subseteq> ends (drainers w)" "sub_list w' = sub_list w" "length (chans w') = length (chans w)"
  using assms
  by (auto simp: drain_recv_def Let_def sub_list_def split: if_splits recv_result.splits
      dest: ends_update [OF assms(2), THEN subsetD] ends_remove [THEN subsetD])

lemma drain_send_conns:
  assumes "drain_send j (w, st) = Returns (w', st')" and "j < length (drainers w)"
  shows "ends (drainers w') \<subseteq> ends (drainers w)" "sub_list w' = sub_list w" "chans w' = chans w"
    "\<exists>m e. dr_msg (drainers w ! j) = Some m \<and> st_SendMsg m (dr_conn (drainers w ! j)) st = (e, st')"
  using assms
  by (auto simp: drain_send_def Let_def sub_list_def split: option.splits prod.splits
      dest: ends_update [OF assms(2), THEN subsetD])

lemma unowned:
  assumes "wire_inv y" and "ws_owner y c = None"
  shows "c \<notin> fst ` set (sub_list (pw (ws_pub y)))"
proof
  assume "c \<in> fst ` set (sub_list (pw (ws_pub y)))"
  then obtain a where "(c, a) \<in> set (sub_list (pw (ws_pub y)))" by auto
  then have "(c, a) \<in> pairs (ws_pub y)" by (simp add: pairs_def)
  with assms show False unfolding wire_inv_def by auto
qed

lemma wire_step_pub: "wire_step y z \<Longrightarrow> wire_inv y \<Longrightarrow> pub_reach (ws_pub z)"
proof (induction rule: wire_step.induct)
  case (w_publish env m s e w y)
  then have "pub_reach s" by (simp add: wire_inv_def)
  with w_publish pub_next [OF _ pub_step.published] show ?case by fastforce
next
  case (w_join c s w y)
  have "c \<notin> fst ` set (sub_list (pw s))" using unowned w_join by simp
  moreover have "pub_reach s" using w_join by (simp add: wire_inv_def)
  ultimately show ?case using w_join(1) pub_next [OF _ pub_step.joined] by fastforce
next
  case (w_leave c s w st y)
  then have "pub_reach s" by (simp add: wire_inv_def)
  with w_leave pub_next [OF _ pub_step.left] show ?case by fastforce
next
  case (w_hwm y n)
  then have "pub_reach (ws_pub y)" by (simp add: wire_inv_def)
  from pub_next [OF this pub_step.hwm_set] show ?case by simp
next
  case (w_take j s w y)
  then have "pub_reach s" by (simp add: wire_inv_def)
  from pub_next [OF this pub_step.received [OF w_take(1,2)]] show ?case by simp
next
  case (w_write j s w st m y)
  then have "pub_reach s" by (simp add: wire_inv_def)
  from pub_next [OF this pub_step.written [OF w_write(1,2,3)]] show ?case by simp
next
  case (w_elsewhere y st)
  then have "pub_reach (ws_pub y)" by (simp add: wire_inv_def)
  from pub_next [OF this pub_step.anything] show ?case by simp
qed

text \<open>The rest of the invariant, for a step that writes on no connection and lets none join.\<close>

lemma wire_inv_frame:
  assumes "wire_inv y" and "pub_reach (ws_pub z)" and "ws_owner z = ws_owner y"
    and "\<And>c. carries (written_to c (plog (ws_pub z))) (cells (pst (ws_pub z)) c)"
    and "length (chans (pw (ws_pub z))) = length (chans (pw (ws_pub y)))"
    and "pairs (ws_pub z) \<subseteq> pairs (ws_pub y)"
  shows "wire_inv z"
  using assms unfolding wire_inv_def by simp blast

lemma wire_step_inv: "wire_step y z \<Longrightarrow> wire_inv y \<Longrightarrow> wire_inv z"
proof -
  assume step: "wire_step y z" and inv: "wire_inv y"
  note reach = wire_step_pub [OF step inv]
  note wf = wire_invD [OF inv]
  from inv have car: "\<And>c. carries (written_to c (plog (ws_pub y))) (cells (pst (ws_pub y)) c)"
    by (simp add: wire_inv_def)
  from step show ?thesis
  proof cases
    case (w_publish env m s e w)
    with pubMWriter_write_effect [of "pw s" env m "pst s" e w] wf car
    show ?thesis by (intro wire_inv_frame [OF inv reach]) (auto simp: pairs_def)
  next
    case (w_join c s w)
    have free: "c \<notin> fst ` set (sub_list (pw s))" using unowned [OF inv] w_join by simp
    let ?n = "length (chans (pw s))"
    from pubMWriter_addConn_effect [of "pw s" c w] w_join wf(1) free have
      w: "length (chans w) = Suc ?n" "pairs (ws_pub z) = insert (c, ?n) (pairs s)"
      by (auto simp: pairs_def ends_def)
    from inv w_join(3) have o: "owner_ok (ws_owner y) ?n" "\<forall>c a. (c, a) \<in> pairs s \<longrightarrow> ws_owner y c = Some a"
      by (simp_all add: wire_inv_def)
    have "owner_ok (ws_owner z) (Suc ?n)"
      using o(1) w_join(1) by (auto simp: owner_ok_def less_Suc_eq split: if_splits)
    moreover have "\<forall>d a. (d, a) \<in> pairs (ws_pub z) \<longrightarrow> ws_owner z d = Some a"
      using o(2) w(2) w_join(1,4) by auto
    ultimately show ?thesis using car reach w(1) w_join(1,3) by (simp add: wire_inv_def)
  next
    case (w_leave c s w st)
    from pubMWriter_rmConn_effect [of "pw s" c "pst s"] wf(1) w_leave have w:
      "sub_list w = AList.delete c (sub_list (pw s))" "drainers w = drainers (pw s)" "length (chans w) = length (chans (pw s))"
      by auto
    have "unwritten (pst s) st \<or> st = pst s"
      using w_leave(2,3) wf(3) by (auto simp: pubMWriter_rmConn_def Let_def dest: unwritten_st_Close
          split: option.splits prod.splits)
    then have "carries (written_to c (plog s)) (cells st c)" for c
      using car [of c] carries_unwritten [OF car [of c], of st] w_leave(3) by auto
    with w w_leave show ?thesis
      by (intro wire_inv_frame [OF inv reach]) (auto simp: pairs_def AList.delete_eq)
  next
    case (w_hwm n)
    with car show ?thesis by (intro wire_inv_frame [OF inv reach]) (auto simp: pairs_def sub_list_def)
  next
    case (w_take j s w)
    with drain_recv_conns [OF w_take(3,2)] car show ?thesis
      by (intro wire_inv_frame [OF inv reach]) (auto simp: pairs_def)
  next
    case (w_write j s w st m)
    let ?d = "drainers (pw s) ! j"
    note f = drain_send_conns [OF w_write(3,2)]
    from f(4) w_write(4) obtain e where s: "st_SendMsg m (dr_conn ?d) (pst s) = (e, st)" by auto
    have "carries (written_to c (plog (ws_pub z))) (cells st c)" for c
    proof (cases "c = dr_conn ?d")
      case True
      with on_cell_same [OF s [unfolded st_SendMsg_def]] carries_SendMsg car [of c] w_write(1,5) show ?thesis by auto
    next
      case False
      with on_cell_other [OF s [unfolded st_SendMsg_def], of c] car [of c] w_write(1,5) show ?thesis by simp
    qed
    moreover have "(dr_conn ?d, dr_chan ?d) \<in> ends (drainers (pw s))"
      using w_write(2) by (auto simp: ends_def)
    ultimately show ?thesis using f(1-3) w_write
      by (intro wire_inv_frame [OF inv reach]) (auto simp: pairs_def)
  next
    case (w_elsewhere st)
    then have "carries (written_to c (plog (ws_pub z))) (cells (pst (ws_pub z)) c)" for c
      using carries_unwritten [OF car [of c], of st] by simp
    with w_elsewhere show ?thesis by (intro wire_inv_frame [OF inv reach]) (auto simp: pairs_def)
  qed
qed

lemma wire_reach_inv: "wire_reach y \<Longrightarrow> wire_inv y"
proof (induction rule: wire_reach.induct)
  case (w_start st)
  then show ?case
    by (simp add: wire_inv_def pub_start) (simp add: pub_init_def newPubMWriter_def sub_list_def carries_def blank_def owner_ok_def pairs_def ends_def)
next
  case (w_next y z)
  then show ?case by (simp add: wire_step_inv)
qed

section \<open>Reading what was written\<close>

lemma read_loop_stops: "read_loop acc r = (gs, Some e, r') \<Longrightarrow> content r' = []"
proof (induction acc r rule: read_loop.induct)
  case (1 acc r)
  obtain b1 e1 r1 where h1: "io_ReadFull 1 r = (b1, e1, r1)" by (cases "io_ReadFull 1 r")
  obtain b2 e2 r2 where h2: "io_ReadFull 4 r1 = (b2, e2, r2)" by (cases "io_ReadFull 4 r1")
  obtain b3 e3 r3 where h3: "io_ReadFull (unat (Uint32 b2)) r2 = (b3, e3, r3)"
    by (cases "io_ReadFull (unat (Uint32 b2)) r2")
  note unfold = read_loop.simps [of acc r]
  show ?case
  proof (cases "e1 = None \<and> e2 = None \<and> e3 = None")
    case True
    with h1 h2 h3 have h: "io_ReadFull 1 r = (b1, None, r1)" "io_ReadFull 4 r1 = (b2, None, r2)"
      "io_ReadFull (unat (Uint32 b2)) r2 = (b3, None, r3)" by simp_all
    with "1.prems" have more: "b1 ! 0 AND 1 \<noteq> 0" "read_loop (acc @ [b3]) r3 = (gs, Some e, r')"
      by (simp_all add: unfold del: One_nat_def split: if_splits)
    show ?thesis
      by (rule "1.IH" [OF h(1) [symmetric] refl refl h(2) [symmetric] refl refl h(3) [symmetric] refl refl more])
  next
    case False
    with "1.prems" h1 h2 h3 show ?thesis
      by (auto simp: unfold simp del: One_nat_def dest!: io_ReadFull_Some split: option.splits)
  qed
qed

definition whole :: "msg list \<Rightarrow> msg list" where
  "whole ms = filter (\<lambda>m. msg_err m = None) ms"

lemma reads_nothing: "content r = [] \<Longrightarrow> whole (fst (reads n r)) = []"
proof (induction n arbitrary: r)
  case 0
  then show ?case by (simp add: whole_def)
next
  case (Suc n)
  have "strict_prefix (content r) (frames_wire [[]])" using Suc.prems by (simp add: strict_prefix_def frame_wire_def)
  moreover have "encodable [[]]" by (simp add: encodable_def)
  ultimately obtain gs e r1 where l: "read_loop [] r = (gs, Some e, r1)"
    using read_loop_truncated by blast
  from Suc.IH [OF read_loop_stops [OF l]] show ?case
    by (cases "reads n r1") (simp add: l whole_def)
qed

text \<open>From a part of what was written come the first messages, and errors after them.\<close>

lemma reads_prefix:
  "list_all encodable fss \<Longrightarrow> prefix (content r) (concat (map frames_wire fss)) \<Longrightarrow>
     prefix (whole (fst (reads n r))) (map NewMsgFrom fss)"
proof (induction n arbitrary: fss r)
  case 0
  then show ?case by (simp add: whole_def)
next
  case (Suc n)
  show ?case
  proof (cases "fss")
    case Nil
    with Suc.prems reads_nothing [of r "Suc n"] show ?thesis by (simp del: reads.simps)
  next
    case (Cons fs fss')
    with Suc.prems have e: "encodable fs" "list_all encodable fss'"
      and p: "prefix (content r) (frames_wire fs @ concat (map frames_wire fss'))" by simp_all
    from p consider (more) q where "content r = frames_wire fs @ q" "prefix q (concat (map frames_wire fss'))"
      | (less) "strict_prefix (content r) (frames_wire fs)"
    proof (cases "prefix (content r) (frames_wire fs) \<and> content r \<noteq> frames_wire fs")
      case True
      then have "strict_prefix (content r) (frames_wire fs)" by (simp add: strict_prefix_def)
      then show thesis by (rule less)
    next
      case False
      with p obtain q where "content r = frames_wire fs @ q" "prefix q (concat (map frames_wire fss'))"
        unfolding prefix_append by auto
      then show thesis by (rule more)
    qed
    then show ?thesis
    proof cases
      case more
      from read_loop_frames_wire [OF e(1) more(1), of "[]"] obtain r1 where
        r1: "read_loop [] r = (fs, None, r1)" "content r1 = q" by auto
      with Suc.IH [OF e(2), of r1] more(2) have "prefix (whole (fst (reads n r1))) (map NewMsgFrom fss')" by simp
      moreover have noerr: "msg_err (NewMsgFrom fs) = None" by (simp add: NewMsgFrom_def empty_msg_def)
      have "whole (fst (reads (Suc n) r)) = NewMsgFrom fs # whole (fst (reads n r1))"
        using noerr by (cases "reads n r1") (simp add: r1 whole_def NewMsgFrom_upd)
      ultimately show ?thesis using Cons by simp
    next
      case less
      from read_loop_truncated [OF e(1) less, of "[]"] obtain gs e1 r1 where l: "read_loop [] r = (gs, Some e1, r1)"
        by blast
      from reads_nothing [OF read_loop_stops [OF l], of n] show ?thesis
        by (cases "reads n r1") (simp add: l whole_def)
    qed
  qed
qed

section \<open>Properties\<close>

text \<open>
  C3: Publisher and subscriber in any interleaving on both sides, with a connection that may break at
  any byte of a write and deliver any part of what was written: the messages that \<^verbatim>\<open>Recv\<close> has
  returned, and those that wait, from that connection are the first of those queued for it, in
  order, whole, none twice and none left out; and these are messages published, in order.
\<close>

theorem published_arrive_in_order:
  assumes "wire_reach y" and "ws_owner y c = Some a"
    and "\<forall>m \<in> set (published_msgs (plog (ws_pub y))). encodable (Frames m)"
    and "reading_reach st0 z" and "prefix (inp (cells st0 r)) (out (cells (pst (ws_pub y)) c))"
  shows "prefix (whole (from_conn r (rg_pushed z)))
      (map (\<lambda>m. NewMsgFrom (Frames m)) (queued_on a (plog (ws_pub y)))) \<and>
    map snd (rg_pushed z) = rg_got z @ buf (qc (rg_q z)) \<and>
    subseq (queued_on a (plog (ws_pub y))) (published_msgs (plog (ws_pub y)))"
proof -
  let ?h = "plog (ws_pub y)"
  from wire_reach_inv [OF assms(1)] have w: "owner_ok (ws_owner y) (length (chans (pw (ws_pub y))))"
      "\<forall>c a. (c, a) \<in> writes ?h \<longrightarrow> ws_owner y c = Some a" "carries (written_to c ?h) (cells (pst (ws_pub y)) c)"
      "a < length (chans (pw (ws_pub y)))" "pub_inv (ws_pub y)"
    using assms(2) wire_invD(2) by (auto simp: wire_inv_def pairs_def owner_ok_def)
  have to: "written_to c ?h = written_from a ?h" by (rule written_from_owner [OF w(2) assms(2) w(1)])
  have sub: "subseq (queued_on a ?h) (published_msgs ?h)" using w(5) unfolding pub_inv_def by blast
  have "prefix (written_from a ?h) (queued_on a ?h)" using w(4,5) by (simp add: pub_inv_def)
  then obtain rest where q: "queued_on a ?h = written_to c ?h @ rest" unfolding to by (auto simp: prefix_def)
  let ?fss = "map Frames (queued_on a ?h)"
  have "set (queued_on a ?h) \<subseteq> set (published_msgs ?h)" by (metis list_emb_set [OF sub] subsetI)
  with assms(3) have enc: "list_all encodable ?fss" by (auto simp: list_all_iff)
  have wire: "concat (map frames_wire ?fss) = msgs_wire (written_to c ?h) @ msgs_wire rest"
    by (simp add: q msgs_wire_def comp_def)
  have "prefix (inp (cells st0 r)) (msgs_wire (written_to c ?h))"
    using assms(5) w(3) by (auto simp: carries_def intro: prefix_order.trans)
  then have "prefix (inp (cells st0 r)) (concat (map frames_wire ?fss))" unfolding wire by (rule prefix_prefix)
  note p = reads_prefix [OF enc this, of "length (from_conn r (rg_read z))"]
  from reading_reach_inv [OF assms(4)] have rq: "queue_inv z" and rc: "conn_inv st0 z r" by simp_all
  from rc have "fst (reads (length (from_conn r (rg_read z))) (rd (rw (cells st0 r)))) = from_conn r (rg_read z)"
    and "prefix (from_conn r (rg_pushed z)) (from_conn r (rg_read z))"
    by (auto simp: conn_inv_def conn_state_def)
  with p have "prefix (whole (from_conn r (rg_pushed z))) (map NewMsgFrom ?fss)"
    by (auto simp: whole_def prefix_def)
  with rq sub show ?thesis by (simp add: queue_inv_def comp_def)
qed

text \<open>A publisher with one subscriber to everything; a message is published, taken and written.\<close>

definition demo_open_store :: store where
  "demo_open_store = fresh_store\<lparr>cells := (\<lambda>_. (new_conn (bytes_NewReader []) \<lparr>wr_script = [], written = []\<rparr>)\<lparr>topics := ['''']\<rparr>)\<rparr>"

definition demo_writer :: "msg list \<Rightarrow> msg option \<Rightarrow> pubMWriter" where
  "demo_writer q m = newPubMWriter\<lparr>subscribers := Some [(1, 0)], chans := [(make_chan 1000)\<lparr>buf := q\<rparr>],
     drainers := [\<lparr>dr_chan = 0, dr_conn = 1, dr_msg = m\<rparr>]\<rparr>"

definition demo_wire :: "msg list \<Rightarrow> msg option \<Rightarrow> store \<Rightarrow> pub_event list \<Rightarrow> wire_sys" where
  "demo_wire q m st h = \<lparr>ws_pub = \<lparr>pw = demo_writer q m, pst = st, plog = h\<rparr>, ws_owner = (\<lambda>_. None)(1 := Some 0)\<rparr>"

lemma demo_wire_written:
  "\<exists>st. wire_reach (demo_wire [] None st [Published (NewMsg [7]) [0], Written 0 1 (NewMsg [7])]) \<and>
     out (cells st 1) = frames_wire [[7]]"
proof -
  let ?m = "NewMsg [7]" and ?st = demo_open_store
  have "blank ?st" by (simp add: blank_def demo_open_store_def new_conn_def)
  then have y0: "wire_reach \<lparr>ws_pub = pub_init ?st, ws_owner = (\<lambda>_. None)\<rparr>" by (rule wire_reach.w_start)
  have add: "pubMWriter_addConn 1 newPubMWriter = Some (demo_writer [] None)"
    by (simp add: pubMWriter_addConn_def newPubMWriter_def demo_writer_def DefaultSendHwm_def make_chan_def)
  have y1: "wire_reach (demo_wire [] None ?st [])"
    using wire_reach.w_next [OF y0 wire_step.w_join [of 1 "pub_init ?st" "demo_writer [] None"]] add
    by (simp add: pub_init_def demo_wire_def newPubMWriter_def)
  have wrote: "pubMWriter_write (\<lambda>_. (0, None)) ?m (demo_writer [] None) ?st = Some (None, demo_writer [?m] None)"
    by (simp add: pubMWriter_write_def demo_writer_def sub_list_def newPubMWriter_def subscribed_def demo_open_store_def
        sub_send_def chan_send_def make_chan_def)
  have grow: "grown (demo_writer [] None) (demo_writer [?m] None) = [0]"
    by (simp add: grown_def demo_writer_def make_chan_def)
  have y2: "wire_reach (demo_wire [?m] None ?st [Published ?m [0]])"
    using wire_reach.w_next [OF y1 wire_step.w_publish [of "\<lambda>_. (0, None)" ?m "ws_pub (demo_wire [] None ?st [])" None "demo_writer [?m] None"]]
      wrote grow by (simp add: demo_wire_def)
  have "drain_recv 0 (demo_writer [?m] None) = Returns (demo_writer [] (Some ?m))"
    by (simp add: drain_recv_def demo_writer_def chan_recv_def make_chan_def)
  then have y3: "wire_reach (demo_wire [] (Some ?m) ?st [Published ?m [0]])"
    using wire_reach.w_next [OF y2 wire_step.w_take [of 0 "ws_pub (demo_wire [?m] None ?st [Published ?m [0]])" "demo_writer [] (Some ?m)"]]
    by (simp add: demo_wire_def demo_writer_def)
  have "takes_all (cells ?st 1)" "out (cells ?st 1) = []"
    by (simp_all add: demo_open_store_def takes_all_def new_conn_def Closed_def healthy_def)
  from st_SendMsg_takes_all [OF this(1), of ?m] this(2) obtain st where
    st: "st_SendMsg ?m 1 ?st = (None, st)" "out (cells st 1) = frames_wire [[7]]"
    by (auto simp: NewMsg_def)
  have "drain_send 0 (demo_writer [] (Some ?m), ?st) = Returns (demo_writer [] None, st)"
    using st(1) by (simp add: drain_send_def demo_writer_def)
  then have "wire_reach (demo_wire [] None st [Published ?m [0], Written 0 1 ?m])"
    using wire_reach.w_next [OF y3 wire_step.w_write [of 0 "ws_pub (demo_wire [] (Some ?m) ?st [Published ?m [0]])" "demo_writer [] None" st ?m]]
    by (simp add: demo_wire_def demo_writer_def)
  with st(2) show ?thesis by blast
qed

theorem published_arrive_in_order_witness:
  "\<exists>y z. wire_reach y \<and> reading_reach demo_carrying z \<and> rg_got z @ buf (qc (rg_q z)) = [NewMsgFrom [[7]]] \<and>
     prefix [NewMsgFrom [[7]]] (map (\<lambda>m. NewMsgFrom (Frames m)) (queued_on 0 (plog (ws_pub y))))"
proof -
  from demo_wire_written obtain st where
    st: "wire_reach (demo_wire [] None st [Published (NewMsg [7]) [0], Written 0 1 (NewMsg [7])])"
      "out (cells st 1) = frames_wire [[7]]" by blast
  let ?y = "demo_wire [] None st [Published (NewMsg [7]) [0], Written 0 1 (NewMsg [7])]"
  note d = demo_pushing_reach
  have on: "1 \<in> set (listeners (rg_q demo_pushing))" by (simp add: d qreader_addConn_def)
  obtain z where z: "reading_push (NewMsgFrom [[7]]) 1 demo_pushing = Returns z" "rg_pushed z = [(1, NewMsgFrom [[7]])]"
    using d(4,5) by (simp add: reading_push_def qreader_push_def chan_send_def qreader_addConn_def newQReader_def
        make_chan_def NewMsgFrom_def empty_msg_def)
  have reach: "reading_reach demo_carrying z"
    by (rule reading_reach.moved [OF d(1) reading_step.pushes [OF on d(3) z(1)]])
  have o: "ws_owner ?y 1 = Some 0" by (simp add: demo_wire_def)
  have enc: "\<forall>m \<in> set (published_msgs (plog (ws_pub ?y))). encodable (Frames m)"
    by (simp add: demo_wire_def published_msgs_def List.map_filter_def NewMsg_def encodable_def)
  have pre: "prefix (inp (cells demo_carrying 1)) (out (cells (pst (ws_pub ?y)) 1))"
    using st(2) demo_carrying_inp [of 1] by (simp add: demo_wire_def)
  have "whole [NewMsgFrom [[7]]] = [NewMsgFrom [[7]]]" by (simp add: whole_def NewMsgFrom_def empty_msg_def)
  moreover have "prefix (whole (from_conn 1 (rg_pushed z))) (map (\<lambda>m. NewMsgFrom (Frames m)) (queued_on 0 (plog (ws_pub ?y))))"
      "map snd (rg_pushed z) = rg_got z @ buf (qc (rg_q z))"
    using published_arrive_in_order [OF st(1) o enc reach pre] by blast+
  ultimately have "prefix [NewMsgFrom [[7]]] (map (\<lambda>m. NewMsgFrom (Frames m)) (queued_on 0 (plog (ws_pub ?y))))"
      "rg_got z @ buf (qc (rg_q z)) = [NewMsgFrom [[7]]]"
    unfolding z(2) by simp_all
  with st(1) reach show ?thesis by blast
qed

end
