(* ===== verification/Races.thy ===== *)
theory Races
  imports Reading Subscriptions
begin

text \<open>
  Two interleavings that the locks of the package leave open. Two callers of \<^verbatim>\<open>SetOption\<close> update the
  topics in one order and send their commands in the other; and two goroutines write the parts of
  their frames on one connection in turns. Both end with a publisher that filters by topics the
  subscriber does not have.
\<close>

section \<open>Two callers of SetOption\<close>

text \<open>A SUB socket with one connection, which takes what is written.\<close>

definition lone_conn :: "conn_id \<Rightarrow> 't sub_socket \<Rightarrow> bool" where
  "lone_conn c s =
     (conns s = [c] \<and> ws (bw (pools s)) = [c] \<and> chan_recv (wsem (bw (pools s))) = ChanClosed \<and>
      takes_all (cells (bst (pools s)) c))"

lemma option_finish_sends:
  assumes "lone_conn c s"
  shows "\<exists>s'. option_finish d b t s = Returns (None, s') \<and> lone_conn c s' \<and> subs s' = subs s \<and>
    out (cells (bst (pools s')) c) = out (cells (bst (pools s)) c) @ frames_wire (Frames (command b t))"
proof -
  from assms st_SendMsg_takes_all [of "bst (pools s)" c "command b t"] obtain st where
    st: "st_SendMsg (command b t) c (bst (pools s)) = (None, st)" "takes_all (cells st c)"
      "out (cells st c) = out (cells (bst (pools s)) c) @ frames_wire (Frames (command b t))"
    by (auto simp: lone_conn_def)
  with assms show ?thesis
    by (simp add: lone_conn_def option_finish_def socket_Send_def mwriter_write_def sem_lock_ready_def command_def
        first_err_def)
qed

lemma lone_conn_begin: "lone_conn c (option_begin name t s) = lone_conn c s"
  by (simp add: lone_conn_def option_begin_frame)

text \<open>
  C14: Two calls of \<^verbatim>\<open>SetOption\<close> at once can leave the two ends apart for good. One ends a
  subscription, the other begins it; each updates the topics under the lock, then both send their
  commands, the second first. Both return no error and the socket has the topic, but a publisher that
  has read everything does not filter it in, so its messages never come.
\<close>

theorem concurrent_options_diverge:
  assumes "lone_conn c s" and "out (cells (bst (pools s)) c) = commands_wire cmds"
    and "list_all well_formed_cmd cmds" and "topics_after cmds {} = set (subs s)" and "length t < 2 ^ 32 - 1"
    and "s2 = option_begin OptionSubscribe t (option_begin OptionUnsubscribe t s)"
  shows "\<exists>s3 s4. option_finish d (option_cmd OptionSubscribe) t s2 = Returns (None, s3) \<and>
    option_finish d (option_cmd OptionUnsubscribe) t s3 = Returns (None, s4) \<and>
    set (subs s4) = insert t (set (subs s)) \<and>
    (inp (cells ps r) = out (cells (bst (pools s4)) c) \<and> topics (cells ps r) = [] \<longrightarrow>
       (\<exists>n ps'. listen_n n r (q, ps) = Returns (q, ps') \<and> inp (cells ps' r) = [] \<and>
          set (topics (cells ps' r)) = set (subs s) - {t}))"
proof -
  have s2: "lone_conn c s2" "set (subs s2) = insert t (set (subs s))" "pools s2 = pools s"
    using assms(1,6) by (auto simp: lone_conn_begin option_begin_frame option_cmd_def option_names apply_command_def)
  obtain s3 where s3: "option_finish d (option_cmd OptionSubscribe) t s2 = Returns (None, s3)" "lone_conn c s3" "subs s3 = subs s2"
      "out (cells (bst (pools s3)) c) = out (cells (bst (pools s2)) c) @ frames_wire (Frames (command 1 t))"
    using option_finish_sends [OF s2(1), of d 1 t] by (auto simp: option_cmd_def)
  obtain s4 where s4: "option_finish d (option_cmd OptionUnsubscribe) t s3 = Returns (None, s4)" "subs s4 = subs s3"
      "out (cells (bst (pools s4)) c) = out (cells (bst (pools s3)) c) @ frames_wire (Frames (command 0 t))"
    using option_finish_sends [OF s3(2), of d 0 t] by (auto simp: option_cmd_def option_names)
  have wire: "out (cells (bst (pools s4)) c) = commands_wire (cmds @ [(1, t), (0, t)]) @ []"
    using s4(3) s3(4) s2(3) assms(2) by simp
  have wf: "list_all well_formed_cmd (cmds @ [(1, t), (0, t)])" using assms(3,5) by (simp add: well_formed_cmd_def)
  have "\<exists>n ps'. listen_n n r (q, ps) = Returns (q, ps') \<and> inp (cells ps' r) = [] \<and>
      set (topics (cells ps' r)) = set (subs s) - {t}"
    if "inp (cells ps r) = out (cells (bst (pools s4)) c)" "topics (cells ps r) = []"
  proof -
    from that(1) wire have "inp (cells ps r) = commands_wire (cmds @ [(1, t), (0, t)]) @ []" by (simp only:)
    from listen_wire [OF wf this, of q] that(2) obtain ps' where
      "listen_n (length (cmds @ [(1, t), (0, t)])) r (q, ps) = Returns (q, ps')" "inp (cells ps' r) = []"
      "set (topics (cells ps' r)) = topics_after (cmds @ [(1, t), (0, t)]) {}"
      by auto
    moreover have "topics_after (cmds @ [(1, t), (0, t)]) {} = set (subs s) - {t}"
      by (auto simp: assms(4) apply_command_def)
    ultimately show ?thesis by blast
  qed
  with s3(1,3) s4(1,2) s2(2) show ?thesis by auto
qed

theorem concurrent_options_diverge_witness:
  "\<exists>s3 s4 :: nat sub_socket. option_finish None (option_cmd OptionSubscribe) ''a''
       (option_begin OptionSubscribe ''a'' (option_begin OptionUnsubscribe ''a'' (ss_sock demo_subscribing))) = Returns (None, s3) \<and>
     option_finish None (option_cmd OptionUnsubscribe) ''a'' s3 = Returns (None, s4) \<and> set (subs s4) = {''a''}"
proof -
  let ?s = "ss_sock demo_subscribing"
  let ?st = "new_cell 1 \<lparr>conn_typ = Sub, rw = demo_net, Server = True, topics = [], closed = 0, onCloseErrorCB = True\<rparr>
       fresh_store"
  have "takes_all (cells ?st 1)" "out (cells ?st 1) = []"
    by (simp_all add: takes_all_def new_cell_def Closed_def demo_net_def healthy_def)
  with st_SendMsg_takes_all [of ?st 1 "command 1 ''a''"] demo_subscribing_facts(5)
  have "takes_all (cells (bst (pools ?s)) 1)" and w: "out (cells (bst (pools ?s)) 1) = commands_wire [(1, ''a'')]"
    by auto
  then have l: "lone_conn 1 ?s" using demo_subscribing_facts by (simp add: lone_conn_def)
  have "list_all well_formed_cmd [(1, ''a'')]" "topics_after [(1, ''a'')] {} = set (subs ?s)" "length ''a'' < 2 ^ 32 - 1"
    by (simp_all add: well_formed_cmd_def apply_command_def demo_subscribing_facts(2))
  from concurrent_options_diverge [OF l w this refl, of None fresh_store 1 newPubQReader] show ?thesis
    by (simp add: demo_subscribing_facts(2)) blast
qed

section \<open>Two goroutines that send on one connection\<close>

text \<open>
  \<^verbatim>\<open>SendMsg\<close> holds no lock: it is the sequence of these calls of \<^verbatim>\<open>Write\<close>, three for each frame, and
  those of another goroutine may come between them. A SUB socket does that: the subscriptions are
  sent to a new connection outside the lock of the writer, which already has the connection.
\<close>

fun SendMsg_parts :: "nat \<Rightarrow> nat \<Rightarrow> bytes list \<Rightarrow> (bytes \<times> (go_error \<Rightarrow> go_error)) list" where
  "SendMsg_parts nframes i [] = []"
| "SendMsg_parts nframes i (frame # rest) =
     (let flag = (if int i < int nframes - 1 then 1 else 0) in
      [([flag], Wrapf ''quicmq: send flag: %w'' []),
       (PutUint32 (word_of_nat (length frame)), Wrapf ''quicmq: send length: %w'' []),
       (frame, Wrapf ''quicmq: send frame %d/%d: %w'' [Num (int i + 1), Num (int nframes)])]
      @ SendMsg_parts nframes (Suc i) rest)"

lemma write_part_unfired: "write_part p wrap c = (None, c', fired) \<Longrightarrow> fired = False"
  using write_part_ok by blast

lemma write_parts_append:
  "write_parts (ps @ qs) c =
     (case write_parts ps c of (Some e, r) \<Rightarrow> (Some e, r) | (None, c1, _) \<Rightarrow> write_parts qs c1)"
  by (induction ps c rule: write_parts.induct) (auto split: prod.splits option.splits)

lemma SendMsg_is_parts:
  "SendMsg m c =
     (if Closed c then (Some ErrClosedConn, c, False)
      else write_parts (SendMsg_parts (length (Frames m)) 0 (Frames m)) c)"
proof -
  have "SendMsg_loop n i fs c = write_parts (SendMsg_parts n i fs) c" for n i fs
  proof (induction fs arbitrary: i c)
    case Nil
    then show ?case by simp
  next
    case (Cons f fs)
    show ?case
      by (simp only: SendMsg_loop.simps SendMsg_parts.simps Let_def write_parts_append Cons.IH)
  qed
  then show ?thesis by (simp add: SendMsg_def)
qed

lemma PutUint32_small: "n < 256 \<Longrightarrow> PutUint32 (word_of_nat n) = [0, 0, 0, word_of_nat n]"
  by (simp add: PutUint32_def word_unat_eq_iff unsigned_drop_bit_eq unsigned_ucast_eq unsigned_of_nat
      take_bit_eq_mod drop_bit_eq_div unat_div_distrib)

lemma even_byte_and_one: "even n \<Longrightarrow> (word_of_nat n :: byte) AND 1 = 0"
  by (simp add: and_one_eq mod2_eq_if even_of_nat)

lemma write_parts_all:
  "healthy (wr (rw c)) \<Longrightarrow> \<exists>c'. write_parts ps c = (None, c', False) \<and> out c' = out c @ concat (map fst ps)"
  using write_parts_healthy [of c ps] by auto

lemma conn_read_flag:
  assumes "inp c = frame_wire flag f @ q" and "flag AND 1 = 0" and "length f < 2 ^ 32"
  shows "\<exists>r. conn_read c = (NewMsgFrom [f], set_rd r c, False) \<and> content r = q"
  using read_loop_frame [OF assms(1,3), of "[]"] assms(2)
  by (auto simp: conn_read_set_rd checkIO_def NewMsgFrom_upd)

lemma listen_any_topic:
  assumes "inp (cells st r) = frame_wire flag [1] @ rest" and "flag AND 1 = 0"
  shows "\<exists>st'. pubQReader_listen None r (q, st) = Returns (q, st') \<and> '''' \<in> set (topics (cells st' r))"
proof -
  from conn_read_flag [OF assms] obtain r1 where
    "conn_read (cells st r) = (NewMsgFrom [[1]], set_rd r1 (cells st r), False)" by auto
  then show ?thesis
    by (simp add: pubQReader_listen_def st_read_def on_cell_def NewMsgFrom_def empty_msg_def isTopic_def
        subscribe_def string_of_bytes_def strset_put_def)
qed

text \<open>
  C15: A subscription sent while another goroutine sends a one-byte message can become a subscription
  to everything. The two calls of \<^verbatim>\<open>SendMsg\<close> take turns at each \<^verbatim>\<open>Write\<close>: both succeed, and the
  publisher, whose connection had no topic, takes the first byte of the command for the empty topic.
\<close>

theorem interleaved_sends_misread:
  assumes "odd (length t)" and "length t < 255" and "healthy (wr (rw c))" and "out c = []"
    and "\<not> chan_closed (pq_c q)" and "length (buf (pq_c q)) < cap (pq_c q)"
  shows "\<exists>ps c'. ps \<in> shuffles (SendMsg_parts 1 0 (Frames (command 1 t))) (SendMsg_parts 1 0 [[x]]) \<and>
    write_parts ps c = (None, c', False) \<and>
    (inp (cells st r) = out c' \<longrightarrow>
       (\<exists>q' st'. listen_n 2 r (q, st) = Returns (q', st') \<and> '''' \<in> set (topics (cells st' r)) \<and>
          subscribed (cells st' r) topic))"
proof -
  let ?w1 = "Wrapf ''quicmq: send flag: %w'' []" and ?w2 = "Wrapf ''quicmq: send length: %w'' []"
    and ?w3 = "Wrapf ''quicmq: send frame %d/%d: %w'' [Num (int 0 + 1), Num (int 1)]"
  let ?L = "word_of_nat (Suc (length t)) :: byte" and ?t = "bytes_of_string t"
  let ?ps = "[([0], ?w1), ([0], ?w1), ([0, 0, 0, ?L], ?w2), ([0, 0, 0, 1], ?w2), (1 # ?t, ?w3), ([x], ?w3)]"
  have len: "PutUint32 (word_of_nat (Suc (length t))) = [0, 0, 0, ?L]"
    by (rule PutUint32_small) (use assms(2) in simp)
  have one: "PutUint32 (word_of_nat 1) = [0, 0, 0, 1]" using PutUint32_small [of 1] by simp
  have p1: "SendMsg_parts 1 0 (Frames (command 1 t)) = [([0], ?w1), ([0, 0, 0, ?L], ?w2), (1 # ?t, ?w3)]"
    using len by (simp add: Let_def)
  have p2: "SendMsg_parts 1 0 [[x]] = [([0], ?w1), ([0, 0, 0, 1], ?w2), ([x], ?w3)]"
    using one by (simp add: Let_def)
  have shuffle: "?ps \<in> shuffles (SendMsg_parts 1 0 (Frames (command 1 t))) (SendMsg_parts 1 0 [[x]])"
    unfolding p1 p2 by (simp add: Cons_in_shuffles_iff)
  obtain c' where c': "write_parts ?ps c = (None, c', False)" "out c' = concat (map fst ?ps)"
    using write_parts_all [OF assms(3), of ?ps] assms(4) by auto
  have zero: "PutUint32 0 = [0, 0, 0, 0]" using PutUint32_small [of 0] by simp
  have wire: "out c' = frames_wire [[]] @ (frame_wire ?L [1] @ ?t @ [x])"
    using c'(2) zero one by (simp add: frame_wire_def)
  have even: "?L AND 1 = 0" by (rule even_byte_and_one) (use assms(1) in simp)
  have e: "encodable [[]]" "\<not> isTopic (NewMsgFrom [[]])" by (simp_all add: encodable_def isTopic_iff NewMsgFrom_def)
  have "\<exists>q' st'. listen_n 2 r (q, st) = Returns (q', st') \<and> '''' \<in> set (topics (cells st' r)) \<and>
          subscribed (cells st' r) topic" if i: "inp (cells st r) = out c'"
  proof -
    from listen_data [OF e i [unfolded wire] assms(5)] assms(6) obtain q1 st1 where
      l1: "pubQReader_listen None r (q, st) = Returns (q1, st1)" "inp (cells st1 r) = frame_wire ?L [1] @ ?t @ [x]"
      by auto
    from listen_any_topic [OF l1(2) even, of q1] obtain st2 where
      l2: "pubQReader_listen None r (q1, st1) = Returns (q1, st2)" "'''' \<in> set (topics (cells st2 r))" by blast
    from l2(2) have "subscribed (cells st2 r) topic"
      unfolding subscribed_def subscribed_loop_iff by (rule bexI [rotated]) simp
    with l1(1) l2 show ?thesis by (simp add: numeral_2_eq_2)
  qed
  with shuffle c'(1) show ?thesis by blast
qed

theorem interleaved_sends_misread_witness:
  "\<exists>ps c'. ps \<in> shuffles (SendMsg_parts 1 0 (Frames (command 1 ''a''))) (SendMsg_parts 1 0 [[9]]) \<and>
     write_parts ps (new_conn (bytes_NewReader []) \<lparr>wr_script = [], written = []\<rparr>) = (None, c', False)"
proof -
  let ?c = "new_conn (bytes_NewReader []) \<lparr>wr_script = [], written = []\<rparr>"
  have "odd (length ''a'')" "length ''a'' < 255" "healthy (wr (rw ?c))" "out ?c = []"
    "\<not> chan_closed (pq_c newPubQReader)" "length (buf (pq_c newPubQReader)) < cap (pq_c newPubQReader)"
    by (simp_all add: new_conn_def healthy_def newPubQReader_def make_chan_def)
  from interleaved_sends_misread [OF this, of 9 fresh_store 1 "''b''"] show ?thesis by blast
qed

end
