(* ===== verification/Measuring.thy ===== *)
theory Measuring
  imports Scenarios Examples Lifecycle
begin

text \<open>
  The measuring programs of \<^verbatim>\<open>benchmarks/scenarios/cmd\<close> as a whole, over the model of the library: their
  settings, the sockets they open, their loops and the results they write. A loop is a function of
  what each round meets: the clock at its head, what the network and the goroutines did before the
  call, and the clock after it. A program whose rounds are used up before its deadline is still
  in its loop, \<open>Stuck\<close>. What the programs log to stderr on the way is left out.
\<close>

section \<open>Results\<close>

text \<open>
  The value of an entry. An expression of type \<^verbatim>\<open>float64\<close> is kept as it is written, over integers
  that are converted and durations in seconds; its rounding is not evaluated. \<^verbatim>\<open>json.MarshalIndent\<close>
  is a parameter.
\<close>

datatype float64 =
    FloatOf int
  | SecondsOf int
  | FloatMul float64 float64
  | FloatDiv float64 float64

datatype json = JText string | JInt int | JFloat float64 | JTexts "(string \<times> string) list"

type_synonym results = "(string \<times> json) list"

definition ns_ms :: "int \<Rightarrow> float64" where
  "ns_ms ns = FloatDiv (FloatOf ns) (FloatOf 1000000)"

text \<open>\<^verbatim>\<open>netCfg\<close> of \<^verbatim>\<open>pub\<close>, \<^verbatim>\<open>sub\<close> and \<^verbatim>\<open>req\<close>, and the shorter one of \<^verbatim>\<open>dpub\<close>, \<^verbatim>\<open>dsub\<close> and \<^verbatim>\<open>rep\<close>.\<close>

definition netCfg :: "(string \<Rightarrow> string option) \<Rightarrow> (string \<times> string) list" where
  "netCfg getenv =
     [(''delay_ms'', env_or getenv ''NETEM_DELAY_MS'' ''0''),
      (''jitter_ms'', env_or getenv ''NETEM_JITTER_MS'' ''0''),
      (''loss_pct'', env_or getenv ''NETEM_LOSS_PCT'' ''0''),
      (''rate_kbit'', env_or getenv ''NETEM_RATE_KBIT'' ''0''),
      (''corrupt_pct'', env_or getenv ''NETEM_CORRUPT_PCT'' ''0''),
      (''reorder_pct'', env_or getenv ''NETEM_REORDER_PCT'' ''0'')]"

definition netCfg_short :: "(string \<Rightarrow> string option) \<Rightarrow> (string \<times> string) list" where
  "netCfg_short getenv =
     [(''delay_ms'', env_or getenv ''NETEM_DELAY_MS'' ''0''),
      (''loss_pct'', env_or getenv ''NETEM_LOSS_PCT'' ''0''),
      (''rate_kbit'', env_or getenv ''NETEM_RATE_KBIT'' ''0'')]"

text \<open>What the programs take from the host: the environment variables, the layout of JSON, the host's name.\<close>

record host =
  h_getenv :: "string \<Rightarrow> string option"
  h_marshal :: "results \<Rightarrow> string"
  h_name :: string

text \<open>What \<^verbatim>\<open>writeResult\<close> prints, the path of the file it writes, and the content of the file.\<close>

type_synonym written_result = "string \<times> string \<times> string"

definition writeResult :: "host \<Rightarrow> string \<Rightarrow> results \<Rightarrow> written_result" where
  "writeResult h role result =
     (let data = h_marshal h result in
      (data @ [CHR 0x0A], ''/results/'' @ role @ ''-'' @ h_name h @ ''.json'', data))"

text \<open>\<^verbatim>\<open>time.Duration(durSec) * time.Second\<close>.\<close>

definition duration_of :: "int \<Rightarrow> int" where
  "duration_of durSec = wrap64 (durSec * 1000000000)"

definition background :: "gocontext option" where
  "background = Some \<lparr>ctx_err = None, ctx_values = []\<rparr>"

section \<open>The publishers\<close>

record pub_settings =
  ps_addr :: string
  ps_topic :: string
  ps_rate :: int
  ps_size :: int
  ps_dur :: int
  ps_scenario :: string

definition read_pub_settings :: "(string \<Rightarrow> string option) \<Rightarrow> string \<Rightarrow> pub_settings" where
  "read_pub_settings getenv addr =
     \<lparr>ps_addr = env_or getenv ''LISTEN_ADDR'' addr, ps_topic = env_or getenv ''TOPIC'' ''data'',
      ps_rate = env_int getenv ''MSG_RATE'' ''500'', ps_size = env_int getenv ''MSG_SIZE'' ''256'',
      ps_dur = env_int getenv ''DURATION'' ''30'', ps_scenario = env_or getenv ''SCENARIO'' ''custom''\<rparr>"

text \<open>
  What the \<^verbatim>\<open>select\<close> of a round met: a tick, with the clock that goes into the header and the
  circumstances \<open>'r\<close> of the call of \<^verbatim>\<open>Send\<close>, or the end of the context.
\<close>

datatype 'r wake = Ticked int 'r | ContextDone

text \<open>The loop, for a socket \<open>'s\<close> and its call \<open>send\<close>, which has no result when it panics.\<close>

fun publish_rounds ::
    "('r \<Rightarrow> msg \<Rightarrow> 's \<Rightarrow> (go_error option \<times> 's) option) \<Rightarrow> string \<Rightarrow> int \<Rightarrow> bytes \<Rightarrow> int
       \<Rightarrow> (int \<times> 'r wake) list \<Rightarrow> 's \<times> pub_stats \<Rightarrow> ('s \<times> pub_stats) program" where
  "publish_rounds send topic msgSize padding deadline [] ss = Stuck"
| "publish_rounds send topic msgSize padding deadline ((now, ContextDone) # rest) ss = Running ss"
| "publish_rounds send topic msgSize padding deadline ((now, Ticked nowNs r) # rest) (s, st) =
     (if now < deadline
      then (let st1 = st\<lparr>pst_seq := wrap64 (pst_seq st + 1)\<rparr> in
            case pub_frame topic msgSize padding (pst_seq st1) nowNs of
              None \<Rightarrow> Crashed
            | Some frame \<Rightarrow>
                (case send r (NewMsg frame) s of
                   None \<Rightarrow> Crashed
                 | Some (err, s1) \<Rightarrow>
                     publish_rounds send topic msgSize padding deadline rest
                       (s1, if err \<noteq> None then st1\<lparr>pst_errs := wrap64 (pst_errs st1 + 1)\<rparr>
                            else st1\<lparr>pst_sent := wrap64 (pst_sent st1 + 1)\<rparr>)))
      else Running (s, st))"

definition pub_start :: pub_stats where
  "pub_start = \<lparr>pst_seq = 0, pst_sent = 0, pst_errs = 0\<rparr>"

text \<open>
  From the padding to the end of the loop; \<open>random\<close> gives the bytes of \<^verbatim>\<open>rand.Read\<close>, and
  the clock says \<open>start\<close>.
\<close>

definition publish_run ::
    "('r \<Rightarrow> msg \<Rightarrow> 's \<Rightarrow> (go_error option \<times> 's) option) \<Rightarrow> pub_settings \<Rightarrow> (nat \<Rightarrow> bytes) \<Rightarrow> int
       \<Rightarrow> (int \<times> 'r wake) list \<Rightarrow> 's \<Rightarrow> ('s \<times> pub_stats) program" where
  "publish_run send cfg random start rounds s =
     (case ticker_interval (ps_rate cfg) of
        None \<Rightarrow> Crashed
      | Some interval \<Rightarrow>
          publish_rounds send (ps_topic cfg) (ps_size cfg) (random (pub_padding_size (ps_size cfg)))
            (start + duration_of (ps_dur cfg)) rounds (s, pub_start))"

definition publish_entries :: "pub_settings \<Rightarrow> int \<Rightarrow> pub_stats \<Rightarrow> results" where
  "publish_entries cfg elapsed st =
     [(''listen_addr'', JText (ps_addr cfg)),
      (''topic'', JText (ps_topic cfg)),
      (''config_rate'', JInt (ps_rate cfg)),
      (''config_size'', JInt (ps_size cfg)),
      (''duration_s'', JFloat (SecondsOf elapsed)),
      (''msgs_sent'', JInt (pst_sent st)),
      (''errors'', JInt (pst_errs st)),
      (''actual_rate'', JFloat (FloatDiv (FloatOf (pst_sent st)) (SecondsOf elapsed))),
      (''throughput_mbs'', JFloat (FloatDiv (FloatDiv (FloatMul (FloatOf (pst_sent st)) (FloatOf (ps_size cfg)))
         (SecondsOf elapsed)) (FloatOf 1000000)))]"

text \<open>
  \<^verbatim>\<open>pub\<close>. The circumstances of a call: what the socket's goroutines did before it, and the choices of
  its selects. The result, with the socket after the deferred \<^verbatim>\<open>Close\<close>.
\<close>

definition pub_call ::
    "((pub_pools, 't) socket \<Rightarrow> (pub_pools, 't) socket) \<times> (nat \<Rightarrow> nat \<times> ctx) \<Rightarrow> msg
       \<Rightarrow> (pub_pools, 't) socket \<Rightarrow> (go_error option \<times> (pub_pools, 't) socket) option" where
  "pub_call = (\<lambda>(before, picks) m s. pub_Send picks m (before s))"

definition pub_result :: "(string \<Rightarrow> string option) \<Rightarrow> pub_settings \<Rightarrow> int \<Rightarrow> pub_stats \<Rightarrow> results" where
  "pub_result getenv cfg elapsed st =
     [(''scenario'', JText (ps_scenario cfg)), (''role'', JText ''pub'')] @ publish_entries cfg elapsed st @
     [(''network'', JTexts (netCfg getenv))]"

definition pub_main ::
    "host \<Rightarrow> 't transports \<Rightarrow> ('t \<Rightarrow> gocontext \<Rightarrow> string \<Rightarrow> go_error + nat) \<Rightarrow> store
       \<Rightarrow> (nat \<Rightarrow> bytes) \<Rightarrow> int
       \<Rightarrow> (int \<times> (((pub_pools, 't) socket \<Rightarrow> (pub_pools, 't) socket) \<times> (nat \<Rightarrow> nat \<times> ctx)) wake) list \<Rightarrow> int
       \<Rightarrow> (written_result \<times> (pub_pools, 't) socket) program" where
  "pub_main h db listen st random start rounds elapsed =
     (let getenv = h_getenv h;
          cfg = read_pub_settings getenv ''quic://0.0.0.0:9900'' in
      case socket_Listen db listen (ps_addr cfg) (NewPub background [] st) of
        (Some e, _) \<Rightarrow> Fatal e
      | (None, s) \<Rightarrow>
          (case publish_run pub_call cfg random start rounds s of
             Running (s1, stats) \<Rightarrow> Running (writeResult h ''pub'' (pub_result getenv cfg elapsed stats), snd (socket_Close pub_ops s1))
           | Fatal e \<Rightarrow> Fatal e
           | Crashed \<Rightarrow> Crashed
           | Stuck \<Rightarrow> Stuck))"

text \<open>
  \<^verbatim>\<open>dpub\<close>: the size is clamped first. The state of its loop has the datagrams handed to the library
  beside the socket; the circumstances of a call are what the goroutines of the peers did before it and what the
  library answers.
\<close>

definition dpub_settings :: "(string \<Rightarrow> string option) \<Rightarrow> pub_settings" where
  "dpub_settings getenv =
     (let cfg = read_pub_settings getenv ''quic://0.0.0.0:9902'' in cfg\<lparr>ps_size := clamp_payload (ps_size cfg)\<rparr>)"

definition dpub_call ::
    "(dpub_socket \<Rightarrow> dpub_socket) \<times> (qconn_id \<Rightarrow> bool) \<times> (qconn_id \<Rightarrow> bytes \<Rightarrow> go_error option) \<Rightarrow> msg
       \<Rightarrow> dpub_socket \<times> (qconn_id \<times> bytes) list
       \<Rightarrow> (go_error option \<times> dpub_socket \<times> (qconn_id \<times> bytes) list) option" where
  "dpub_call = (\<lambda>(before, supports, send) m (s, sent).
     case dpub_Send supports send m (before s) of (e, s1, tr) \<Rightarrow> Some (e, s1, sent @ tr))"

definition dpub_result :: "(string \<Rightarrow> string option) \<Rightarrow> pub_settings \<Rightarrow> int \<Rightarrow> pub_stats \<Rightarrow> results" where
  "dpub_result getenv cfg elapsed st =
     [(''scenario'', JText (ps_scenario cfg)), (''role'', JText ''dpub''), (''transport'', JText ''datagram'')] @
     publish_entries cfg elapsed st @ [(''network'', JTexts (netCfg_short getenv))]"

definition dpub_main ::
    "host \<Rightarrow> tls_config \<Rightarrow> go_error + string \<Rightarrow> go_error + udp_id \<Rightarrow> go_error option
       \<Rightarrow> (nat \<Rightarrow> bytes) \<Rightarrow> int
       \<Rightarrow> (int \<times> ((dpub_socket \<Rightarrow> dpub_socket) \<times> (qconn_id \<Rightarrow> bool) \<times> (qconn_id \<Rightarrow> bytes \<Rightarrow> go_error option)) wake) list
       \<Rightarrow> int \<Rightarrow> (written_result \<times> dpub_socket \<times> (qconn_id \<times> bytes) list) program" where
  "dpub_main h generated resolve udp listen random start rounds elapsed =
     (let getenv = h_getenv h;
          cfg = dpub_settings getenv in
      case dpub_Listen generated resolve udp listen (ps_addr cfg)
             (NewDatagramPub background ([] :: ((unit, nat) socket \<Rightarrow> (unit, nat) socket) list)) of
        (Some e, _, _) \<Rightarrow> Fatal e
      | (None, s, _) \<Rightarrow>
          (case publish_run dpub_call cfg random start rounds (s, []) of
             Running ((s1, sent), stats) \<Rightarrow>
               Running (writeResult h ''dpub'' (dpub_result getenv cfg elapsed stats), fst (snd (dpub_Close s1)), sent)
           | Fatal e \<Rightarrow> Fatal e
           | Crashed \<Rightarrow> Crashed
           | Stuck \<Rightarrow> Stuck))"

section \<open>The subscribers\<close>

record sub_settings =
  ss_addr :: string
  ss_topic :: string
  ss_dur :: int
  ss_scenario :: string

definition read_sub_settings :: "(string \<Rightarrow> string option) \<Rightarrow> string \<Rightarrow> sub_settings" where
  "read_sub_settings getenv addr =
     \<lparr>ss_addr = env_or getenv ''SERVER_ADDR'' addr, ss_topic = env_or getenv ''TOPIC'' ''data'',
      ss_dur = env_int getenv ''DURATION'' ''30'', ss_scenario = env_or getenv ''SCENARIO'' ''custom''\<rparr>"

text \<open>The duration with two seconds of grace.\<close>

definition grace_duration :: "int \<Rightarrow> int" where
  "grace_duration durSec = wrap64 (duration_of durSec + 2 * 1000000000)"

text \<open>
  The loop, for a socket \<open>'s\<close> and its call \<open>receive\<close>. A round has the clock at its head, the
  circumstances of the call, and the clock after it.
\<close>

fun receive_rounds ::
    "('r \<Rightarrow> 's \<Rightarrow> ((msg \<times> go_error option) \<times> 's) blocking) \<Rightarrow> int \<Rightarrow> (int \<times> 'r \<times> int) list
       \<Rightarrow> 's \<times> sub_stats \<Rightarrow> ('s \<times> sub_stats) program" where
  "receive_rounds receive deadline [] ss = Stuck"
| "receive_rounds receive deadline ((now, r, recvNs) # rest) (s, st) =
     (if now < deadline
      then (case receive r s of
              Waits \<Rightarrow> Stuck
            | Panics \<Rightarrow> Crashed
            | Returns ((m, err), s1) \<Rightarrow>
                receive_rounds receive deadline rest (s1, if err \<noteq> None then st else sub_message m recvNs st))
      else Running (s, st))"

definition receive_entries :: "sub_settings \<Rightarrow> int \<Rightarrow> sub_stats \<Rightarrow> results" where
  "receive_entries cfg elapsed st =
     (let sorted1 = sort (latenciesNs st) in
      [(''server_addr'', JText (ss_addr cfg)),
       (''topic'', JText (ss_topic cfg)),
       (''duration_s'', JFloat (SecondsOf elapsed)),
       (''msgs_received'', JInt (received st)),
       (''seq_gaps'', JInt (seqGaps st)),
       (''actual_rate'', JFloat (FloatDiv (FloatOf (received st)) (SecondsOf elapsed))),
       (''latency_p50_ms'', JFloat (ns_ms (pct sorted1 50))),
       (''latency_p95_ms'', JFloat (ns_ms (pct sorted1 95))),
       (''latency_p99_ms'', JFloat (ns_ms (pct sorted1 99))),
       (''latency_max_ms'', JFloat (ns_ms (pct sorted1 100))),
       (''latency_samples'', JInt (int (length sorted1)))])"

text \<open>
  \<^verbatim>\<open>sub\<close>: the circumstances of a call are what the goroutines of the socket did before it, and the choice of its
  select. An error of \<^verbatim>\<open>Dial\<close> or of the subscription ends the program.
\<close>

definition sub_call ::
    "('t sub_socket \<Rightarrow> 't sub_socket) \<times> nat \<Rightarrow> 't sub_socket
       \<Rightarrow> ((msg \<times> go_error option) \<times> 't sub_socket) blocking" where
  "sub_call = (\<lambda>(before, pick) s. socket_Recv pick (before s))"

definition measuring_sub :: "store \<Rightarrow> 't sub_socket" where
  "measuring_sub st =
     NewSub background
       [WithDialerMaxRetries (-1), WithDialTimeout (30 * 1000000000), WithTimeout (500 * 1000000)] st"

definition sub_open ::
    "'t transports \<Rightarrow> ('t \<Rightarrow> gocontext \<Rightarrow> string \<Rightarrow> nat \<Rightarrow> attempt) \<Rightarrow> ctx \<Rightarrow> conn_id \<Rightarrow> sub_settings
       \<Rightarrow> store \<Rightarrow> 't sub_socket program" where
  "sub_open db env limit c cfg st =
     (case socket_Dial db base_ops (Some sub_onConnAdded) env c (ss_addr cfg) (measuring_sub st) of
        Waits \<Rightarrow> Stuck
      | Panics \<Rightarrow> Crashed
      | Returns (Some e, _) \<Rightarrow> Fatal e
      | Returns (None, s1) \<Rightarrow>
          (case sub_SetOption limit OptionSubscribe (AnyString (ss_topic cfg)) s1 of
             Waits \<Rightarrow> Stuck
           | Panics \<Rightarrow> Crashed
           | Returns (Some e, _) \<Rightarrow> Fatal e
           | Returns (None, s2) \<Rightarrow> Running s2))"

definition sub_result :: "(string \<Rightarrow> string option) \<Rightarrow> sub_settings \<Rightarrow> int \<Rightarrow> sub_stats \<Rightarrow> results" where
  "sub_result getenv cfg elapsed st =
     [(''scenario'', JText (ss_scenario cfg)), (''role'', JText ''sub'')] @ receive_entries cfg elapsed st @
     [(''network'', JTexts (netCfg getenv))]"

definition sub_main ::
    "host \<Rightarrow> 't transports \<Rightarrow> ('t \<Rightarrow> gocontext \<Rightarrow> string \<Rightarrow> nat \<Rightarrow> attempt) \<Rightarrow> ctx
       \<Rightarrow> conn_id \<Rightarrow> store \<Rightarrow> int \<Rightarrow> (int \<times> (('t sub_socket \<Rightarrow> 't sub_socket) \<times> nat) \<times> int) list \<Rightarrow> int
       \<Rightarrow> (written_result \<times> 't sub_socket) program" where
  "sub_main h db env limit c st start rounds elapsed =
     (let getenv = h_getenv h;
          cfg = read_sub_settings getenv ''quic://pub:9900'' in
      case sub_open db env limit c cfg st of
        Running s \<Rightarrow>
          (case receive_rounds sub_call (start + grace_duration (ss_dur cfg)) rounds (s, sub_start) of
             Running (s1, stats) \<Rightarrow> Running (writeResult h ''sub'' (sub_result getenv cfg elapsed stats), snd (socket_Close base_ops s1))
           | Fatal e \<Rightarrow> Fatal e
           | Crashed \<Rightarrow> Crashed
           | Stuck \<Rightarrow> Stuck)
      | Fatal e \<Rightarrow> Fatal e
      | Crashed \<Rightarrow> Crashed
      | Stuck \<Rightarrow> Stuck)"

text \<open>
  \<^verbatim>\<open>dsub\<close>. The state of its loop has the datagrams that wait in the library beside the socket; the
  circumstances of a call are the datagrams that arrive before or during it, and the error of the receive
  that finds none.
\<close>

definition dsub_call ::
    "bytes list \<times> go_error \<Rightarrow> dsub_socket \<times> bytes list
       \<Rightarrow> ((msg \<times> go_error option) \<times> dsub_socket \<times> bytes list) blocking" where
  "dsub_call = (\<lambda>(arriving, e) (s, queue).
     case dsub_Recv s (queue @ arriving) e of (r, rest) \<Rightarrow> Returns (r, s, rest))"

definition measuring_dsub :: dsub_socket where
  "measuring_dsub =
     NewDatagramSub background
       ([WithDialerMaxRetries (-1), WithDialTimeout (30 * 1000000000), WithTimeout (500 * 1000000)]
          :: ((unit, nat) socket \<Rightarrow> (unit, nat) socket) list)"

definition dsub_open :: "dsub_net \<Rightarrow> sub_settings \<Rightarrow> dsub_socket program" where
  "dsub_open net cfg =
     (case dsub_Dial net (ss_addr cfg) measuring_dsub of
        (Some e, _, _) \<Rightarrow> Fatal e
      | (None, s, _) \<Rightarrow>
          (case dsub_SetOption OptionSubscribe (AnyString (ss_topic cfg)) s of
             None \<Rightarrow> Crashed
           | Some (Some e, _) \<Rightarrow> Fatal e
           | Some (None, s1) \<Rightarrow> Running s1))"

definition dsub_result :: "(string \<Rightarrow> string option) \<Rightarrow> sub_settings \<Rightarrow> int \<Rightarrow> sub_stats \<Rightarrow> results" where
  "dsub_result getenv cfg elapsed st =
     [(''scenario'', JText (ss_scenario cfg)), (''role'', JText ''dsub''), (''transport'', JText ''datagram'')] @
     receive_entries cfg elapsed st @ [(''network'', JTexts (netCfg_short getenv))]"

definition dsub_main ::
    "host \<Rightarrow> dsub_net \<Rightarrow> int \<Rightarrow> (int \<times> (bytes list \<times> go_error) \<times> int) list \<Rightarrow> int
       \<Rightarrow> (written_result \<times> dsub_socket) program" where
  "dsub_main h net start rounds elapsed =
     (let getenv = h_getenv h;
          cfg = read_sub_settings getenv ''quic://dpub:9902'' in
      case dsub_open net cfg of
        Running s \<Rightarrow>
          (case receive_rounds dsub_call (start + grace_duration (ss_dur cfg)) rounds ((s, []), sub_start) of
             Running ((s1, left), stats) \<Rightarrow> Running (writeResult h ''dsub'' (dsub_result getenv cfg elapsed stats), fst (snd (dsub_Close s1)))
           | Fatal e \<Rightarrow> Fatal e
           | Crashed \<Rightarrow> Crashed
           | Stuck \<Rightarrow> Stuck)
      | Fatal e \<Rightarrow> Fatal e
      | Crashed \<Rightarrow> Crashed
      | Stuck \<Rightarrow> Stuck)"

section \<open>Requester and replier\<close>

record req_settings =
  rs_addr :: string
  rs_concurrency :: int
  rs_size :: int
  rs_dur :: int
  rs_scenario :: string

definition read_req_settings :: "(string \<Rightarrow> string option) \<Rightarrow> req_settings" where
  "read_req_settings getenv =
     \<lparr>rs_addr = env_or getenv ''SERVER_ADDR'' ''quic://rep:9901'',
      rs_concurrency = env_int getenv ''CONCURRENCY'' ''5'', rs_size = env_int getenv ''MSG_SIZE'' ''256'',
      rs_dur = env_int getenv ''DURATION'' ''30'', rs_scenario = env_or getenv ''SCENARIO'' ''custom''\<rparr>"

text \<open>The payload of a request: a copy of the padding, which has its size.\<close>

definition req_payload :: "int \<Rightarrow> bytes \<Rightarrow> bytes" where
  "req_payload msgSize padding = snd (go_copy (replicate (nat msgSize) 0) padding)"

text \<open>
  A round of a worker: the clock at its head and before \<^verbatim>\<open>Send\<close>, what happens to the socket before
  \<^verbatim>\<open>Send\<close> and between \<^verbatim>\<open>Send\<close> and \<^verbatim>\<open>Recv\<close>, and the clock after it.
\<close>

record req_round =
  rq_now :: int
  rq_sendNs :: int
  rq_before :: "req_pools \<Rightarrow> req_pools"
  rq_between :: "req_pools \<Rightarrow> req_pools"
  rq_recvNs :: int

fun req_rounds ::
    "int \<Rightarrow> bytes \<Rightarrow> int \<Rightarrow> req_round list \<Rightarrow> req_pools \<times> int \<times> int \<times> int list
       \<Rightarrow> (req_pools \<times> int \<times> int \<times> int list) program" where
  "req_rounds msgSize padding deadline [] ps = Stuck"
| "req_rounds msgSize padding deadline (r # rest) (p, reqs, errors, lats) =
     (if rq_now r < deadline
      then (case req_Send (NewMsg (req_payload msgSize padding)) (rq_before r p) of
              (Some e, p1) \<Rightarrow> req_rounds msgSize padding deadline rest (p1, reqs, wrap64 (errors + 1), lats)
            | (None, p1) \<Rightarrow>
                (case req_Recv (rq_between r p1) of
                   ((m, Some e), p2) \<Rightarrow> req_rounds msgSize padding deadline rest (p2, reqs, wrap64 (errors + 1), lats)
                 | ((m, None), p2) \<Rightarrow>
                     req_rounds msgSize padding deadline rest
                       (p2, wrap64 (reqs + 1), errors, lats @ [wrap64 (rq_recvNs r - rq_sendNs r)])))
      else Running (p, reqs, errors, lats))"

definition measuring_req :: "gocontext \<Rightarrow> store \<Rightarrow> (req_pools, 't) socket" where
  "measuring_req limited st =
     NewReq (Some limited)
       [WithDialerMaxRetries (-1), WithDialTimeout (30 * 1000000000), WithAutomaticReconnect False,
        WithTimeout (2 * 1000000000)] st"

text \<open>
  A worker; \<open>limited\<close> is its context with a deadline. Its counts are \<open>None\<close> when it could not connect: it
  then adds nothing to the totals. The socket is closed either way.
\<close>

definition req_worker ::
    "'t transports \<Rightarrow> ('t \<Rightarrow> gocontext \<Rightarrow> string \<Rightarrow> nat \<Rightarrow> attempt) \<Rightarrow> gocontext \<Rightarrow> conn_id \<Rightarrow> req_settings
       \<Rightarrow> bytes \<Rightarrow> store \<Rightarrow> int \<Rightarrow> req_round list \<Rightarrow> ((int \<times> int \<times> int list) option \<times> (req_pools, 't) socket) program" where
  "req_worker db env limited c cfg padding st deadline rounds =
     (case socket_Dial db req_ops None env c (rs_addr cfg) (measuring_req limited st) of
        Waits \<Rightarrow> Stuck
      | Panics \<Rightarrow> Crashed
      | Returns (Some e, s) \<Rightarrow> Running (None, snd (socket_Close req_ops s))
      | Returns (None, s) \<Rightarrow>
          (case req_rounds (rs_size cfg) padding deadline rounds (pools s, 0, 0, []) of
             Running (p, counts) \<Rightarrow> Running (Some counts, snd (socket_Close req_ops (s\<lparr>pools := p\<rparr>)))
           | Fatal e \<Rightarrow> Fatal e
           | Crashed \<Rightarrow> Crashed
           | Stuck \<Rightarrow> Stuck))"

definition req_result ::
    "(string \<Rightarrow> string option) \<Rightarrow> req_settings \<Rightarrow> int \<Rightarrow> int \<times> int \<times> int list \<Rightarrow> results" where
  "req_result getenv cfg elapsed = (\<lambda>(totalReqs, totalErrors, latencies).
     let sorted1 = sort latencies in
     [(''scenario'', JText (rs_scenario cfg)),
      (''role'', JText ''req''),
      (''server_addr'', JText (rs_addr cfg)),
      (''concurrency'', JInt (rs_concurrency cfg)),
      (''config_size'', JInt (rs_size cfg)),
      (''duration_s'', JFloat (SecondsOf elapsed)),
      (''reqs_sent'', JInt totalReqs),
      (''errors'', JInt totalErrors),
      (''actual_rate'', JFloat (FloatDiv (FloatOf totalReqs) (SecondsOf elapsed))),
      (''rtt_p50_ms'', JFloat (ns_ms (pct sorted1 50))),
      (''rtt_p95_ms'', JFloat (ns_ms (pct sorted1 95))),
      (''rtt_p99_ms'', JFloat (ns_ms (pct sorted1 99))),
      (''rtt_max_ms'', JFloat (ns_ms (pct sorted1 100))),
      (''rtt_samples'', JInt (int (length sorted1))),
      (''network'', JTexts (netCfg getenv))])"

text \<open>
  \<^verbatim>\<open>req\<close>: what each worker meets, by its number, and \<open>order\<close>, which puts the workers into the order in which
  they add their counts; \<open>limited\<close> makes a context with a deadline. A panic in a worker ends the program;
  otherwise it waits for all of them.
\<close>

definition added_counts :: "('c option \<times> 's) program \<Rightarrow> 'c list" where
  "added_counts r = (case r of Running (Some counts, s) \<Rightarrow> [counts] | _ \<Rightarrow> [])"

definition crashed :: "'a program \<Rightarrow> bool" where
  "crashed r = (case r of Crashed \<Rightarrow> True | _ \<Rightarrow> False)"

definition stuck :: "'a program \<Rightarrow> bool" where
  "stuck r = (case r of Stuck \<Rightarrow> True | _ \<Rightarrow> False)"

definition req_main ::
    "host \<Rightarrow> 't transports \<Rightarrow> (int \<Rightarrow> gocontext) \<Rightarrow> (nat \<Rightarrow> bytes) \<Rightarrow> int
       \<Rightarrow> (nat \<Rightarrow> ('t \<Rightarrow> gocontext \<Rightarrow> string \<Rightarrow> nat \<Rightarrow> attempt) \<times> conn_id \<times> store \<times> req_round list)
       \<Rightarrow> (nat list \<Rightarrow> nat list) \<Rightarrow> int \<Rightarrow> written_result program" where
  "req_main h db limited random now met order elapsed =
     (let getenv = h_getenv h; cfg = read_req_settings getenv in
      if rs_size cfg < 0 then Crashed
      else let padding = random (nat (rs_size cfg));
               deadline = now + duration_of (rs_dur cfg);
               worker = (\<lambda>w. case met w of (env, c, st, rounds) \<Rightarrow>
                 req_worker db env (limited (deadline + 5 * 1000000000)) c cfg padding st deadline rounds);
               results1 = map worker (order [0..<nat (rs_concurrency cfg)]) in
           if list_ex crashed results1 then Crashed
           else if list_ex stuck results1 then Stuck
           else Running (writeResult h ''req'' (req_result getenv cfg elapsed
                  (req_totals (concat (map added_counts results1)) (0, 0, [])))))"

text \<open>
  \<^verbatim>\<open>rep\<close>. A round: the clock at its head, what happens to the socket before each of the two calls with the
  choices of their selects, and the state of the socket's context, which has a deadline.
\<close>

record rep_round =
  rp_now :: int
  rp_before :: "rep_pools \<Rightarrow> rep_pools"
  rp_recv :: "nat \<times> ctx"
  rp_between :: "rep_pools \<Rightarrow> rep_pools"
  rp_send :: "nat \<times> ctx \<times> ctx"

fun rep_rounds ::
    "int \<Rightarrow> rep_round list \<Rightarrow> rep_pools \<times> int \<times> int \<Rightarrow> (rep_pools \<times> int \<times> int) program" where
  "rep_rounds deadline [] ps = Stuck"
| "rep_rounds deadline (r # rest) (p, handled, errs) =
     (if rp_now r < deadline
      then (case rep_Recv (fst (rp_recv r)) (snd (rp_recv r)) (rp_before r p) of
              Waits \<Rightarrow> Stuck
            | Panics \<Rightarrow> Crashed
            | Returns ((m, Some e), p1) \<Rightarrow> rep_rounds deadline rest (p1, handled, errs)
            | Returns ((m, None), p1) \<Rightarrow>
                (case rep_Send (fst (rp_send r)) (fst (snd (rp_send r))) (snd (snd (rp_send r))) m (rp_between r p1) of
                   Waits \<Rightarrow> Stuck
                 | Panics \<Rightarrow> Crashed
                 | Returns (Some e, p2) \<Rightarrow> rep_rounds deadline rest (p2, handled, wrap64 (errs + 1))
                 | Returns (None, p2) \<Rightarrow> rep_rounds deadline rest (p2, wrap64 (handled + 1), errs)))
      else Running (p, handled, errs))"

definition rep_result ::
    "(string \<Rightarrow> string option) \<Rightarrow> string \<Rightarrow> string \<Rightarrow> int \<Rightarrow> int \<Rightarrow> int \<Rightarrow> results" where
  "rep_result getenv listenAddr scenario elapsed handled errs =
     [(''scenario'', JText scenario),
      (''role'', JText ''rep''),
      (''listen_addr'', JText listenAddr),
      (''duration_s'', JFloat (SecondsOf elapsed)),
      (''reqs_handled'', JInt handled),
      (''errors'', JInt errs),
      (''actual_rate'', JFloat (FloatDiv (FloatOf handled) (SecondsOf elapsed))),
      (''network'', JTexts (netCfg_short getenv))]"

text \<open>\<open>limited\<close> makes the context with a timeout.\<close>

definition rep_main ::
    "host \<Rightarrow> 't transports \<Rightarrow> ('t \<Rightarrow> gocontext \<Rightarrow> string \<Rightarrow> go_error + nat)
       \<Rightarrow> (int \<Rightarrow> gocontext) \<Rightarrow> store \<Rightarrow> int \<Rightarrow> rep_round list \<Rightarrow> int
       \<Rightarrow> (written_result \<times> (rep_pools, 't) socket) program" where
  "rep_main h db listen limited st start rounds elapsed =
     (let getenv = h_getenv h;
          listenAddr = env_or getenv ''LISTEN_ADDR'' ''quic://0.0.0.0:9901'';
          durSec = env_int getenv ''DURATION'' ''30'';
          scenario = env_or getenv ''SCENARIO'' ''custom'';
          dur = duration_of durSec;
          rep = NewRep (Some (limited (wrap64 (dur + 5 * 1000000000)))) [WithTimeout (500 * 1000000)] st in
      case socket_Listen db listen listenAddr rep of
        (Some e, _) \<Rightarrow> Fatal e
      | (None, s) \<Rightarrow>
          (case rep_rounds (start + dur) rounds (pools s, 0, 0) of
             Running (p, handled, errs) \<Rightarrow>
               Running (writeResult h ''rep'' (rep_result getenv listenAddr scenario elapsed handled errs),
                        snd (socket_Close rep_ops (s\<lparr>pools := p\<rparr>)))
           | Fatal e \<Rightarrow> Fatal e
           | Crashed \<Rightarrow> Crashed
           | Stuck \<Rightarrow> Stuck))"

section \<open>Lemmas on the publishers\<close>

lemma length_go_copy: "go_copy dst src = (n, d) \<Longrightarrow> length d = length dst \<and> n \<le> length dst"
  by (auto simp: go_copy_def Let_def)

lemma pub_frame_total:
  assumes "0 \<le> msgSize"
  obtains f where "pub_frame topic msgSize padding seq now = Some f" "length f = nat msgSize"
    "length topic \<le> nat msgSize \<Longrightarrow> prefix topic (string_of_bytes f)"
proof -
  let ?h = "pub_header topic seq now"
  let ?n = "min (nat msgSize) (length ?h)"
  obtain n frame where c: "go_copy (replicate (nat msgSize) 0) (bytes_of_string ?h) = (n, frame)" by (metis surj_pair)
  then have n: "n = ?n" "frame = take ?n (bytes_of_string ?h) @ replicate (nat msgSize - ?n) 0"
    by (auto simp: go_copy_def Let_def)
  let ?f = "take n frame @ snd (go_copy (drop n frame) padding)"
  have "pub_frame topic msgSize padding seq now = Some ?f"
    using assms c by (simp add: pub_frame_def)
  moreover have "length ?f = nat msgSize"
    using length_go_copy [OF c] length_go_copy [of "drop n frame" padding] by (cases "go_copy (drop n frame) padding") simp
  moreover have "prefix topic (string_of_bytes ?f)" if "length topic \<le> nat msgSize"
  proof -
    have "take n frame = take ?n (bytes_of_string ?h)" using n by simp
    then have "string_of_bytes (take n frame) = take ?n ?h"
      by (simp add: string_of_bytes_def bytes_of_string_def comp_def take_map)
    moreover have "prefix topic (take ?n ?h)"
      using that by (simp add: pub_header_def prefix_def)
    ultimately show ?thesis by (auto simp: string_of_bytes_def prefix_def)
  qed
  ultimately show ?thesis by (rule that)
qed

lemma length_datagram: "length (serializeMsgDatagram (NewMsg f)) = length f + 5"
  by (simp add: serializeMsgDatagram_wire NewMsg_def)

lemma dpub_Send_nobody: "peerList s = [] \<Longrightarrow> dpub_Send supports send (NewMsg f) s = (None, s, [])"
  by (simp add: dpub_Send_def NewMsg_def Let_def)

lemma dpub_Send_refused:
  assumes "distinct (peerList s)" and "peerList s \<noteq> []"
    and "\<And>i. i \<in> set (peerList s) \<Longrightarrow> \<exists>k \<in> set (dg_topics (peers s i)). prefix k (string_of_bytes f)"
    and "\<And>q. send q (serializeMsgDatagram (NewMsg f)) \<noteq> None"
  shows "\<exists>e. dpub_Send (\<lambda>_. True) send (NewMsg f) s = (Some e, s\<lparr>peerList := []\<rparr>,
    map (\<lambda>i. (dg_qconn (peers s i), serializeMsgDatagram (NewMsg f))) (peerList s))"
proof -
  have to: "recipients (\<lambda>_. True) (peers s) (string_of_bytes f) (peerList s) = peerList s"
    using assms(3) by (simp add: recipients_def)
  have failed: "filter (\<lambda>i. send (dg_qconn (peers s i)) (serializeMsgDatagram (NewMsg f)) \<noteq> None) (peerList s) = peerList s"
    using assms(4) by simp
  obtain i others where l: "peerList s = i # others" using assms(2) by (cases "peerList s") auto
  obtain e where e: "send (dg_qconn (peers s i)) (serializeMsgDatagram (NewMsg f)) = Some e" using assms(4) by blast
  have "dpub_send_loop (\<lambda>_. True) send (peers s) (string_of_bytes f) (serializeMsgDatagram (NewMsg f)) (peerList s) None [] [] =
      (Some e, peerList s, map (\<lambda>i. (dg_qconn (peers s i), serializeMsgDatagram (NewMsg f))) (peerList s))"
    unfolding dpub_send_loop_spec Let_def to failed using l e by simp
  moreover have "remove_dead (peerList s) (peerList s) = []"
    using remove_dead_filter [OF assms(1), of "peerList s"] by simp
  ultimately show ?thesis using assms(2) by (simp add: dpub_Send_def NewMsg_def Let_def)
qed

text \<open>Rounds in which nobody but the library, with the answers \<open>send\<close>, does anything.\<close>

definition quiet_rounds ::
    "(qconn_id \<Rightarrow> bytes \<Rightarrow> go_error option) \<Rightarrow> (int \<times> int) list
       \<Rightarrow> (int \<times> ((dpub_socket \<Rightarrow> dpub_socket) \<times> (qconn_id \<Rightarrow> bool) \<times> (qconn_id \<Rightarrow> bytes \<Rightarrow> go_error option)) wake) list" where
  "quiet_rounds send ticks = map (\<lambda>(now, t). (now, Ticked t (\<lambda>s. s, \<lambda>_. True, send))) ticks"

lemma publish_rounds_stop:
  "\<not> stop < deadline \<Longrightarrow> publish_rounds send topic msgSize padding deadline ((stop, w) # rest) ss = Running ss"
  by (cases w; cases ss) auto

lemma dpub_rounds_nobody:
  "\<forall>now t. (now, t) \<in> set ticks \<longrightarrow> now < deadline \<Longrightarrow> \<not> stop < deadline \<Longrightarrow> peerList s = [] \<Longrightarrow> 0 \<le> msgSize \<Longrightarrow>
   0 \<le> pst_seq st \<Longrightarrow> pst_seq st + int (length ticks) < 2 ^ 63 \<Longrightarrow>
   0 \<le> pst_sent st \<Longrightarrow> pst_sent st + int (length ticks) < 2 ^ 63 \<Longrightarrow>
   publish_rounds dpub_call topic msgSize padding deadline (quiet_rounds send ticks @ (stop, w) # rest) ((s, tr), st) =
     Running ((s, tr), st\<lparr>pst_seq := pst_seq st + int (length ticks), pst_sent := pst_sent st + int (length ticks)\<rparr>)"
proof (induction ticks arbitrary: st)
  case Nil
  then show ?case by (simp add: quiet_rounds_def publish_rounds_stop)
next
  case (Cons a ticks)
  obtain now t where a: "a = (now, t)" by (cases a)
  have small: "wrap64 (pst_seq st + 1) = pst_seq st + 1" "wrap64 (pst_sent st + 1) = pst_sent st + 1"
    using Cons.prems by (simp_all add: wrap64_small)
  obtain f where f: "pub_frame topic msgSize padding (pst_seq st + 1) t = Some f"
    using pub_frame_total [OF Cons.prems(4)] by blast
  let ?st = "st\<lparr>pst_seq := pst_seq st + 1, pst_sent := pst_sent st + 1\<rparr>"
  have "publish_rounds dpub_call topic msgSize padding deadline (quiet_rounds send (a # ticks) @ (stop, w) # rest) ((s, tr), st) =
      publish_rounds dpub_call topic msgSize padding deadline (quiet_rounds send ticks @ (stop, w) # rest) ((s, tr), ?st)"
    using a Cons.prems(1) f small dpub_Send_nobody [OF Cons.prems(3)]
    by (simp add: quiet_rounds_def dpub_call_def)
  also have "\<dots> = Running ((s, tr), ?st\<lparr>pst_seq := pst_seq ?st + int (length ticks), pst_sent := pst_sent ?st + int (length ticks)\<rparr>)"
    using Cons.prems a by (intro Cons.IH) auto
  finally show ?case by simp
qed

section \<open>Lemmas on the programs and their rounds\<close>

text \<open>What a finished loop has done is a run of the rounds in the theory \<open>Scenarios\<close>.\<close>

lemma dpub_Send_datagrams: "dpub_Send supports send m s = (e, s1, tr) \<Longrightarrow> \<forall>d \<in> snd ` set tr. d = serializeMsgDatagram m"
  by (auto simp: dpub_Send_def dpub_send_loop_spec Let_def split: if_splits)

lemma dpub_rounds_turns:
  "publish_rounds dpub_call topic msgSize padding deadline rounds ((s, sent), st) = Running ((s1, sent1), st1) \<Longrightarrow>
     \<exists>ts ms. pub_turns topic msgSize padding ts st = Some (ms, st1) \<and>
       (\<forall>t e. Tick t e \<in> set ts \<longrightarrow> (\<exists>now r. (now, Ticked t r) \<in> set rounds)) \<and>
       (\<forall>d \<in> snd ` set sent1. d \<in> snd ` set sent \<or> (\<exists>m \<in> set ms. d = serializeMsgDatagram m))"
proof (induction rounds arbitrary: s sent st)
  case Nil
  then show ?case by simp
next
  case (Cons a rounds)
  obtain now w where a: "a = (now, w)" by (cases a)
  show ?case
  proof (cases "\<exists>t r. w = Ticked t r \<and> now < deadline")
    case False
    then have "publish_rounds dpub_call topic msgSize padding deadline (a # rounds) ((s, sent), st) = Running ((s, sent), st)"
      by (cases w) (auto simp: a)
    with Cons.prems show ?thesis by (intro exI [of _ "[]"] exI [of _ "[]"]) auto
  next
    case True
    then obtain t before supports send where
      w: "w = Ticked t (before, supports, send)" "now < deadline" by (metis prod_cases3)
    let ?q = "wrap64 (pst_seq st + 1)"
    let ?st = "st\<lparr>pst_seq := ?q\<rparr>"
    from Cons.prems a w obtain f where f: "pub_frame topic msgSize padding ?q t = Some f"
      by (cases "pub_frame topic msgSize padding ?q t") (auto simp: Let_def)
    obtain e s2 tr where send: "dpub_Send supports send (NewMsg f) (before s) = (e, s2, tr)" by (metis surj_pair)
    then have call: "dpub_call (before, supports, send) (NewMsg f) (s, sent) = Some (e, s2, sent @ tr)"
      by (simp add: dpub_call_def)
    let ?next = "if e \<noteq> None then ?st\<lparr>pst_errs := wrap64 (pst_errs ?st + 1)\<rparr> else ?st\<lparr>pst_sent := wrap64 (pst_sent ?st + 1)\<rparr>"
    have "publish_rounds dpub_call topic msgSize padding deadline rounds ((s2, sent @ tr), ?next) = Running ((s1, sent1), st1)"
      using Cons.prems a w f call by (cases e) (simp_all add: Let_def)
    from Cons.IH [OF this] obtain ts ms where
      ts: "pub_turns topic msgSize padding ts ?next = Some (ms, st1)"
        "\<forall>t e. Tick t e \<in> set ts \<longrightarrow> (\<exists>now r. (now, Ticked t r) \<in> set rounds)"
        "\<forall>d \<in> snd ` set sent1. d \<in> snd ` set (sent @ tr) \<or> (\<exists>m \<in> set ms. d = serializeMsgDatagram m)" by blast
    have "pub_turns topic msgSize padding (Tick t e # ts) st = Some (NewMsg f # ms, st1)"
      using ts(1) f by (simp add: Let_def)
    moreover have "\<exists>now r. (now, Ticked t1 r) \<in> set (a # rounds)" if "Tick t1 e1 \<in> set (Tick t e # ts)" for t1 e1
    proof (cases "Tick t1 e1 \<in> set ts")
      case True
      with ts(2) obtain now1 r where "(now1, Ticked t1 r) \<in> set rounds" by blast
      then show ?thesis by (meson list.set_intros(2))
    next
      case False
      with that have "t1 = t" by simp
      with a w(1) show ?thesis by (meson list.set_intros(1))
    qed
    moreover have "d \<in> snd ` set sent \<or> (\<exists>m \<in> set (NewMsg f # ms). d = serializeMsgDatagram m)" if "d \<in> snd ` set sent1" for d
      using bspec [OF ts(3) that, unfolded set_append image_Un] dpub_Send_datagrams [OF send]
      by (simp only: list.set) blast
    ultimately show ?thesis by blast
  qed
qed

lemma publish_run_turns:
  assumes "publish_run dpub_call cfg random start rounds (s, []) = Running ((s1, sent), st)"
  shows "\<exists>ts ms. pub_turns (ps_topic cfg) (ps_size cfg) (random (pub_padding_size (ps_size cfg))) ts pub_start = Some (ms, st) \<and>
    (\<forall>t e. Tick t e \<in> set ts \<longrightarrow> (\<exists>now r. (now, Ticked t r) \<in> set rounds)) \<and>
    (\<forall>d \<in> snd ` set sent. \<exists>m \<in> set ms. d = serializeMsgDatagram m)"
proof -
  from assms have "publish_rounds dpub_call (ps_topic cfg) (ps_size cfg) (random (pub_padding_size (ps_size cfg)))
      (start + duration_of (ps_dur cfg)) rounds ((s, []), pub_start) = Running ((s1, sent), st)"
    by (simp add: publish_run_def split: option.splits)
  from dpub_rounds_turns [OF this] show ?thesis by simp
qed

lemma NewMsg_inject: "NewMsg f = NewMsg g \<longleftrightarrow> f = g"
  by (auto dest: arg_cong [of _ _ Frames])

lemma pub_turns_sizes:
  "pub_turns topic msgSize padding ts s = Some (ms, s') \<Longrightarrow> m \<in> set ms \<Longrightarrow> \<exists>f. m = NewMsg f \<and> length f = nat msgSize"
proof (induction ts arbitrary: s ms)
  case Nil
  then show ?case by simp
next
  case (Cons t ts)
  show ?case
  proof (cases t)
    case PubCtxDone
    with Cons.prems show ?thesis by simp
  next
    case (Tick now err)
    let ?f = "pub_frame topic msgSize padding (wrap64 (pst_seq s + 1)) now"
    have size: "0 \<le> msgSize" using Cons.prems(1) Tick by (auto simp: pub_frame_def Let_def split: if_splits)
    then obtain f where f: "?f = Some f" "length f = nat msgSize" by (metis pub_frame_total)
    with Cons.prems(1) Tick obtain ms1 s1 where "ms = NewMsg f # ms1" "pub_turns topic msgSize padding ts s1 = Some (ms1, s')"
      by (auto simp: Let_def split: if_splits)
    with Cons.IH Cons.prems(2) f(2) show ?thesis by auto
  qed
qed

lemma dsub_recv_loop_from:
  "dsub_recv_loop s ds e = ((m, err), rest) \<Longrightarrow>
     set rest \<subseteq> set ds \<and> (err = None \<longrightarrow> (\<exists>d \<in> set ds. m = fst (deserializeMsgDatagram d)))"
  by (induction ds) (auto split: prod.splits option.splits if_splits)

lemma dsub_Recv_from:
  "dsub_Recv s ds e = ((m, err), rest) \<Longrightarrow>
     set rest \<subseteq> set ds \<and> (err = None \<longrightarrow> (\<exists>d \<in> set ds. m = fst (deserializeMsgDatagram d)))"
  using dsub_recv_loop_from by (auto simp: dsub_Recv_def split: if_splits)

lemma receive_rounds_turns:
  "receive_rounds dsub_call deadline rounds ((s, wq), st) = Running (end1, st1) \<Longrightarrow>
     \<exists>results. st1 = sub_turns results st \<and>
       (\<forall>m t. ((m, None), t) \<in> set results \<longrightarrow>
          (\<exists>d. m = fst (deserializeMsgDatagram d) \<and>
            (d \<in> set wq \<or> (\<exists>now arriving e t. (now, (arriving, e), t) \<in> set rounds \<and> d \<in> set arriving))))"
proof (induction rounds arbitrary: s wq st)
  case Nil
  then show ?case by simp
next
  case (Cons a rounds)
  obtain now arriving e t where a: "a = (now, (arriving, e), t)" by (metis surj_pair)
  show ?case
  proof (cases "now < deadline")
    case False
    with Cons.prems a show ?thesis by (intro exI [of _ "[]"]) auto
  next
    case True
    obtain m err rest where r: "dsub_Recv s (wq @ arriving) e = ((m, err), rest)" by (metis surj_pair)
    note from_queue = dsub_Recv_from [OF r]
    have "receive_rounds dsub_call deadline rounds
        ((s, rest), if err \<noteq> None then st else sub_message m t st) = Running (end1, st1)"
      using Cons.prems a True r by (simp add: dsub_call_def)
    from Cons.IH [OF this] obtain results where
      results: "st1 = sub_turns results (if err \<noteq> None then st else sub_message m t st)"
        "\<forall>m t. ((m, None), t) \<in> set results \<longrightarrow>
          (\<exists>d. m = fst (deserializeMsgDatagram d) \<and>
            (d \<in> set rest \<or> (\<exists>now arriving e t. (now, (arriving, e), t) \<in> set rounds \<and> d \<in> set arriving)))"
      by blast
    have "st1 = sub_turns (((m, err), t) # results) st" using results(1) by simp
    moreover have "\<exists>d. x = fst (deserializeMsgDatagram d) \<and>
        (d \<in> set wq \<or> (\<exists>now arriving e t. (now, (arriving, e), t) \<in> set (a # rounds) \<and> d \<in> set arriving))"
      if "((x, None), y) \<in> set (((m, err), t) # results)" for x y
    proof (cases "((x, None), y) \<in> set results")
      case True
      with results(2) obtain d where d: "x = fst (deserializeMsgDatagram d)"
        "d \<in> set rest \<or> (\<exists>now arriving e t. (now, (arriving, e), t) \<in> set rounds \<and> d \<in> set arriving)" by blast
      then show ?thesis using from_queue a by (intro exI [of _ d]) fastforce
    next
      case False
      with that have "x = m" "err = None" by auto
      with from_queue obtain d where "d \<in> set (wq @ arriving)" "x = fst (deserializeMsgDatagram d)" by auto
      then show ?thesis using a by (intro exI [of _ d]) fastforce
    qed
    ultimately show ?thesis by blast
  qed
qed

section \<open>Properties\<close>


definition demo_getenv :: "string \<Rightarrow> string option" where
  "demo_getenv k = (if k = ''MSG_SIZE'' then Some ''1400'' else None)"

definition demo_dpub_new :: dpub_socket where
  "demo_dpub_new = NewDatagramPub background ([] :: ((unit, nat) socket \<Rightarrow> (unit, nat) socket) list)"

definition demo_joining :: "dpub_socket \<Rightarrow> dpub_socket" where
  "demo_joining s = s\<lparr>peerList := [1, 2], peers := (\<lambda>i. \<lparr>dg_qconn = i, dg_topics = [''data'']\<rparr>)\<rparr>"

definition demo_limited :: "qconn_id \<Rightarrow> bytes \<Rightarrow> go_error option" where
  "demo_limited q d = (if 1200 < length d then Some EOF else None)"

lemmas demo_settings =
  dpub_settings_def read_pub_settings_def env_int_def env_or_def demo_getenv_def Atoi_def ParseInt_def
  parse_magnitude_def is_digit_def digit_value_def


lemma receive_rounds_end:
  "(\<And>r s. \<exists>x. receive r s = Returns x) \<Longrightarrow> \<exists>r \<in> set rounds. deadline \<le> fst r \<Longrightarrow>
     \<exists>end1. receive_rounds receive deadline rounds ss = Running end1"
proof (induction rounds arbitrary: ss)
  case Nil
  then show ?case by simp
next
  case (Cons a rounds)
  obtain now r t where a: "a = (now, r, t)" by (cases a)
  obtain s st where ss: "ss = (s, st)" by (cases ss)
  from Cons.prems(1) [of r s] obtain m err s1 where "receive r s = Returns ((m, err), s1)" by (metis surj_pair)
  with Cons a ss show ?case by (cases "now < deadline") auto
qed

lemma dsub_call_returns: "\<exists>x. dsub_call r s = Returns x"
  by (simp add: dsub_call_def split: prod.split)

lemma dpub_rounds_end:
  "0 \<le> msgSize \<Longrightarrow> \<exists>r \<in> set rounds. deadline \<le> fst r \<Longrightarrow>
     \<exists>end1. publish_rounds dpub_call topic msgSize padding deadline rounds ss = Running end1"
proof (induction rounds arbitrary: ss)
  case Nil
  then show ?case by simp
next
  case (Cons a rounds)
  obtain now w where a: "a = (now, w)" by (cases a)
  obtain s tr st where ss: "ss = ((s, tr), st)" by (metis surj_pair)
  show ?case
  proof (cases w)
    case (Ticked t r)
    obtain before supports send where r: "r = (before, supports, send)" by (cases r)
    obtain f where "pub_frame topic msgSize padding (wrap64 (pst_seq st + 1)) t = Some f"
      using pub_frame_total [OF Cons.prems(1)] by blast
    moreover obtain e s1 tr1 where "dpub_Send supports send (NewMsg f) (before s) = (e, s1, tr1)" by (metis surj_pair)
    ultimately show ?thesis
      using Cons a ss Ticked r by (cases "now < deadline") (auto simp: Let_def dpub_call_def)
  qed (simp add: a)
qed



text \<open>
  The order in which the workers of \<^verbatim>\<open>req\<close> end does not show in its result: sums wrap around the same way in any
  order, and the percentiles are those of the sorted latencies.
\<close>

lemma wrap64_add: "wrap64 (wrap64 a + b) = wrap64 (a + b)"
  unfolding wrap64_def by (metis signed_take_bit_add signed_take_bit_signed_take_bit min.idem)

lemma req_totals_sums:
  "req_totals as (wrap64 a, wrap64 b, ls) =
     (wrap64 (a + sum_list (map fst as)), wrap64 (b + sum_list (map (fst \<circ> snd) as)), ls @ concat (map (snd \<circ> snd) as))"
proof (induction as arbitrary: a b ls)
  case Nil
  then show ?case by simp
next
  case (Cons r as)
  obtain x y l where r: "r = (x, y, l)" by (cases r)
  have "req_totals (r # as) (wrap64 a, wrap64 b, ls) = req_totals as (wrap64 (a + x), wrap64 (b + y), ls @ l)"
    using r by (simp add: wrap64_add)
  then show ?case using Cons.IH [of "a + x" "b + y" "ls @ l"] r by (simp add: add.assoc)
qed

lemma sum_list_mset: "mset xs = mset ys \<Longrightarrow> sum_list (map f xs) = sum_list (map f ys)" for f :: "'a \<Rightarrow> int"
  by (metis mset_map sum_mset_sum_list)

lemma concat_mset: "mset xs = mset ys \<Longrightarrow> mset (concat (map f xs)) = mset (concat (map f ys))"
  by (metis (no_types, lifting) mset_concat mset_map map_map sum_mset_sum_list)

lemma sort_mset: "mset xs = mset ys \<Longrightarrow> sort xs = sort ys" for xs :: "int list"
  by (metis properties_for_sort sorted_sort mset_sort)

lemma req_result_mset:
  assumes "mset as = mset bs"
  shows "req_result getenv cfg elapsed (req_totals as (0, 0, [])) = req_result getenv cfg elapsed (req_totals bs (0, 0, []))"
proof -
  have zero: "(0, 0, []) = (wrap64 0, wrap64 0, [])" by (simp add: wrap64_def)
  have "length (concat (map (snd \<circ> snd) as)) = length (concat (map (snd \<circ> snd) bs))"
    using concat_mset [OF assms] by (metis size_mset)
  then show ?thesis
    using sum_list_mset [OF assms, of fst] sum_list_mset [OF assms, of "fst \<circ> snd"]
      sort_mset [OF concat_mset [OF assms, of "snd \<circ> snd"]]
    unfolding zero req_totals_sums req_result_def by (simp add: Let_def)
qed

lemma list_ex_mset: "mset xs = mset ys \<Longrightarrow> list_ex P xs = list_ex P ys"
  by (metis list_ex_iff set_mset_mset)

theorem worker_order_irrelevant:
  assumes "\<And>xs. mset (order xs) = mset xs"
  shows "req_main h db limited random now met order elapsed = req_main h db limited random now met (\<lambda>xs. xs) elapsed"
proof -
  have results: "mset (map f (order xs)) = mset (map f xs)" for f :: "nat \<Rightarrow> 'b" and xs
    using assms by simp
  show ?thesis
    unfolding req_main_def Let_def
    by (simp only: list_ex_mset [OF results] req_result_mset [OF concat_mset [OF results]])
qed

definition demo_host :: host where
  "demo_host = \<lparr>h_getenv = (\<lambda>_. None), h_marshal = (\<lambda>r. concat (map fst r)), h_name = ''h''\<rparr>"

theorem worker_order_irrelevant_witness:
  "req_main demo_host [(''quic'', 7 :: nat)] (\<lambda>_. \<lparr>ctx_err = None, ctx_values = []\<rparr>) (\<lambda>n. replicate n 7) 0
     (\<lambda>w. (\<lambda>_ _ _ _. demo_attempt True, w, fresh_store, [])) rev 9 =
   req_main demo_host [(''quic'', 7 :: nat)] (\<lambda>_. \<lparr>ctx_err = None, ctx_values = []\<rparr>) (\<lambda>n. replicate n 7) 0
     (\<lambda>w. (\<lambda>_ _ _ _. demo_attempt True, w, fresh_store, [])) (\<lambda>xs. xs) 9"
  by (rule worker_order_irrelevant) simp


definition demo_dpub_run :: "(written_result \<times> dpub_socket \<times> (qconn_id \<times> bytes) list) program" where
  "demo_dpub_run = dpub_main demo_host InsecureClientTLSConfig (Inr ''a'') (Inr 1) None (\<lambda>n. replicate n 7) 0
     [(1, Ticked 5 (demo_joining, \<lambda>_. True, \<lambda>_ _. None)), (2, Ticked 6 (\<lambda>s. s, \<lambda>_. True, \<lambda>_ _. None)),
      (30000000000, ContextDone)] 9"

definition demo_received :: "(qconn_id \<times> bytes) list \<Rightarrow> (int \<times> (bytes list \<times> go_error) \<times> int) list" where
  "demo_received sent =
     [(1, (rev (map snd sent), EOF), 7), (2, ([], EOF), 8), (40000000000, ([], EOF), 9)]"

lemmas demo_host_settings =
  demo_settings read_sub_settings_def demo_host_def duration_of_def grace_duration_def wrap64_small

lemma demo_dpub_finishes: "\<exists>wrote s sent. demo_dpub_run = Running (wrote, s, sent)"
proof -
  let ?cfg = "dpub_settings (h_getenv demo_host)"
  let ?rounds = "[(1, Ticked 5 (demo_joining, \<lambda>_. True, \<lambda>_ _. None)), (2, Ticked 6 (\<lambda>s. s, \<lambda>_. True, \<lambda>_ _. None)),
      (30000000000, ContextDone)]"
  let ?s = "(demo_dpub_new\<lparr>dp_udp := Some 1, dp_ql := True, dp_addr := Some 1\<rparr>, [])"
  have rate: "ticker_interval (ps_rate ?cfg) \<noteq> None" and dur: "duration_of (ps_dur ?cfg) = 30000000000"
    and size: "0 \<le> ps_size ?cfg" and addr: "ps_addr ?cfg = ''quic://0.0.0.0:9902''"
    by (simp_all add: demo_host_settings Let_def ticker_interval_def clamp_payload_def)
  have "\<exists>r \<in> set ?rounds. duration_of (ps_dur ?cfg) \<le> fst r" unfolding dur by simp
  from dpub_rounds_end [OF size this] rate
  obtain s sent st where run: "publish_run dpub_call ?cfg (\<lambda>n. replicate n 7) 0 ?rounds ?s = Running ((s, sent), st)"
    by (auto simp: publish_run_def) (metis surj_pair)
  have "dpub_Listen InsecureClientTLSConfig (Inr ''a'') (Inr 1) None (ps_addr ?cfg) demo_dpub_new =
      (None, fst ?s, [ListenUDP 1, ListenQUIC InsecureClientTLSConfig datagramServerQUICConfig])"
    using splitAddr_quic [of "''0.0.0.0:9902''"] addr by (simp add: dpub_Listen_def Let_def)
  with run show ?thesis
    by (simp add: demo_dpub_run_def dpub_main_def Let_def demo_dpub_new_def del: split_paired_Ex)
qed

lemma demo_dsub_finishes: "\<exists>wrote u. dsub_main demo_host demo_dsub_net 0 (demo_received sent) 9 = Running (wrote, u)"
proof -
  let ?cfg = "read_sub_settings (h_getenv demo_host) ''quic://dpub:9902''"
  have dur: "0 + grace_duration (ss_dur ?cfg) = 32000000000" and addr: "ss_addr ?cfg = ''quic://dpub:9902''"
    by (simp_all add: demo_host_settings Let_def)
  have "\<exists>x. dsub_Dial demo_dsub_net (ss_addr ?cfg) measuring_dsub = (None, x)"
    using splitAddr_quic [of "''dpub:9902''"] addr by (simp add: dsub_Dial_def demo_dsub_net_def Let_def)
  then obtain s tr where dial: "dsub_Dial demo_dsub_net (ss_addr ?cfg) measuring_dsub = (None, s, tr)" by auto
  have "ds_topics measuring_dsub = []" by (simp add: measuring_dsub_def NewDatagramSub_def Let_def)
  then have "ds_ctrl s = Some \<lparr>wr_script = [], written = []\<rparr>"
    using dsub_Dial_ok [OF dial, of "\<lparr>wr_script = [], written = []\<rparr>"] by (simp add: demo_dsub_net_def)
  then obtain x where "dsub_SetOption OptionSubscribe (AnyString (ss_topic ?cfg)) s = Some (None, x)"
    using dsub_command_healthy [of "s\<lparr>ds_topics := run_command (True, ss_topic ?cfg) (ds_topics s)\<rparr>"
        "\<lparr>wr_script = [], written = []\<rparr>" True "ss_topic ?cfg"]
    by (auto simp: dsub_SetOption_topic healthy_def)
  with dial have "\<exists>x. dsub_open demo_dsub_net ?cfg = Running x" by (simp add: dsub_open_def)
  then obtain x where opened: "dsub_open demo_dsub_net ?cfg = Running x" by blast
  have "\<exists>r \<in> set (demo_received sent). 32000000000 \<le> fst r" by (simp add: demo_received_def)
  from receive_rounds_end [of dsub_call, OF dsub_call_returns this] obtain y z st where
    "receive_rounds dsub_call 32000000000 (demo_received sent) ((x, []), sub_start) = Running ((y, z), st)"
    by (metis surj_pair)
  with opened dur show ?thesis by (simp add: dsub_main_def Let_def del: split_paired_Ex)
qed


end
