(* ===== verification/Programs.thy ===== *)
theory Programs
  imports Examples
begin

text \<open>
  The programs under \<^verbatim>\<open>example\<close> as a whole: their flags, what they print to stdout, and how they end. A
  loop is a function of what each of its rounds meets, what the network and the goroutines of the socket do
  before a call and the choices of selects; a program whose rounds are used up is still in its loop. What goes to
  the log, and the pauses between rounds, are left out.
\<close>

section \<open>Flags, output and ends\<close>

text \<open>The flags given on the command line, as \<^verbatim>\<open>flag.Parse\<close> finds them.\<close>

record given_flags =
  gf_addr :: "string option"
  gf_connectTimeout :: "duration option"
  gf_retry :: "duration option"
  gf_count :: "int option"
  gf_port :: "nat option"

definition flag_value :: "'a option \<Rightarrow> 'a \<Rightarrow> 'a" where
  "flag_value given def = (case given of None \<Rightarrow> def | Some v \<Rightarrow> v)"

datatype ending = Exited | FatalExit go_error | Panicked | StillRunning

text \<open>A run: the lines printed, and its end. A line comes before what follows it.\<close>

type_synonym run = "string list \<times> ending"

definition printing :: "string list \<Rightarrow> run \<Rightarrow> run" where
  "printing ls r = (ls @ fst r, snd r)"

text \<open>What a step of a program that may fail leads to.\<close>

definition continue :: "'a program \<Rightarrow> ('a \<Rightarrow> run) \<Rightarrow> run" where
  "continue step next =
     (case step of
        Running x \<Rightarrow> next x
      | Fatal e \<Rightarrow> ([], FatalExit e)
      | Crashed \<Rightarrow> ([], Panicked)
      | Stuck \<Rightarrow> ([], StillRunning))"

definition of_blocking :: "'a blocking \<Rightarrow> 'a program" where
  "of_blocking b = (case b of Waits \<Rightarrow> Stuck | Panics \<Rightarrow> Crashed | Returns x \<Rightarrow> Running x)"

section \<open>The requester\<close>

text \<open>
  The loop: \<open>k\<close> rounds to go from round \<open>i\<close>. The network does \<open>net i\<close> between the request and the reply.
\<close>

definition sent_line :: "nat \<Rightarrow> string" where
  "sent_line i = ''Sent: Request '' @ Sprint_d (int i + 1)"

definition received_line :: "string \<Rightarrow> string" where
  "received_line reply = ''Received: '' @ reply"

fun requester_rounds :: "(nat \<Rightarrow> req_pools \<Rightarrow> req_pools) \<Rightarrow> nat \<Rightarrow> nat \<Rightarrow> req_pools \<Rightarrow> run" where
  "requester_rounds net 0 i p = ([], Exited)"
| "requester_rounds net (Suc k) i p =
     continue (requester_send i p) (\<lambda>p1.
       printing [sent_line i]
         (continue (requester_recv (net i p1)) (\<lambda>(reply, p2).
            printing [received_line reply] (requester_rounds net k (Suc i) p2))))"

definition requester_main ::
    "given_flags \<Rightarrow> (duration \<Rightarrow> string) \<Rightarrow> go_error + iface_addr list \<Rightarrow> 't transports
       \<Rightarrow> ('t \<Rightarrow> gocontext \<Rightarrow> string \<Rightarrow> nat \<Rightarrow> attempt) \<Rightarrow> conn_id \<Rightarrow> store \<Rightarrow> (nat \<Rightarrow> req_pools \<Rightarrow> req_pools) \<Rightarrow> run" where
  "requester_main fl Duration_String addrs db env c st net =
     (let addr = flag_value (gf_addr fl) ''quic://127.0.0.1:9001'';
          connectTimeout = flag_value (gf_connectTimeout fl) 30000000000;
          retryIvl = flag_value (gf_retry fl) 250000000;
          count1 = flag_value (gf_count fl) 5 in
      printing (printLocalAddrs addrs @
          [''Connecting to '' @ addr @ '' (timeout='' @ Duration_String connectTimeout @ '')...''])
        (continue (requester_start db env c addr (example_requester connectTimeout retryIvl st)) (\<lambda>s.
           printing [''Requester connected to '' @ addr] (requester_rounds net (nat count1) 0 (socket.pools s)))))"

section \<open>The replier\<close>

text \<open>
  A round: what happens to the socket before \<^verbatim>\<open>Recv\<close> and before \<^verbatim>\<open>Send\<close>, and the choices of their selects.
\<close>

record replier_round =
  rl_before :: "rep_pools \<Rightarrow> rep_pools"
  rl_pick :: nat
  rl_between :: "rep_pools \<Rightarrow> rep_pools"
  rl_pick2 :: nat

fun replier_rounds :: "replier_round list \<Rightarrow> rep_pools \<Rightarrow> run" where
  "replier_rounds [] r = ([], StillRunning)"
| "replier_rounds (x # rest) r =
     continue (of_blocking (rep_Recv (rl_pick x) None (rl_before x r))) (\<lambda>((m, err), r1).
       (case err of
          Some e \<Rightarrow> ([], FatalExit e)
        | None \<Rightarrow>
            (case Frames m of
               [] \<Rightarrow> ([], Panicked)
             | f # _ \<Rightarrow>
                 let replyData = ''Reply to '' @ string_of_bytes f in
                 printing [''Received request: '' @ string_of_bytes f]
                   (continue (of_blocking (rep_Send (rl_pick2 x) None None (NewMsgString replyData) (rl_between x r1)))
                      (\<lambda>(err, r2).
                         (case err of
                            Some e \<Rightarrow> ([], FatalExit e)
                          | None \<Rightarrow> printing [''Sent reply: '' @ replyData] (replier_rounds rest r2)))))))"

definition replier_main ::
    "given_flags \<Rightarrow> go_error + iface_addr list \<Rightarrow> 't transports \<Rightarrow> ('t \<Rightarrow> gocontext \<Rightarrow> string \<Rightarrow> go_error + nat)
       \<Rightarrow> (nat \<Rightarrow> string) \<Rightarrow> store \<Rightarrow> replier_round list \<Rightarrow> run" where
  "replier_main fl addrs db listen addr_of st rounds =
     continue (replier_start db listen addr_of (flag_value (gf_port fl) 9001) (example_replier st)) (\<lambda>(line, s).
       printing (line # printLocalAddrs addrs) (replier_rounds rounds (socket.pools s)))"

section \<open>The publisher\<close>

text \<open>A round: what happens to the socket before \<^verbatim>\<open>Send\<close>, and the choices of its selects.\<close>

fun publisher_rounds ::
    "(((pub_pools, 't) socket \<Rightarrow> (pub_pools, 't) socket) \<times> (nat \<Rightarrow> nat)) list \<Rightarrow> nat
       \<Rightarrow> (pub_pools, 't) socket \<Rightarrow> run" where
  "publisher_rounds [] i s = ([], StillRunning)"
| "publisher_rounds ((before, picks) # rest) i s =
     continue (publisher_turn picks i (before s)) (\<lambda>(line, s1).
       printing (case line of Inl e \<Rightarrow> [] | Inr data \<Rightarrow> [''Published: '' @ data]) (publisher_rounds rest (Suc i) s1))"

definition publisher_main ::
    "given_flags \<Rightarrow> go_error + iface_addr list \<Rightarrow> 't transports \<Rightarrow> ('t \<Rightarrow> gocontext \<Rightarrow> string \<Rightarrow> go_error + nat)
       \<Rightarrow> (nat \<Rightarrow> string) \<Rightarrow> store \<Rightarrow> (((pub_pools, 't) socket \<Rightarrow> (pub_pools, 't) socket) \<times> (nat \<Rightarrow> nat)) list \<Rightarrow> run" where
  "publisher_main fl addrs db listen addr_of st rounds =
     continue (publisher_start db listen addr_of (flag_value (gf_port fl) 9000)
                 (NewPub (Some \<lparr>ctx_err = None, ctx_values = []\<rparr>) [] st)) (\<lambda>(line, s).
       printing (line # printLocalAddrs addrs) (publisher_rounds rounds 0 s))"

section \<open>The subscriber\<close>

text \<open>A round: what happens to the socket before \<^verbatim>\<open>Recv\<close>, and the choice of its select.\<close>

fun subscriber_rounds ::
    "(go_error \<Rightarrow> string) \<Rightarrow> (('t sub_socket \<Rightarrow> 't sub_socket) \<times> nat) list \<Rightarrow> 't sub_socket \<Rightarrow> run" where
  "subscriber_rounds text_of [] s = ([], StillRunning)"
| "subscriber_rounds text_of ((before, pick) # rest) s =
     continue (of_blocking (socket_Recv pick (before s))) (\<lambda>((m, err), s1).
       continue (subscriber_turn text_of (m, err)) (\<lambda>line.
         printing [case line of
             Some frame \<Rightarrow> ''Received: '' @ frame
           | None \<Rightarrow> ''recv: peer disconnected ('' @
               (case err of Some e \<Rightarrow> Error_text text_of e | None \<Rightarrow> '''') @ ''); waiting for reconnect...'']
           (subscriber_rounds text_of rest s1)))"

definition subscriber_main ::
    "given_flags \<Rightarrow> (duration \<Rightarrow> string) \<Rightarrow> (go_error \<Rightarrow> string) \<Rightarrow> go_error + iface_addr list \<Rightarrow> 't transports
       \<Rightarrow> ('t \<Rightarrow> gocontext \<Rightarrow> string \<Rightarrow> nat \<Rightarrow> attempt) \<Rightarrow> ctx \<Rightarrow> conn_id \<Rightarrow> store
       \<Rightarrow> (('t sub_socket \<Rightarrow> 't sub_socket) \<times> nat) list \<Rightarrow> run" where
  "subscriber_main fl Duration_String text_of addrs db env limit c st rounds =
     (let addr = flag_value (gf_addr fl) ''quic://127.0.0.1:9000'';
          connectTimeout = flag_value (gf_connectTimeout fl) 30000000000;
          retryIvl = flag_value (gf_retry fl) 250000000 in
      printing (printLocalAddrs addrs @
          [''Connecting to '' @ addr @ '' (timeout='' @ Duration_String connectTimeout @ '')...''])
        (continue (of_blocking (socket_Dial db base_ops (Some sub_onConnAdded) env c addr
                     (example_subscriber connectTimeout retryIvl st))) (\<lambda>(err, s1).
           (case err of
              Some e \<Rightarrow> ([], FatalExit e)
            | None \<Rightarrow>
                printing [''Subscriber connected to '' @ addr]
                  (continue (of_blocking (sub_SetOption limit OptionSubscribe (AnyString ''weather'') s1)) (\<lambda>(err, s2).
                     (case err of
                        Some e \<Rightarrow> ([], FatalExit e)
                      | None \<Rightarrow> printing [''Subscribed to topic: weather''] (subscriber_rounds text_of rounds s2))))))))"

section \<open>Output and ends\<close>

lemma continue_simps [simp]:
  "continue (Running x) next1 = next1 x" "continue (Fatal e) next1 = ([], FatalExit e)"
  "continue Crashed next1 = ([], Panicked)" "continue Stuck next1 = ([], StillRunning)"
  by (simp_all add: continue_def)

lemma printing_simps [simp]: "fst (printing ls r) = ls @ fst r" "snd (printing ls r) = snd r"
  by (simp_all add: printing_def)

text \<open>The lines of the requests from number \<open>i\<close> on that got \<open>replies\<close>.\<close>

definition exchange_lines :: "nat \<Rightarrow> string list \<Rightarrow> string list" where
  "exchange_lines i replies = concat (map (\<lambda>(j, r). [sent_line j, received_line r])
     (zip [i..<i + length replies] replies))"

lemma exchange_lines_Cons:
  "exchange_lines i (r # replies) = [sent_line i, received_line r] @ exchange_lines (Suc i) replies"
  by (simp add: exchange_lines_def upt_conv_Cons del: upt_Suc)

text \<open>
  Whatever the network does, the requester prints its requests in order, each followed by the reply it received before
  the next; it exits just when all have been answered, and otherwise the last line may be a request without
  reply.
\<close>

theorem requester_output:
  assumes "requester_rounds net k i p = (ls, e)"
  shows "\<exists>replies last1. ls = exchange_lines i replies @ last1 \<and> length replies \<le> k \<and>
    (e = Exited \<longleftrightarrow> length replies = k) \<and> (length replies = k \<longrightarrow> last1 = []) \<and>
    (last1 = [] \<or> last1 = [sent_line (i + length replies)])"
  using assms
proof (induction k arbitrary: i p ls e)
  case 0
  then show ?case by (intro exI [of _ "[]"]) (simp add: exchange_lines_def)
next
  case (Suc k)
  have stopped: ?case if "ls = [] \<or> ls = [sent_line i]" "e \<noteq> Exited"
    by (rule exI [of _ "[]"], rule exI [of _ ls]) (use that in \<open>simp add: exchange_lines_def\<close>)
  show ?case
  proof (cases "requester_send i p")
    case (Running p1)
    note send = this
    show ?thesis
    proof (cases "requester_recv (net i p1)")
      case (Running x)
      obtain r p2 where x: "x = (r, p2)" by (cases x)
      obtain ls1 where ls1: "requester_rounds net k (Suc i) p2 = (ls1, e)"
          "ls = [sent_line i, received_line r] @ ls1"
        using Suc.prems send Running x by (cases "requester_rounds net k (Suc i) p2") (auto simp: printing_def)
      from Suc.IH [OF ls1(1)] obtain replies last1 where
        "ls1 = exchange_lines (Suc i) replies @ last1" "length replies \<le> k" "e = Exited \<longleftrightarrow> length replies = k"
        "length replies = k \<longrightarrow> last1 = []"
        "last1 = [] \<or> last1 = [sent_line (Suc i + length replies)]" by blast
      with ls1(2) show ?thesis
        by (intro exI [of _ "r # replies"] exI [of _ last1]) (simp add: exchange_lines_Cons)
    qed (rule stopped; use Suc.prems send in \<open>auto simp: printing_def\<close>)+
  qed (rule stopped; use Suc.prems in auto)+
qed

text \<open>
  The other three programs run for ever: none ends by itself, the publisher not even by an error, and the
  subscriber only by an error that is not transient.
\<close>

theorem servers_run_on:
  "snd (publisher_rounds ps i s) \<in> {StillRunning, Panicked} \<and> snd (replier_rounds xs r) \<noteq> Exited \<and>
   snd (subscriber_rounds text_of us u) \<noteq> Exited \<and>
   (\<forall>e. snd (subscriber_rounds text_of us u) = FatalExit e \<longrightarrow> \<not> isTransientErr text_of (Some e))"
proof (intro conjI)
  show "snd (publisher_rounds ps i s) \<in> {StillRunning, Panicked}"
  proof (induction ps i s rule: publisher_rounds.induct)
    case (2 before picks rest i s)
    have turn: "publisher_turn picks i (before s) = Crashed \<or> (\<exists>line s1. publisher_turn picks i (before s) = Running (line, s1))"
      by (auto simp: publisher_turn_def Let_def split: option.splits)
    with 2 show ?case by fastforce
  qed simp
  show "snd (replier_rounds xs r) \<noteq> Exited"
  proof (induction xs r rule: replier_rounds.induct)
    case (2 x rest r)
    then show ?case
      by (auto simp: continue_def of_blocking_def Let_def split: blocking.splits option.splits list.splits)
  qed simp
  have "snd (subscriber_rounds text_of us u) \<noteq> Exited \<and>
      (\<forall>e. snd (subscriber_rounds text_of us u) = FatalExit e \<longrightarrow> \<not> isTransientErr text_of (Some e))"
  proof (induction text_of us u rule: subscriber_rounds.induct)
    case (2 text_of before pick rest s)
    then show ?case
      by (auto simp: continue_def of_blocking_def subscriber_turn_def split: blocking.splits option.splits list.splits program.splits if_splits)
  qed simp
  then show "snd (subscriber_rounds text_of us u) \<noteq> Exited"
    "\<forall>e. snd (subscriber_rounds text_of us u) = FatalExit e \<longrightarrow> \<not> isTransientErr text_of (Some e)" by auto
qed

end
