(* ===== verification/Shutdown.thy ===== *)
theory Shutdown
  imports Lifecycle Subscriptions Recovery
begin

text \<open>
  What becomes of the connections of a REQ socket. \<^verbatim>\<open>Dial\<close> and the accepting goroutine first get a
  connection and then, under the lock of the socket, add it; \<^verbatim>\<open>Close\<close>, failures and the reaper may come
  between the two. A dial that lasts is one step, at its end, as it only reads options of the socket.
  The steps of one socket are an inductive relation, with the history of the connections that
  \<^verbatim>\<open>Close\<close> has found.
\<close>

section \<open>The halves of Dial and of accept\<close>

text \<open>\<^verbatim>\<open>Dial\<close> up to the call of \<^verbatim>\<open>addConn\<close>: an error, or the connection \<open>c\<close> has been made.\<close>

definition dial_obtains ::
    "'t transports \<Rightarrow> 'p pool_ops \<Rightarrow> ('t \<Rightarrow> gocontext \<Rightarrow> string \<Rightarrow> nat \<Rightarrow> attempt) \<Rightarrow> conn_id \<Rightarrow> string
       \<Rightarrow> ('p, 't, 'm) socket_scheme \<Rightarrow> (go_error option \<times> ('p, 't, 'm) socket_scheme) blocking" where
  "dial_obtains drivers ops env c endpoint s =
     (let s1 = s\<lparr>ep := endpoint, isDialer := True\<rparr> in
      case splitAddr endpoint of
        Inl e \<Rightarrow> Returns (Some e, s1)
      | Inr (network, addr) \<Rightarrow>
          (case dial_transport drivers network s1 of
             None \<Rightarrow> Returns (Some (UnknownTransportError network), s1)
           | Some tr \<Rightarrow>
               let dialCtx = withQlogDir (qlogDir s1) (withClientTLS (clientTlsCfg s1) (sck_ctx s1)) in
               (case dial_connect (dial_params_of endpoint s1) (env tr dialCtx addr) 0 0 of
                  None \<Rightarrow> Waits
                | Some (Inl e, _) \<Rightarrow> Returns (Some e, s1)
                | Some (Inr None, _) \<Rightarrow>
                    Returns (Some (Errorf ''quicmq: got a nil connection to %q'' [Str endpoint]), s1)
                | Some (Inr (Some nc), _) \<Rightarrow>
                    (case Open (Some nc) (sock_typ s1) False True of
                       Inl e \<Rightarrow>
                         Returns (Some (Wrapf ''quicmq: could not open connection: %w'' [] e), s1)
                     | Inr zconn \<Rightarrow>
                         let s2 = start_reaper s1 in
                         Returns (None, s2\<lparr>pools := put_store ops (new_cell c zconn (get_store ops (pools s2))) (pools s2)\<rparr>)))))"

lemma socket_Dial_halves:
  "socket_Dial drivers ops onAdded env c endpoint s =
     (case dial_obtains drivers ops env c endpoint s of
        Waits \<Rightarrow> Waits
      | Panics \<Rightarrow> Panics
      | Returns (Some e, s1) \<Rightarrow> Returns (Some e, s1)
      | Returns (None, s1) \<Rightarrow>
          (case socket_addConn ops onAdded c s1 of None \<Rightarrow> Panics | Some s2 \<Rightarrow> Returns (None, s2)))"
  by (simp add: socket_Dial_def dial_obtains_def Let_def split: sum.split option.split prod.split)

text \<open>A round of \<^verbatim>\<open>accept\<close> up to the call of \<^verbatim>\<open>addConn\<close>, if it comes to that.\<close>

definition accept_obtains ::
    "'p pool_ops \<Rightarrow> go_error + net_conn option \<Rightarrow> conn_id \<Rightarrow> ('p, 't, 'm) socket_scheme
       \<Rightarrow> ('p, 't, 'm) socket_scheme option" where
  "accept_obtains ops accepted c s =
     (if ctx_err (sck_ctx s) \<noteq> None then None
      else case accepted of
          Inl e \<Rightarrow> None
        | Inr conn \<Rightarrow>
            (case Open conn (sock_typ s) True True of
               Inl e \<Rightarrow> None
             | Inr zconn \<Rightarrow> Some (s\<lparr>pools := put_store ops (new_cell c zconn (get_store ops (pools s))) (pools s)\<rparr>)))"

lemma socket_accept_halves:
  "socket_accept ops onAdded accepted c s =
     (case accept_obtains ops accepted c s of None \<Rightarrow> Some s | Some s1 \<Rightarrow> socket_addConn ops onAdded c s1)"
  by (simp add: socket_accept_def accept_obtains_def Let_def split: sum.split)

section \<open>The steps of a REQ socket\<close>

text \<open>
  \<open>cl_got\<close> are the connections that have been got and not yet added, \<open>cl_used\<close> all that have been got,
  and \<open>cl_found\<close> those that the calls of \<^verbatim>\<open>Close\<close> found in the list, one call after the other.
\<close>

record 't closing =
  cl_sock :: "(req_pools, 't) socket"
  cl_got :: "conn_id list"
  cl_used :: "conn_id set"
  cl_found :: "conn_id list"

text \<open>The transport hands out connections that nobody has closed.\<close>

definition open_dials :: "('t \<Rightarrow> gocontext \<Rightarrow> string \<Rightarrow> nat \<Rightarrow> attempt) \<Rightarrow> bool" where
  "open_dials env = (\<forall>tr g a i nc. at_dial (env tr g a i) = Inr (Some nc) \<longrightarrow> close_calls nc = 0)"

inductive closing_step :: "'t closing \<Rightarrow> 't closing \<Rightarrow> bool" where
  dial_got: "c \<notin> cl_used y \<Longrightarrow> open_dials env \<Longrightarrow>
     dial_obtains drivers req_ops env c endpoint (cl_sock y) = Returns (None, s) \<Longrightarrow>
     closing_step y (y\<lparr>cl_sock := s, cl_got := cl_got y @ [c], cl_used := insert c (cl_used y)\<rparr>)"
| dial_gave_up: "dial_obtains drivers req_ops env c endpoint (cl_sock y) = Returns (Some e, s) \<Longrightarrow>
     closing_step y (y\<lparr>cl_sock := s\<rparr>)"
| accept_got: "c \<notin> cl_used y \<Longrightarrow> \<forall>nc. a = Inr (Some nc) \<longrightarrow> close_calls nc = 0 \<Longrightarrow>
     accept_obtains req_ops a c (cl_sock y) = Some s \<Longrightarrow>
     closing_step y (y\<lparr>cl_sock := s, cl_got := cl_got y @ [c], cl_used := insert c (cl_used y)\<rparr>)"
| conn_added: "c \<in> set (cl_got y) \<Longrightarrow> socket_addConn req_ops None c (cl_sock y) = Some s \<Longrightarrow>
     closing_step y (y\<lparr>cl_sock := s, cl_got := remove1 c (cl_got y)\<rparr>)"
| msg_sent: "req_Send m (pools (cl_sock y)) = (e, p) \<Longrightarrow>
     closing_step y (y\<lparr>cl_sock := (cl_sock y)\<lparr>pools := p\<rparr>\<rparr>)"
| msg_received: "req_Recv (pools (cl_sock y)) = (r, p) \<Longrightarrow>
     closing_step y (y\<lparr>cl_sock := (cl_sock y)\<lparr>pools := p\<rparr>\<rparr>)"
| conn_failed: "closing_step y (y\<lparr>cl_sock := scheduleRmConn c (cl_sock y)\<rparr>)"
| conns_taken: "reaper_take (cl_sock y) = Returns s \<Longrightarrow> closing_step y (y\<lparr>cl_sock := s\<rparr>)"
| conn_removed: "reaper_remove req_ops (cl_sock y) = Some s \<Longrightarrow> closing_step y (y\<lparr>cl_sock := s\<rparr>)"
| sock_closed: "closing_step y (y\<lparr>cl_sock := snd (socket_Close req_ops (cl_sock y)),
     cl_found := cl_found y @ conns (cl_sock y)\<rparr>)"

inductive closing_reach :: "'t closing \<Rightarrow> bool" where
  cl_new: "closing_reach \<lparr>cl_sock = NewReq g opts st, cl_got = [], cl_used = {}, cl_found = []\<rparr>"
  if "conns (NewReq g opts st) = []"
| cl_step: "closing_reach y \<Longrightarrow> closing_step y z \<Longrightarrow> closing_reach z"

section \<open>What the steps do to connections\<close>

lemma on_cell_closes:
  assumes "on_cell f i st = (x, st')" and "\<And>c. close_calls (rw (fst (snd (f c)))) = close_calls (rw c)"
  shows "closes st' j = closes st j"
proof (cases "j = i")
  case True
  from on_cell_same [OF assms(1)] obtain fired where "f (cells st i) = (x, cells st' i, fired)" by blast
  with assms(2) [of "cells st i"] True show ?thesis by simp
qed (use on_cell_other [OF assms(1)] in simp)

lemma write_part_closes: "write_part p wrap c = (e, c1, fired) \<Longrightarrow> close_calls (rw c1) = close_calls (rw c)"
  by (auto simp: write_part_def rw_Write_def checkIO_def SetClosed_def split: prod.splits option.splits if_splits)

lemma write_parts_closes: "write_parts ps c = (e, c1, fired) \<Longrightarrow> close_calls (rw c1) = close_calls (rw c)"
proof (induction ps arbitrary: c)
  case Nil
  then show ?case by simp
next
  case (Cons part ps)
  obtain p wrap where part: "part = (p, wrap)" by (cases part)
  obtain e1 c2 fired1 where w: "write_part p wrap c = (e1, c2, fired1)" by (metis surj_pair)
  from write_part_closes [OF w] Cons w part show ?case by (cases e1) auto
qed

lemma SendMsg_loop_closes: "SendMsg_loop n i fs c = (e, c1, fired) \<Longrightarrow> close_calls (rw c1) = close_calls (rw c)"
proof (induction fs arbitrary: i c)
  case Nil
  then show ?case by simp
next
  case (Cons f fs)
  let ?ps = "[([if int i < int n - 1 then 1 else 0], Wrapf ''quicmq: send flag: %w'' []),
      (PutUint32 (word_of_nat (length f)), Wrapf ''quicmq: send length: %w'' []),
      (f, Wrapf ''quicmq: send frame %d/%d: %w'' [Num (int i + 1), Num (int n)])]"
  obtain e1 c2 fired1 where w: "write_parts ?ps c = (e1, c2, fired1)" by (metis surj_pair)
  have "(case write_parts ?ps c of (Some e, r) \<Rightarrow> (Some e, r) | (None, c1, _) \<Rightarrow> SendMsg_loop n (Suc i) fs c1) = (e, c1, fired)"
    using Cons.prems by (simp only: SendMsg_loop.simps Let_def)
  with w have "(case e1 of Some e \<Rightarrow> (Some e, c2, fired1) | None \<Rightarrow> SendMsg_loop n (Suc i) fs c2) = (e, c1, fired)"
    by (simp only: prod.case)
  with write_parts_closes [OF w] Cons.IH show ?case by (cases e1) auto
qed

lemma SendMsg_closes: "close_calls (rw (fst (snd (SendMsg m c)))) = close_calls (rw c)"
proof -
  obtain e c1 fired where "SendMsg_loop (length (Frames m)) 0 (Frames m) c = (e, c1, fired)" by (metis surj_pair)
  with SendMsg_loop_closes [OF this] show ?thesis by (simp add: SendMsg_def)
qed

lemma st_SendMsg_closes: "st_SendMsg m i st = (e, st') \<Longrightarrow> closes st' j = closes st j"
  unfolding st_SendMsg_def by (erule on_cell_closes) (rule SendMsg_closes)

lemma st_read_closes: "st_read i st = (m, st') \<Longrightarrow> closes st' j = closes st j"
  unfolding st_read_def
  by (erule on_cell_closes) (simp add: conn_read_def checkIO_def SetClosed_def split: prod.split option.split)

lemma req_write_loop_closes: "req_write_loop m w is err st = (r, st') \<Longrightarrow> closes st' j = closes st j"
  by (induction "is" arbitrary: err st)
    (auto simp: Let_def st_SendMsg_closes split: prod.splits option.splits)

lemma req_Send_closes: "req_Send m p = (e, p') \<Longrightarrow> closes (qstore p') j = closes (qstore p) j"
  by (auto simp: req_Send_def reqWriter_write_def Let_def dest: req_write_loop_closes
      split: prod.splits option.splits sum.splits if_splits)

lemma req_Recv_closes: "req_Recv p = (r, p') \<Longrightarrow> closes (qstore p') j = closes (qstore p) j"
  by (auto simp: req_Recv_def reqReader_read_def Let_def dest: st_read_closes
      split: prod.splits option.splits if_splits)

lemma req_addConn_effect:
  "socket_addConn req_ops None c s = Some s' \<Longrightarrow> conns s' = conns s @ [c] \<and> qstore (pools s') = qstore (pools s)"
  by (auto simp: socket_addConn_def if_set_def req_ops_def reqWriter_addConn_def reqReader_addConn_def Let_def
      split: if_splits)

lemma req_rmConn_effect:
  "socket_rmConn req_ops c s = Some s' \<Longrightarrow> conns s' = remove1 c (conns s) \<and> qstore (pools s') = qstore (pools s)"
proof -
  assume a: "socket_rmConn req_ops c s = Some s'"
  have "find_loop (conns s) 0 c = -1 \<or> 0 \<le> find_loop (conns s) 0 c"
    using find_loop_nonneg [of "conns s" c] find_loop_offset [of "conns s" 0 c] by auto
  then have "conns s' = rm_from c (conns s)"
    using a by (auto simp: socket_rmConn_def rm_from_def if_set_def req_ops_def Let_def split: if_splits)
  moreover have "qstore (pools s') = qstore (pools s)"
    using a by (auto simp: socket_rmConn_def if_set_def req_ops_def reqWriter_rmConn_def reqReader_rmConn_def Let_def
        split: if_splits)
  ultimately show ?thesis by (simp add: rm_from_remove1)
qed

lemma dial_obtains_effect:
  assumes "dial_obtains drivers req_ops env c endpoint s = Returns (e, s')" and "open_dials env"
  shows "conns s' = conns s \<and>
    (e = None \<longrightarrow> (\<exists>k. close_calls (rw k) = 0 \<and> qstore (pools s') = new_cell c k (qstore (pools s)))) \<and>
    (e \<noteq> None \<longrightarrow> pools s' = pools s)"
proof (cases e)
  case (Some x)
  with assms(1) show ?thesis
    by (auto simp: dial_obtains_def Let_def split: sum.splits option.splits prod.splits)
next
  case None
  let ?s1 = "s\<lparr>ep := endpoint, isDialer := True\<rparr>"
  have same: "pools (start_reaper ?s1) = pools s" "conns (start_reaper ?s1) = conns s"
    by (simp_all add: start_reaper_def)
  from assms(1) None obtain network addr tr nc n zconn where
    d: "dial_connect (dial_params_of endpoint ?s1)
          (env tr (withQlogDir (qlogDir ?s1) (withClientTLS (clientTlsCfg ?s1) (sck_ctx ?s1))) addr) 0 0
        = Some (Inr (Some nc), n)"
      "Open (Some nc) (sock_typ ?s1) False True = Inr zconn"
      "s' = (start_reaper ?s1)\<lparr>pools := put_store req_ops (new_cell c zconn (get_store req_ops (pools s))) (pools s)\<rparr>"
    by (auto simp: dial_obtains_def Let_def same split: sum.splits option.splits prod.splits)
  from dial_connect_conn [OF d(1), of "Some nc"] assms(2) have "close_calls nc = 0"
    by (auto simp: open_dials_def)
  with d(2) have "close_calls (rw zconn) = 0" by (auto simp: Open_def)
  with d(3) None same show ?thesis by (auto simp: req_ops_def)
qed

text \<open>A failed dial does not look at what the transport would have handed out.\<close>

lemma dial_gave_up_effect:
  "dial_obtains drivers req_ops env c endpoint s = Returns (Some e, s') \<Longrightarrow> conns s' = conns s \<and> pools s' = pools s"
  by (auto simp: dial_obtains_def Let_def split: sum.splits option.splits prod.splits)

lemma accept_obtains_effect:
  assumes "accept_obtains req_ops a c s = Some s'" and "\<forall>nc. a = Inr (Some nc) \<longrightarrow> close_calls nc = 0"
  shows "conns s' = conns s \<and> (\<exists>k. close_calls (rw k) = 0 \<and> qstore (pools s') = new_cell c k (qstore (pools s)))"
proof -
  from assms(1) obtain conn zconn where a: "a = Inr conn" "Open conn (sock_typ s) True True = Inr zconn"
      "s' = s\<lparr>pools := put_store req_ops (new_cell c zconn (get_store req_ops (pools s))) (pools s)\<rparr>"
    by (auto simp: accept_obtains_def split: if_splits sum.splits)
  then obtain nc where "conn = Some nc" by (cases conn) (auto simp: Open_def)
  with a assms(2) have "close_calls (rw zconn) = 0" by (auto simp: Open_def)
  with a(3) show ?thesis by (auto simp: req_ops_def)
qed

lemma req_Close_effect:
  assumes "distinct (conns s)"
  shows "conns (snd (socket_Close req_ops s)) = conns s \<and>
    closes (qstore (pools (snd (socket_Close req_ops s)))) c =
      closes (qstore (pools s)) c + (if c \<in> set (conns s) then 1 else 0)"
proof -
  obtain e st where r: "close_all (conns s) None (qstore (pools s)) = (e, st)"
    by (cases "close_all (conns s) None (qstore (pools s))")
  from close_all_spec [OF assms r, of c] r show ?thesis
    by (auto simp: socket_Close_def Let_def req_ops_def)
qed

lemma count_list_distinct: "distinct xs \<Longrightarrow> count_list xs x = (if x \<in> set xs then 1 else 0)"
  by (induction xs) auto

definition closing_inv :: "'t closing \<Rightarrow> bool" where
  "closing_inv y =
     (distinct (conns (cl_sock y) @ cl_got y) \<and>
      set (conns (cl_sock y)) \<union> set (cl_got y) \<union> set (cl_found y) \<subseteq> cl_used y \<and>
      (\<forall>c \<in> cl_used y. closes (qstore (pools (cl_sock y))) c = count_list (cl_found y) c))"

text \<open>A step that leaves lists and counts as they are keeps the invariant, as does getting a new connection.\<close>

lemma closing_inv_same:
  assumes "closing_inv y" and "conns s = conns (cl_sock y)"
    and "\<And>c. closes (qstore (pools s)) c = closes (qstore (pools (cl_sock y))) c"
  shows "closing_inv (y\<lparr>cl_sock := s\<rparr>)"
  using assms by (simp add: closing_inv_def)

lemma closing_inv_new:
  assumes "closing_inv y" and "c \<notin> cl_used y" and "conns s = conns (cl_sock y)"
    and "close_calls (rw k) = 0" and "qstore (pools s) = new_cell c k (qstore (pools (cl_sock y)))"
  shows "closing_inv (y\<lparr>cl_sock := s, cl_got := cl_got y @ [c], cl_used := insert c (cl_used y)\<rparr>)"
  using assms by (auto simp: closing_inv_def new_cell_def count_list_0_iff subset_iff)

lemma closing_step_inv: "closing_step y z \<Longrightarrow> closing_inv y \<Longrightarrow> closing_inv z"
proof (induction rule: closing_step.induct)
  case (dial_got c y env drivers endpoint s)
  from dial_obtains_effect [OF dial_got.hyps(3,2)] obtain k where
    "conns s = conns (cl_sock y)" "close_calls (rw k) = 0" "qstore (pools s) = new_cell c k (qstore (pools (cl_sock y)))"
    by auto
  with closing_inv_new [OF dial_got.prems dial_got.hyps(1)] show ?case by blast
next
  case (dial_gave_up drivers env c endpoint y e s)
  with closing_inv_same dial_gave_up_effect show ?case by metis
next
  case (accept_got c y a s)
  from accept_obtains_effect [OF accept_got.hyps(3,2)] closing_inv_new [OF accept_got.prems accept_got.hyps(1)]
  show ?case by blast
next
  case (conn_added c y s)
  from req_addConn_effect [OF conn_added.hyps(2)] conn_added.hyps(1) conn_added.prems show ?case
    by (auto simp: closing_inv_def distinct_remove1 dest: set_remove1_subset [THEN subsetD])
next
  case (msg_sent m y e p)
  with req_Send_closes [OF msg_sent.hyps] show ?case by (intro closing_inv_same) auto
next
  case (msg_received y r p)
  with req_Recv_closes [OF msg_received.hyps] show ?case by (intro closing_inv_same) auto
next
  case (conn_failed y c)
  then show ?case by (intro closing_inv_same) (auto simp: scheduleRmConn_def Let_def)
next
  case (conns_taken y s)
  then show ?case by (intro closing_inv_same) (auto simp: reaper_take_def split: if_splits)
next
  case (conn_removed y s)
  then have "\<exists>c. conns s = remove1 c (conns (cl_sock y)) \<and> qstore (pools s) = qstore (pools (cl_sock y)) \<or>
      conns s = conns (cl_sock y) \<and> qstore (pools s) = qstore (pools (cl_sock y))"
    by (auto simp: reaper_remove_def dest!: req_rmConn_effect split: list.splits)
  with conn_removed.prems show ?case
    by (auto simp: closing_inv_def distinct_remove1 dest: set_remove1_subset [THEN subsetD])
next
  case (sock_closed y)
  then have d: "distinct (conns (cl_sock y))" by (simp add: closing_inv_def)
  from req_Close_effect [OF d] sock_closed d show ?case
    by (auto simp: closing_inv_def count_list_append count_list_distinct)
qed

lemma closing_reach_inv: "closing_reach y \<Longrightarrow> closing_inv y"
proof (induction rule: closing_reach.induct)
  case (cl_new g opts st)
  then show ?case by (simp add: closing_inv_def)
qed (rule closing_step_inv)

lemma closing_step_keeps:
  "closing_step y z \<Longrightarrow> c \<in> cl_used y \<Longrightarrow> c \<notin> set (conns (cl_sock y)) \<union> set (cl_got y) \<Longrightarrow>
     c \<in> cl_used z \<and> c \<notin> set (conns (cl_sock z)) \<union> set (cl_got z) \<and>
     count_list (cl_found z) c = count_list (cl_found y) c"
proof (induction rule: closing_step.induct)
  case (dial_got d y env drivers endpoint s)
  with dial_obtains_effect [OF dial_got.hyps(3,2)] show ?case by auto
next
  case (dial_gave_up drivers env d endpoint y e s)
  with dial_gave_up_effect [OF dial_gave_up.hyps] show ?case by auto
next
  case (accept_got d y a s)
  with accept_obtains_effect [OF accept_got.hyps(3,2)] show ?case by auto
next
  case (conn_added d y s)
  with req_addConn_effect [OF conn_added.hyps(2)] show ?case by (auto dest: set_remove1_subset [THEN subsetD])
next
  case (conn_failed y d)
  then show ?case by (auto simp: scheduleRmConn_def Let_def)
next
  case (conns_taken y s)
  then show ?case by (auto simp: reaper_take_def split: if_splits)
next
  case (conn_removed y s)
  then show ?case
    by (auto simp: reaper_remove_def dest!: req_rmConn_effect dest: set_remove1_subset [THEN subsetD] split: list.splits)
next
  case (sock_closed y)
  then show ?case by (auto simp: socket_Close_def Let_def split: prod.splits)
qed auto

lemma closing_steps_keep:
  "rtranclp closing_step y z \<Longrightarrow> c \<in> cl_used y \<Longrightarrow> c \<notin> set (conns (cl_sock y)) \<union> set (cl_got y) \<Longrightarrow>
     c \<in> cl_used z \<and> c \<notin> set (conns (cl_sock z)) \<union> set (cl_got z) \<and>
     count_list (cl_found z) c = count_list (cl_found y) c"
proof (induction rule: rtranclp_induct)
  case (step z1 z2)
  with closing_step_keeps [OF step.hyps(2), of c] show ?case by simp
qed simp

lemma closing_reach_steps: "rtranclp closing_step y z \<Longrightarrow> closing_reach y \<Longrightarrow> closing_reach z"
  by (induction rule: rtranclp_induct) (auto intro: cl_step)

section \<open>Properties\<close>

text \<open>
  C33: A REQ socket closes a connection once for each call of \<^verbatim>\<open>Close\<close> that finds it in the socket's list, and never
  otherwise, in any interleaving of the halves of \<^verbatim>\<open>Dial\<close> and of accepting with calls, failures and the reaper.
  So a connection that broke and was removed is never closed, whatever happens later, and a connection that
  \<^verbatim>\<open>Dial\<close> adds after \<^verbatim>\<open>Close\<close> stays open until \<^verbatim>\<open>Close\<close> is called again.
\<close>

theorem closed_by_Close_only:
  assumes "closing_reach y" and "rtranclp closing_step y z"
  shows "(\<forall>c \<in> cl_used z. closes (qstore (pools (cl_sock z))) c = count_list (cl_found z) c) \<and>
    (\<forall>c \<in> cl_used y - set (conns (cl_sock y)) - set (cl_got y).
       closes (qstore (pools (cl_sock z))) c = closes (qstore (pools (cl_sock y))) c)"
proof -
  from closing_reach_inv [OF assms(1)] have y: "closing_inv y" .
  from closing_reach_inv [OF closing_reach_steps [OF assms(2,1)]] have z: "closing_inv z" .
  have "closes (qstore (pools (cl_sock z))) c = closes (qstore (pools (cl_sock y))) c"
    if "c \<in> cl_used y" "c \<notin> set (conns (cl_sock y)) \<union> set (cl_got y)" for c
    using closing_steps_keep [OF assms(2) that] that y z by (simp add: closing_inv_def)
  with z show ?thesis by (auto simp: closing_inv_def)
qed


text \<open>
  A run: connection 1 is dialled, added, breaks and is removed; connection 2 is dialled, \<^verbatim>\<open>Close\<close> comes, and
  only then is the connection added.
\<close>

definition demo_req :: "(req_pools, nat) socket" where
  "demo_req = NewReq None [] fresh_store"

definition demo_got :: "conn_id \<Rightarrow> (req_pools, nat) socket \<Rightarrow> (req_pools, nat) socket" where
  "demo_got c s = (case dial_obtains [(''quic'', 7 :: nat)] req_ops (\<lambda>_ _ _ _. demo_attempt True) c demo_endpoint s
     of Returns (_, s1) \<Rightarrow> s1 | _ \<Rightarrow> s)"

lemma demo_got_eq:
  assumes "dialTransport s = None"
  shows "dial_obtains [(''quic'', 7 :: nat)] req_ops (\<lambda>_ _ _ _. demo_attempt True) c demo_endpoint s =
      Returns (None, demo_got c s)"
    and "conns (demo_got c s) = conns s" "closedConns (demo_got c s) = closedConns s" "w_set (demo_got c s) = w_set s"
    and "sck_ctx (demo_got c s) = sck_ctx s" "dialTransport (demo_got c s) = None" "r_set (demo_got c s) = r_set s"
  using assms by (simp_all add: demo_got_def dial_obtains_def demo_connects demo_splitAddr dial_transport_def
      transports_get_def Open_def start_reaper_def Let_def)

lemma req_addConn_some:
  "\<exists>s'. socket_addConn req_ops None c s = Some s' \<and> closedConns s' = closedConns s \<and> sck_ctx s' = sck_ctx s \<and>
     dialTransport s' = dialTransport s"
  by (simp add: socket_addConn_def if_set_def req_ops_def Let_def)

lemma demo_req_new:
  "conns demo_req = []" "closedConns demo_req = []" "ctx_err (sck_ctx demo_req) = None" "dialTransport demo_req = None"
  by (simp_all add: demo_req_def NewReq_def newSocket_def newDefaultSocket_def Let_def)

lemma demo_dials_open: "open_dials (\<lambda>_ _ _ _. demo_attempt True)"
  by (simp add: open_dials_def demo_attempt_def demo_net_def)

lemma closing_dial:
  "c \<notin> cl_used y \<Longrightarrow> dialTransport (cl_sock y) = None \<Longrightarrow>
     closing_step y (y\<lparr>cl_sock := demo_got c (cl_sock y), cl_got := cl_got y @ [c], cl_used := insert c (cl_used y)\<rparr>)"
  by (rule dial_got [OF _ demo_dials_open demo_got_eq(1)])

lemma req_Close_done: "ctx_err (sck_ctx (snd (socket_Close req_ops s))) \<noteq> None"
  by (simp add: socket_Close_def Let_def split: prod.split option.split)

lemma closing_close:
  assumes "cl_sock y = s" and "conns s = []"
  shows "closing_step y (y\<lparr>cl_sock := snd (socket_Close req_ops s)\<rparr>)"
proof -
  have "y\<lparr>cl_sock := t, cl_found := cl_found y @ []\<rparr> = y\<lparr>cl_sock := t\<rparr>" for t by simp
  with sock_closed [of y] assms show ?thesis by metis
qed

lemma closing_add:
  "cl_sock y = s \<Longrightarrow> cl_got y = [c] \<Longrightarrow> socket_addConn req_ops None c s = Some s' \<Longrightarrow>
     closing_step y (y\<lparr>cl_sock := s', cl_got := []\<rparr>)"
  using conn_added [of c y s'] by simp

lemma reaper_remove_some:
  "reaping s = [c] \<Longrightarrow> conns s = [c] \<Longrightarrow>
     \<exists>s'. reaper_remove req_ops s = Some s' \<and> conns s' = [] \<and> dialTransport s' = dialTransport s"
  by (cases "r_set s"; cases "w_set s") (simp_all add: reaper_remove_def socket_rmConn_def if_set_def req_ops_def Let_def)

lemma demo_removed:
  "\<exists>y :: nat closing. closing_reach y \<and> conns (cl_sock y) = [] \<and> cl_got y = [] \<and> cl_used y = {1} \<and> cl_found y = [] \<and>
     dialTransport (cl_sock y) = None"
proof -
  let ?y0 = "\<lparr>cl_sock = demo_req, cl_got = [], cl_used = {}, cl_found = []\<rparr>"
  let ?s1 = "demo_got 1 demo_req"
  let ?y1 = "\<lparr>cl_sock = ?s1, cl_got = [1], cl_used = {1}, cl_found = []\<rparr>"
  have r0: "closing_reach ?y0"
    using cl_new [of None "[]" fresh_store] demo_req_new(1) by (simp add: demo_req_def)
  have r1: "closing_reach ?y1"
    using cl_step [OF r0 closing_dial [of 1]] demo_req_new by (simp del: One_nat_def)
  obtain s2 where s2: "socket_addConn req_ops None 1 ?s1 = Some s2" "closedConns s2 = []" "ctx_err (sck_ctx s2) = None"
      "dialTransport s2 = None"
    using req_addConn_some [of 1 ?s1] demo_got_eq [OF demo_req_new(4)] demo_req_new by (auto simp del: One_nat_def)
  have c2: "conns s2 = [1]"
    using req_addConn_effect [OF s2(1)] demo_got_eq(2) [OF demo_req_new(4)] demo_req_new by (simp del: One_nat_def)
  have r2: "closing_reach \<lparr>cl_sock = s2, cl_got = [], cl_used = {1}, cl_found = []\<rparr>"
    using cl_step [OF r1 conn_added [of 1 ?y1 s2]] s2(1) by (simp del: One_nat_def)
  let ?s3 = "scheduleRmConn 1 s2"
  have r3: "closing_reach \<lparr>cl_sock = ?s3, cl_got = [], cl_used = {1}, cl_found = []\<rparr>"
    using cl_step [OF r2 conn_failed [of _ 1]] by (simp del: One_nat_def)
  have f3: "conns ?s3 = [1]" "closedConns ?s3 = [1]" "ctx_err (sck_ctx ?s3) = None" "dialTransport ?s3 = None"
    using s2 c2 by (simp_all add: scheduleRmConn_def Let_def)
  let ?s4 = "?s3\<lparr>reaping := [1], closedConns := []\<rparr>"
  have r4: "closing_reach \<lparr>cl_sock = ?s4, cl_got = [], cl_used = {1}, cl_found = []\<rparr>"
    using cl_step [OF r3 conns_taken [of _ ?s4]] f3 by (simp add: reaper_take_def del: One_nat_def)
  obtain s5 where s5: "reaper_remove req_ops ?s4 = Some s5" "conns s5 = []" "dialTransport s5 = None"
    using reaper_remove_some [of ?s4 1] f3 by (auto simp del: One_nat_def)
  let ?y5 = "\<lparr>cl_sock = s5, cl_got = [], cl_used = {1}, cl_found = []\<rparr>"
  have "closing_reach ?y5"
    using cl_step [OF r4 conn_removed [of _ s5]] s5(1) by (simp del: One_nat_def)
  with s5 have "closing_reach ?y5 \<and> conns (cl_sock ?y5) = [] \<and> cl_got ?y5 = [] \<and> cl_used ?y5 = {1} \<and>
     cl_found ?y5 = [] \<and> dialTransport (cl_sock ?y5) = None"
    by (simp del: One_nat_def)
  then show ?thesis by (rule exI)
qed

lemma closed_by_Close_only_witness:
  "\<exists>z :: nat closing. closing_reach z \<and> ctx_err (sck_ctx (cl_sock z)) \<noteq> None \<and> conns (cl_sock z) = [2] \<and>
     closes (qstore (pools (cl_sock z))) 2 = 0"
proof -
  obtain y :: "nat closing" where y: "closing_reach y" "conns (cl_sock y) = []" "cl_got y = []" "cl_used y = {1}"
      "cl_found y = []" "dialTransport (cl_sock y) = None"
    using demo_removed by blast
  let ?y6 = "y\<lparr>cl_sock := demo_got 2 (cl_sock y), cl_got := [2], cl_used := insert 2 {1}\<rparr>"
  have r6: "rtranclp closing_step y ?y6"
    using closing_dial [of 2 y] y by (simp add: r_into_rtranclp)
  let ?s7 = "snd (socket_Close req_ops (demo_got 2 (cl_sock y)))"
  let ?y7 = "?y6\<lparr>cl_sock := ?s7\<rparr>"
  have r7: "rtranclp closing_step y ?y7"
  proof (rule rtranclp.rtrancl_into_rtrancl [OF r6 closing_close])
    show "conns (demo_got 2 (cl_sock y)) = []" using demo_got_eq(2) [OF y(6)] y(2) by (simp only:)
  qed simp
  have "conns (demo_got 2 (cl_sock y)) = []" using demo_got_eq(2) [OF y(6)] y(2) by (simp only:)
  then have f7: "conns ?s7 = []"
    using req_Close_effect [THEN conjunct1, of "demo_got 2 (cl_sock y)"] by (simp only: distinct.simps)
  obtain s8 where s8: "socket_addConn req_ops None 2 ?s7 = Some s8" "sck_ctx s8 = sck_ctx ?s7"
    using req_addConn_some [of 2 ?s7] by auto
  let ?y8 = "?y7\<lparr>cl_sock := s8, cl_got := []\<rparr>"
  have r8: "rtranclp closing_step y ?y8"
    by (rule rtranclp.rtrancl_into_rtrancl [OF r7 closing_add [OF _ _ s8(1)]]) simp_all
  have "conns s8 = [2]" using req_addConn_effect [OF s8(1)] f7 by simp
  moreover have "closes (qstore (pools s8)) 2 = 0"
    using closed_by_Close_only [OF y(1) r8] y by simp
  moreover have "ctx_err (sck_ctx s8) \<noteq> None" using req_Close_done s8(2) by (simp only:)
  ultimately have "closing_reach ?y8 \<and> ctx_err (sck_ctx (cl_sock ?y8)) \<noteq> None \<and> conns (cl_sock ?y8) = [2] \<and>
     closes (qstore (pools (cl_sock ?y8))) 2 = 0"
    using closing_reach_steps [OF r8 y(1)] by simp
  then show ?thesis by (rule exI)
qed

end
