(* ===== verification/Spec2Isabelle.thy ===== *)
theory Spec2Isabelle
  imports Scenarios Examples Lifecycle Recovery Subscriptions Prelude GoRuntime Message Wire Codec Connection Pools
    ReqSocket RepSocket Transport Socket PubSub Quic Datagram Patterns Delivery DatagramRuns Reading Broadcast Races Measuring
    Programs Shutdown
begin

text \<open>
  A verification of \<^verbatim>\<open>quicmq\<close>, a messaging library in Go with the socket patterns of ZeroMQ over
  QUIC. The theories model the library package (the \<^verbatim>\<open>.go\<close> files at the root of the repository), the
  example programs and the measuring programs.

  The program. A socket (\<^verbatim>\<open>socket.go\<close>) has a context, options, a list of connections and two pools,
  one to read from and one to write to. \<^verbatim>\<open>Dial\<close> and \<^verbatim>\<open>Listen\<close> get streams from a transport
  (\<^verbatim>\<open>transport.go\<close>, \<^verbatim>\<open>transport_quic.go\<close>, \<^verbatim>\<open>pool.go\<close>); each stream becomes a connection
  (\<^verbatim>\<open>conn.go\<close>), which frames messages (\<^verbatim>\<open>quicmq.go\<close>), keeps the topics the peer has subscribed to,
  and tells its socket once when it breaks; the socket then removes it, in a goroutine of its
  own, and may dial again. The patterns replace the pools: \<^verbatim>\<open>req.go\<close> and \<^verbatim>\<open>rep.go\<close> by pools that
  share a state machine, \<^verbatim>\<open>pub.go\<close> by a writer with a queue and a goroutine for each subscriber and
  a reader that consumes subscription commands; \<^verbatim>\<open>sub.go\<close>, \<^verbatim>\<open>xpub.go\<close> and \<^verbatim>\<open>xsub.go\<close> use or adapt
  them. \<^verbatim>\<open>datagram.go\<close> has two sockets of its own over unreliable datagrams.

  The theories, in the order of their imports.

  \<^item> \<open>Prelude\<close>: bytes, strings, connection identities, errors, sets of strings, list lemmas.
  \<^item> \<open>GoRuntime\<close>: what the code uses of Go: readers that deliver bytes in pieces, \<^verbatim>\<open>io.ReadFull\<close>,
    writers whose writes may fail, big-endian integers, channels, \<^verbatim>\<open>select\<close>, contexts. A call that
    may wait has the result \<open>Waits\<close>, \<open>Returns x\<close> or \<open>Panics\<close>; where Go's \<^verbatim>\<open>select\<close> chooses among ready
    cases, an argument \<open>pick\<close> does.
  \<^item> \<open>Message\<close>: \<^verbatim>\<open>quicmq.go\<close>. \<open>Wire\<close> and \<open>Codec\<close>: the framing of \<^verbatim>\<open>conn.go\<close> and \<^verbatim>\<open>datagram.go\<close>, and the
    locales \<open>stream_codec\<close> and \<open>framed_codec\<close>, of which the three wire formats are interpretations.
  \<^item> \<open>Connection\<close>: \<^verbatim>\<open>conn.go\<close>. Connections are shared by reference, so there is a \<open>store\<close> from
    identities to connections, with the log of callbacks that ran (\<open>notified\<close>). The locale
    \<open>topic_filter\<close> is the contract of the topic tests, here and for datagrams.
  \<^item> \<open>Pools\<close>: \<^verbatim>\<open>msgio.go\<close>, with the contract \<open>conn_pool\<close> that every pool of the package is an
    interpretation of.
  \<^item> \<open>ReqSocket\<close>, \<open>RepSocket\<close>: \<^verbatim>\<open>req.go\<close>, \<^verbatim>\<open>rep.go\<close>. Their concurrency is a step relation
    (\<open>req_step\<close>, \<open>rep_step\<close>): the critical sections of the code are the steps, and connections come,
    go and fail between them. Each refines a small specification over its history, \<open>req_spec\<close> and
    \<open>rep_spec\<close>.
  \<^item> \<open>Transport\<close>: \<^verbatim>\<open>transport.go\<close>, \<^verbatim>\<open>tls.go\<close>. \<open>Socket\<close>: \<^verbatim>\<open>socket.go\<close>, \<^verbatim>\<open>options.go\<close>, with the contract
    \<open>socket_pools\<close> between a socket and its pools, interpreted for each pattern.
  \<^item> \<open>PubSub\<close>: \<^verbatim>\<open>pub.go\<close>, \<^verbatim>\<open>sub.go\<close>, \<^verbatim>\<open>xpub.go\<close>, \<^verbatim>\<open>xsub.go\<close>, with the step relation \<open>pub_step\<close>.
  \<^item> \<open>Quic\<close>: \<^verbatim>\<open>transport_quic.go\<close>, \<^verbatim>\<open>pool.go\<close>, \<^verbatim>\<open>qlog.go\<close>; what the code does with the QUIC library and
    the operating system is a trace of events, over which its resources are counted.
  \<^item> \<open>Datagram\<close>: \<^verbatim>\<open>datagram.go\<close>. \<open>Patterns\<close>: \<^verbatim>\<open>NewReq\<close>, \<^verbatim>\<open>NewRep\<close> and one exchange between them;
    \<open>Delivery\<close>: the way of messages from a publisher to a subscriber.
  \<^item> \<open>Subscriptions\<close>: \<^verbatim>\<open>SetOption\<close> of a SUB socket in two halves, interleaved (\<open>sub_step\<close>) with dials,
    accepted connections, reading, failures, removals and \<^verbatim>\<open>Close\<close>. \<open>Recovery\<close>: the way from a broken
    connection to its replacement. \<open>Lifecycle\<close>: option values, closed
    sockets, and what the datagram sockets give back.
  \<^item> \<open>Reading\<close>: the goroutines of the queued reader in single steps (\<open>reading_step\<close>), with the history of
    what was read, queued and received; and the queue of a PUB socket, which nobody empties.
    \<open>Broadcast\<close>: a publisher (\<open>wire_step\<close>) and a subscriber, each in any interleaving, with a connection
    between them that may break at any byte. \<open>Races\<close>: two interleavings that the locks of the package
    leave open, and what they lead to. \<open>DatagramRuns\<close>: the calls of the datagram sockets, cut where
    they hold no lock (\<open>dsub_step\<close>, \<open>dpub_step\<close>).
    \<open>Shutdown\<close>: \<^verbatim>\<open>Dial\<close> and accepting cut before they add their connection, interleaved with \<^verbatim>\<open>Close\<close>
    (\<open>closing_step\<close>).
  \<^item> \<open>GoStrings\<close>: what the programs use of \<^verbatim>\<open>fmt\<close>, \<^verbatim>\<open>strconv\<close> and \<^verbatim>\<open>strings\<close>. \<open>Examples\<close>: the programs under
    \<^verbatim>\<open>example\<close>, each a loop that runs, stops with an error, crashes or waits (\<open>program\<close>), and the two
    pairs of them over one connection; \<open>Programs\<close>: the same programs from their flags to what they print. \<open>Scenarios\<close>: what the programs under \<^verbatim>\<open>benchmarks/scenarios/cmd\<close>
    put into messages and compute, as functions of what the clock and the calls of the library gave in
    each round. \<open>Measuring\<close>: these six programs as a whole, from their settings to their results, over
    the sockets of the model.

  What the lemmas show. The wire formats are inverse to their readers however the bytes arrive,
  a message cut short is an error, and a connection that fails is marked closed with its
  callback run once. A REQ socket alternates strictly, goes round its connections and recovers
  from lost ones; a REP socket answers the connection whose request it received last, once, in
  the order of arrival. A publisher filters before it queues, its queues are bounded and in
  order, and publisher and subscriber agree on the topics, over streams and over datagrams.
  Pools stay in step with the connections of their socket. Dialling is bounded or ends with a
  success or a context; reconnection follows its schedule without overflow. Dialling, the pool
  and the listener account for every UDP socket they open, and the datagram sockets give theirs
  back. A subscriber's connections carry commands that add up to its topics in every interleaving of
  one caller's calls with the goroutines, and a broken one is replaced; so does the control stream of a
  datagram subscriber, and a datagram publisher's list holds each peer that has not left. What
  \<^verbatim>\<open>Recv\<close> returns from a connection are the first of the messages that were queued for it, in order,
  whole, whatever the interleaving on both sides and wherever the connection breaks; a reader that
  waits goes on with the next \<^verbatim>\<open>Recv\<close>. Two callers of \<^verbatim>\<open>SetOption\<close> at once, or two goroutines that send
  on one connection, can make publisher and subscriber differ for good. A connection of a REQ socket is closed
  by \<^verbatim>\<open>Close\<close> and by nothing else, so one that broke, or that \<^verbatim>\<open>Dial\<close> adds after \<^verbatim>\<open>Close\<close>, stays open.
  The example programs print what they should for any number of rounds, the subscriber through
  any break; the measuring programs order their percentiles, and count gaps rightly where they
  can read a header, which with the publisher's padding they never can; the datagram programs keep their
  deadline, and the stream subscriber does not. Some theorems state behaviour that is
  surprising but is the code's: a frame of \<open>2 ^ 32\<close> bytes is misread, a publisher's high-water
  mark may be negative and then makes it panic, XPUB sockets never hand out subscription
  commands, and others that the text before each says.

  Bounds and termination. No definition has fuel. The readers end because each frame they take
  makes what is left shorter. The loops that the code may run for ever, dialling without a limit
  and reconnecting, are partial functions with the result \<open>None\<close> when they do, and theorems say
  when they return. Goroutines that loop for ever are modelled by one round of the loop, and
  their runs by the step relations or by functions that repeat the round. Lengths on the wire
  and durations are machine words (32 and 64 bits); counters that Go keeps in an \<^verbatim>\<open>int\<close> are \<open>int\<close>
  or \<open>nat\<close>, as they count connections, frames or retries in memory.

  What is not modelled. Mutexes: a definition is a section that runs under one lock, and the
  step relations interleave such sections; data races are out of reach. The QUIC library, TLS,
  the file system and the clock are parameters: results that calls return, the state of a context
  when it is looked at, what ended a pause. Memory limits are not modelled, so a length read
  from the wire can always be allocated. Logging, texts of errors beyond their formats and
  arguments, \<^verbatim>\<open>Msg.String\<close>, the syntax of flags, the layout of JSON, the rounding of
  floating point in results, and the shell script under \<^verbatim>\<open>benchmarks\<close> are left out. Percentiles are computed in
  floating point there; the model divides integers, which is the same below \<open>2 ^ 45\<close> samples.
\<close>

section \<open>Properties across components\<close>

text \<open>
  C1: A request and its reply, from \<^verbatim>\<open>Send\<close> to \<^verbatim>\<open>Recv\<close>: what a ready REQ socket writes for a
  request is read by the goroutine of a ready REP socket, whose \<^verbatim>\<open>Recv\<close> returns the frames of
  the request; what the REP socket's goroutine then writes for the reply is what \<^verbatim>\<open>Recv\<close> of the
  REQ socket reads, and returns as the frames of the reply (a reply without frames arrives as
  one empty frame), and the REQ socket takes the next request.
\<close>

theorem req_rep_exchange:
  assumes "req_ready c p" and "rep_ready d r" and "short_frames m" and "short_frames reply"
  shows "\<exists>p1. req_Send m p = (None, p1) \<and>
    (inp (cells (rstore r) d) = out (cells (qstore p1) c) \<longrightarrow>
     (\<exists>r1 r2 r3 r4. repReader_listen None d r = Returns r1 \<and>
        rep_Recv pick None r1 = Returns ((NewMsgFrom (Frames m), None), r2) \<and>
        rep_Send pick2 None None reply r2 = Returns (None, r3) \<and>
        repWriter_run None r3 = Returns r4 \<and>
        (\<forall>p2. qstate p2 = qstate p1 \<and> inp (cells (qstore p2) c) = out (cells (rstore r4) d) \<longrightarrow>
           (\<exists>p3. req_Recv p2 =
                ((NewMsgFrom (if Frames reply = [] then [[]] else Frames reply), None), p3) \<and>
              fst (beginRequest (qstate p3)) = None))))"
proof -
  from req_Send_ready [OF assms(1), of m] obtain p1 where
    p1: "req_Send m p = (None, p1)" "out (cells (qstore p1) c) = frames_wire ([] # Frames m)"
      "lastConn (qstate p1) = Some c" "\<not> readyToReq (qstate p1)" by blast
  have "\<exists>r1 r2 r3 r4. repReader_listen None d r = Returns r1 \<and>
        rep_Recv pick None r1 = Returns ((NewMsgFrom (Frames m), None), r2) \<and>
        rep_Send pick2 None None reply r2 = Returns (None, r3) \<and>
        repWriter_run None r3 = Returns r4 \<and>
        (\<forall>p2. qstate p2 = qstate p1 \<and> inp (cells (qstore p2) c) = out (cells (rstore r4) d) \<longrightarrow>
           (\<exists>p3. req_Recv p2 =
                ((NewMsgFrom (if Frames reply = [] then [[]] else Frames reply), None), p3) \<and>
              fst (beginRequest (qstate p3)) = None))"
    if "inp (cells (rstore r) d) = out (cells (qstore p1) c)"
  proof -
    from that p1(2) have "inp (cells (rstore r) d) = frames_wire ([] # Frames m)" by simp
    from rep_exchange [OF assms(2,3) this, of pick pick2 reply] obtain r1 r2 r3 r4 where
      rep: "repReader_listen None d r = Returns r1"
        "rep_Recv pick None r1 = Returns ((NewMsgFrom (Frames m), None), r2)"
        "rep_Send pick2 None None reply r2 = Returns (None, r3)" "repWriter_run None r3 = Returns r4"
        "out (cells (rstore r4) d) = frames_wire ([] # Frames reply)" by blast
    have "\<exists>p3. req_Recv p2 = ((NewMsgFrom (if Frames reply = [] then [[]] else Frames reply), None), p3) \<and>
        fst (beginRequest (qstate p3)) = None"
      if p2: "qstate p2 = qstate p1" "inp (cells (qstore p2) c) = out (cells (rstore r4) d)" for p2
      using req_Recv_reply [of p2 c reply] p1(3,4) assms(4) rep(5) p2
      by (fastforce simp: beginRequest_def)
    with rep(1-4) show ?thesis by blast
  qed
  with p1(1) show ?thesis by blast
qed

theorem req_rep_exchange_witness:
  "\<exists>p1 r1 r2 r3 r4. req_Send (NewMsg [7]) (reqWriter_addConn 1 (newReq_pools fresh_store)) = (None, p1) \<and>
     repReader_listen None 2 (demo_rep (out (cells (qstore p1) 1))) = Returns r1 \<and>
     rep_Recv 0 None r1 = Returns ((NewMsgFrom [[7]], None), r2) \<and>
     rep_Send 0 None None (NewMsg [8]) r2 = Returns (None, r3) \<and> repWriter_run None r3 = Returns r4"
proof -
  let ?p = "reqWriter_addConn 1 (newReq_pools fresh_store)"
  let ?bs = "out (cells (qstore (snd (req_Send (NewMsg [7]) ?p))) 1)"
  have m: "short_frames (NewMsg [7])" "short_frames (NewMsg [8])" "Frames (NewMsg [7]) = [[7]]"
    by (simp_all add: short_frames_def NewMsg_def empty_msg_def)
  from req_rep_exchange [OF demo_req_ready demo_rep_ready m(1,2), of ?bs 0 0] show ?thesis
    unfolding m(3) demo_rep_inp by (elim exE conjE) (fastforce simp: demo_rep_inp)
qed

text \<open>
  C2: Delivery from a publisher to a subscriber: of any messages published one after the other,
  exactly those whose first frame begins with one of the topics that the publisher holds for the
  subscriber's connection, as long as they fit its queue, go through the queue and its goroutine
  onto the connection, and \<^verbatim>\<open>Recv\<close> at the other end returns them, frame by frame and in order.
\<close>

theorem pub_sub_delivery:
  assumes "pub_wf (pub_w (socket.pools s))" and "(d, a) \<in> set (sub_list (pub_w (socket.pools s)))"
    and "ctx_err (sck_ctx s) = None"
    and "j < length (drainers (pub_w (socket.pools s)))"
    and "drainers (pub_w (socket.pools s)) ! j = \<lparr>dr_chan = a, dr_conn = d, dr_msg = None\<rparr>"
    and "buf (chans (pub_w (socket.pools s)) ! a) = []"
    and "usable (cells (pub_st (socket.pools s)) d)" and "out (cells (pub_st (socket.pools s)) d) = []"
    and "got = filter (\<lambda>m. \<exists>k \<in> set (topics (cells (pub_st (socket.pools s)) d)). prefix k (msg_topic m)) ms"
    and "length got \<le> cap (chans (pub_w (socket.pools s)) ! a)"
    and "list_all (\<lambda>m. encodable (Frames m)) got" and "sub_ready u"
  shows "\<exists>s1 w2 st2. publish_all picks ms s = Some s1 \<and>
    drain_n (length got) j (pub_w (socket.pools s1), pub_st (socket.pools s1)) = Returns (w2, st2) \<and>
    (inp (cells (bst (socket.pools u)) c) = out (cells st2 d) \<longrightarrow>
       (\<exists>u1. sub_take_n (length got) pick c u = Returns (map (\<lambda>m. (NewMsgFrom (Frames m), None)) got, u1)))"
proof -
  let ?w = "pub_w (socket.pools s)" and ?st = "pub_st (socket.pools s)"
  have got: "got = filter (\<lambda>m. subscribed (cells ?st d) (msg_topic m)) ms"
    using assms(9) by (simp add: conn_topics.matches_iff)
  from publish_all_queued [OF assms(1-3), of ms picks] assms(6,10) got obtain s1 where
    s1: "publish_all picks ms s = Some s1" "pub_st (socket.pools s1) = ?st" "drainers (pub_w (socket.pools s1)) = drainers ?w"
      "length (chans (pub_w (socket.pools s1))) = length (chans ?w)" "buf (chans (pub_w (socket.pools s1)) ! a) = got"
    by auto
  have "a < length (chans ?w)" using assms(1,2) by (auto simp: pub_wf_def)
  with drain_n_queue [of j "pub_w (socket.pools s1)" a d ?st got] s1(3-5) assms(4,5,7,8) obtain w2 st2 where
    d: "drain_n (length got) j (pub_w (socket.pools s1), ?st) = Returns (w2, st2)"
      "out (cells st2 d) = concat (map (\<lambda>m. frames_wire (Frames m)) got)"
    by auto
  with s1(1,2) sub_take_n_wire [OF assms(12,11), of c pick] show ?thesis by auto
qed

definition demo_publisher :: "(pub_pools, nat) socket" where
  "demo_publisher = (NewPub None [] demo_pub_store)\<lparr>socket.pools := (new_pub_pools demo_pub_store)\<lparr>pub_w := demo_pub\<rparr>\<rparr>"

theorem pub_sub_delivery_witness:
  "\<exists>s1 w2 st2. publish_all (\<lambda>_. 0) [NewMsg (bytes_of_string ''ab''), NewMsg (bytes_of_string ''c'')] demo_publisher
       = Some s1 \<and> drain_n 1 0 (pub_w (socket.pools s1), pub_st (socket.pools s1)) = Returns (w2, st2)"
proof -
  let ?ms = "[NewMsg (bytes_of_string ''ab''), NewMsg (bytes_of_string ''c'')]"
  have p: "socket.pools demo_publisher = \<lparr>pub_r = newPubQReader, pub_w = demo_pub, pub_st = demo_pub_store\<rparr>"
    "ctx_err (sck_ctx demo_publisher) = None"
    by (simp_all add: demo_publisher_def new_pub_pools_def NewPub_def newSocket_def newDefaultSocket_def)
  have st: "topics (cells demo_pub_store 1) = [''a'']" "usable (cells demo_pub_store 1)" "out (cells demo_pub_store 1) = []"
    by (simp_all add: demo_pub_store_def fresh_store_def new_conn_def usable_def Closed_def healthy_def)
  have u: "sub_ready demo_subscriber"
    by code_simp
  have topic: "msg_topic (NewMsg (bytes_of_string t)) = t" for t
    by (simp add: msg_topic_def NewMsg_def)
  have got: "filter (\<lambda>m. \<exists>k \<in> set (topics (cells (pub_st (socket.pools demo_publisher)) 1)). prefix k (msg_topic m)) ?ms
      = [NewMsg (bytes_of_string ''ab'')]"
    by (simp add: p(1) st(1) topic del: One_nat_def)
  from pub_sub_delivery [of demo_publisher 1 0 0, OF _ _ _ _ _ _ _ _ got [symmetric] _ _ u,
      where picks = "\<lambda>_. 0" and pick = 0 and c = 5] p st demo_pub_wf
  show ?thesis
    by (auto simp: demo_pub_eq sub_list_def make_chan_def encodable_def NewMsg_def)
qed

end
